(* ===== verification/Prelude.thy ===== *)
theory Prelude
  imports Main "HOL-Library.Word" "HOL-Library.Sublist"
begin

text \<open>
  Shared ground of the development: the machine types the C++ sources use, strictly sorted
  key/value lists (the abstract view of every index of the benchmark), and the list facts the
  components have in common. The collection \<open>olist\<close> holds the rewrite rules on ordered
  key/value lists that the component proofs pass to the simplifier.
\<close>

named_theorems olist \<open>rewriting of ordered key/value lists\<close>

unbundle bit_operations_syntax

type_synonym u64 = "64 word"

text \<open>A run of key/value pairs, in the order in which an index stores them.\<close>

type_synonym ('k, 'v) kvs = "('k \<times> 'v) list"

abbreviation skeys :: "('k::linorder, 'v) kvs \<Rightarrow> bool" where
  "skeys xs \<equiv> sorted_wrt (<) (map fst xs)"

section \<open>Ordered key/value lists\<close>

lemma skeys_append [olist]:
  "skeys (xs @ ys) \<longleftrightarrow> skeys xs \<and> skeys ys \<and> (\<forall>x\<in>set xs. \<forall>y\<in>set ys. fst x < fst y)"
  by (auto simp: sorted_wrt_append)

lemma skeys_distinct: "skeys xs \<Longrightarrow> distinct (map fst xs)"
  using strict_sorted_iff by blast

lemma skeys_take: "skeys xs \<Longrightarrow> skeys (take n xs)"
  by (metis append_take_drop_id skeys_append)

lemma skeys_drop: "skeys xs \<Longrightarrow> skeys (drop n xs)"
  by (metis append_take_drop_id skeys_append)

lemma map_of_skeys_iff:
  "skeys xs \<Longrightarrow> map_of xs k = Some v \<longleftrightarrow> (k, v) \<in> set xs"
  by (metis map_of_eq_Some_iff skeys_distinct)

lemma map_of_None_lower: "\<forall>x\<in>set xs. (k::'k::order) < fst x \<Longrightarrow> map_of xs k = None"
  by (force simp: map_of_eq_None_iff)

lemma map_of_None_upper: "\<forall>x\<in>set xs. fst x < (k::'k::order) \<Longrightarrow> map_of xs k = None"
  by (force simp: map_of_eq_None_iff)

lemma map_of_skeys_insert:
  assumes "\<forall>x\<in>set xs. fst x < (k::'k::linorder)" and "\<forall>y\<in>set ys. k < fst y"
  shows "map_of (xs @ (k, v) # ys) = (map_of (xs @ ys))(k \<mapsto> v)"
proof
  fix a
  show "map_of (xs @ (k, v) # ys) a = ((map_of (xs @ ys))(k \<mapsto> v)) a"
    using map_of_None_upper [OF assms(1)] 
    by (cases "a = k") (auto simp: map_add_def split: option.split)
qed

lemma skeys_insert:
  assumes "skeys (xs @ ys)" and "\<forall>x\<in>set xs. fst x < (k::'k::linorder)" and "\<forall>y\<in>set ys. k < fst y"
  shows "skeys (xs @ (k, v) # ys)"
  using assms by (auto simp: sorted_wrt_append)

section \<open>Positions in sorted arrays\<close>

text \<open>The position a lower-bound search looks for: the number of elements below the key.\<close>

definition rank_less :: "'k::linorder \<Rightarrow> 'k list \<Rightarrow> nat" where
  "rank_less k xs = length (takeWhile (\<lambda>x. x < k) xs)"

definition rank_le :: "'k::linorder \<Rightarrow> 'k list \<Rightarrow> nat" where
  "rank_le k xs = length (takeWhile (\<lambda>x. x \<le> k) xs)"

lemma rank_less_le_length: "rank_less k xs \<le> length xs"
  by (simp add: rank_less_def length_takeWhile_le)

lemma rank_le_le_length: "rank_le k xs \<le> length xs"
  by (simp add: rank_le_def length_takeWhile_le)

lemma rank_less_eqI:
  assumes "p \<le> length xs" and "\<forall>i<p. xs ! i < k" and "p < length xs \<longrightarrow> k \<le> xs ! p"
  shows "rank_less k xs = p"
proof -
  have "takeWhile (\<lambda>x. x < k) xs = take p xs"
    by (rule takeWhile_eq_take_P_nth) (use assms in \<open>auto simp: not_less\<close>)
  then show ?thesis using assms(1) by (simp add: rank_less_def)
qed

lemma rank_le_eqI:
  assumes "p \<le> length xs" and "\<forall>i<p. xs ! i \<le> k" and "p < length xs \<longrightarrow> k < xs ! p"
  shows "rank_le k xs = p"
proof -
  have "takeWhile (\<lambda>x. x \<le> k) xs = take p xs"
    by (rule takeWhile_eq_take_P_nth) (use assms in \<open>auto simp: not_le\<close>)
  then show ?thesis using assms(1) by (simp add: rank_le_def)
qed

lemma rank_less_below: "i < rank_less k xs \<Longrightarrow> xs ! i < k"
  unfolding rank_less_def by (metis (mono_tags) nth_mem set_takeWhileD takeWhile_nth)

lemma rank_le_below: "i < rank_le k xs \<Longrightarrow> xs ! i \<le> k"
  unfolding rank_le_def by (metis (mono_tags) nth_mem set_takeWhileD takeWhile_nth)

lemma rank_less_at: "rank_less k xs < length xs \<Longrightarrow> k \<le> xs ! rank_less k xs"
  using nth_length_takeWhile [of "\<lambda>x. x < k" xs] by (simp add: rank_less_def not_less)

lemma rank_le_at: "rank_le k xs < length xs \<Longrightarrow> k < xs ! rank_le k xs"
  using nth_length_takeWhile [of "\<lambda>x. x \<le> k" xs] by (simp add: rank_le_def not_le)

lemma rank_less_above:
  assumes "sorted xs" and "rank_less k xs \<le> i" and "i < length xs"
  shows "k \<le> xs ! i"
proof -
  have "k \<le> xs ! rank_less k xs" using rank_less_at [of k xs] assms by linarith
  also have "\<dots> \<le> xs ! i" using assms by (simp add: sorted_nth_mono)
  finally show ?thesis .
qed

lemma rank_le_above:
  assumes "sorted xs" and "rank_le k xs \<le> i" and "i < length xs"
  shows "k < xs ! i"
proof -
  have "k < xs ! rank_le k xs" using rank_le_at [of k xs] assms by linarith
  also have "\<dots> \<le> xs ! i" using assms by (simp add: sorted_nth_mono)
  finally show ?thesis .
qed

section \<open>Insertion into an ordered list\<close>

text \<open>The abstract effect of an insert: a key that is there keeps its value.\<close>

definition kv_insert :: "'k::linorder \<Rightarrow> 'v \<Rightarrow> ('k, 'v) kvs \<Rightarrow> ('k, 'v) kvs" where
  "kv_insert k v xs =
     (if k \<in> fst ` set xs then xs
      else takeWhile (\<lambda>x. fst x < k) xs @ (k, v) # dropWhile (\<lambda>x. fst x < k) xs)"

lemma takeWhile_take_rank:
  "takeWhile (\<lambda>x. fst x < k) xs = take (rank_less k (map fst xs)) xs"
  by (induction xs) (auto simp: rank_less_def)

lemma dropWhile_drop_rank:
  "dropWhile (\<lambda>x. fst x < k) xs = drop (rank_less k (map fst xs)) xs"
  by (induction xs) (auto simp: rank_less_def)

lemma rank_less_append_left:
  "\<forall>x\<in>set xs. x < k \<Longrightarrow> rank_less k (xs @ ys) = length xs + rank_less k ys"
  by (simp add: rank_less_def)

lemma kv_insert_middle:
  assumes "\<forall>x\<in>set xs. fst x < k" and "\<forall>z\<in>set zs. k < fst z"
  shows "kv_insert k v (xs @ ys @ zs) = xs @ kv_insert k v ys @ zs"
proof -
  have "takeWhile (\<lambda>x. fst x < k) (ys @ zs) = takeWhile (\<lambda>x. fst x < k) ys
    \<and> dropWhile (\<lambda>x. fst x < k) (ys @ zs) = dropWhile (\<lambda>x. fst x < k) ys @ zs"
    using assms(2) by (induction ys; cases zs) (auto dest: order.asym)
  moreover have "k \<notin> fst ` set xs" "k \<notin> fst ` set zs" using assms by force+
  ultimately show ?thesis using assms(1) by (auto simp: kv_insert_def)
qed

lemma kv_insert_keys: "fst ` set (kv_insert k v xs) = insert k (fst ` set xs)"
proof -
  have "set xs = set (takeWhile (\<lambda>x. fst x < k) xs) \<union> set (dropWhile (\<lambda>x. fst x < k) xs)"
    by (metis set_append takeWhile_dropWhile_id)
  then show ?thesis by (auto simp: kv_insert_def image_Un)
qed

lemma skeys_dropWhile_above:
  assumes "skeys xs" and "k \<notin> fst ` set xs"
  shows "\<forall>y\<in>set (dropWhile (\<lambda>x. fst x < k) xs). k < fst y"
  using assms by (induction xs) (auto simp: not_less le_less)

lemma skeys_kv_insert:
  assumes "skeys xs"
  shows "skeys (kv_insert k v xs)"
proof (cases "k \<in> fst ` set xs")
  case False
  have "skeys (takeWhile (\<lambda>x. fst x < k) xs @ (k, v) # dropWhile (\<lambda>x. fst x < k) xs)"
    by (rule skeys_insert)
      (use assms skeys_dropWhile_above [OF assms False] in \<open>auto dest: set_takeWhileD\<close>)
  with False show ?thesis by (simp add: kv_insert_def)
qed (use assms in \<open>simp add: kv_insert_def\<close>)

lemma map_of_kv_insert:
  assumes "skeys xs"
  shows "map_of (kv_insert k v xs) =
    (if map_of xs k = None then (map_of xs)(k \<mapsto> v) else map_of xs)"
proof (cases "k \<in> fst ` set xs")
  case False
  have "map_of (takeWhile (\<lambda>x. fst x < k) xs @ (k, v) # dropWhile (\<lambda>x. fst x < k) xs)
      = (map_of xs)(k \<mapsto> v)"
    using skeys_dropWhile_above [OF assms False]
    by (subst map_of_skeys_insert) (auto dest: set_takeWhileD)
  with False show ?thesis by (simp add: kv_insert_def map_of_eq_None_iff)
qed (auto simp: kv_insert_def map_of_eq_None_iff)

lemma length_kv_insert: "length (kv_insert k v xs) \<le> Suc (length xs)"
proof -
  have "length xs = length (takeWhile (\<lambda>x. fst x < k) xs) + length (dropWhile (\<lambda>x. fst x < k) xs)"
    by (metis length_append takeWhile_dropWhile_id)
  then show ?thesis by (simp add: kv_insert_def)
qed

text \<open>A lower-bound search finds a key exactly if it is there.\<close>

lemma rank_less_found:
  assumes "skeys d" and pos_def: "pos = rank_less k (map fst d)"
  shows "pos < length d \<and> fst (d ! pos) = k \<longleftrightarrow> k \<in> fst ` set d"
proof
  have srt: "sorted (map fst d)" using assms strict_sorted_imp_sorted by blast
  assume "k \<in> fst ` set d"
  then obtain i where i: "i < length d" "fst (d ! i) = k" by (metis imageE in_set_conv_nth)
  then have "pos \<le> i" using rank_less_below [of i k "map fst d"] by (force simp: pos_def not_less [symmetric])
  moreover have "k \<le> fst (d ! pos)" using i calculation rank_less_at [of k "map fst d"] by (simp add: pos_def)
  moreover have "fst (d ! pos) \<le> fst (d ! i)"
    using sorted_nth_mono [OF srt, of pos i] i calculation by simp
  ultimately show "pos < length d \<and> fst (d ! pos) = k" using i by auto
qed (metis imageI nth_mem)

lemma kv_insert_at_rank:
  "k \<notin> fst ` set d \<Longrightarrow> pos = rank_less k (map fst d) \<Longrightarrow> take pos d @ (k, v) # drop pos d = kv_insert k v d"
  by (simp add: kv_insert_def takeWhile_take_rank dropWhile_drop_rank)

lemma length_kv_insert_new: "k \<notin> fst ` set d \<Longrightarrow> length (kv_insert k v d) = Suc (length d)"
  by (simp add: kv_insert_def takeWhile_take_rank dropWhile_drop_rank)

end
