(* ===== verification/OptLock.thy ===== *)
theory OptLock
  imports Prelude
begin

text \<open>
  The optimistic lock of the concurrent B+-tree (\<open>struct OptLock\<close> in
  \<open>src/src/competitor/btreeolc/src/BTreeOLC_child_layout.h\<close>): one 64-bit word that holds a
  version counter, a lock bit (bit 1) and an obsolete bit (bit 0). Each method of the struct is
  one definition; a method that changes the word returns the new word, a method with a reference
  parameter \<open>needRestart\<close> takes and returns that flag.
\<close>

section \<open>The methods\<close>

definition lock_init :: u64 where
  "lock_init = 4"

definition isLocked :: "u64 \<Rightarrow> bool" where
  "isLocked version \<longleftrightarrow> version AND 2 = 2"

definition isObsolete :: "u64 \<Rightarrow> bool" where
  "isObsolete version \<longleftrightarrow> version AND 1 = 1"

definition readLockOrRestart :: "u64 \<Rightarrow> bool \<Rightarrow> u64 \<times> bool" where
  "readLockOrRestart w needRestart =
     (w, if isLocked w \<or> isObsolete w then True else needRestart)"

text \<open>The compare-and-swap writes the current word back into \<open>version\<close> when it fails.\<close>

definition upgradeToWriteLockOrRestart :: "u64 \<Rightarrow> u64 \<Rightarrow> bool \<Rightarrow> u64 \<times> u64 \<times> bool" where
  "upgradeToWriteLockOrRestart w version needRestart =
     (if w = version then (version + 2, version + 2, needRestart) else (w, w, True))"

definition writeLockOrRestart :: "u64 \<Rightarrow> bool \<Rightarrow> u64 \<times> bool" where
  "writeLockOrRestart w needRestart =
     (let (version, nr) = readLockOrRestart w needRestart in
      if nr then (w, nr)
      else let (w', _, nr') = upgradeToWriteLockOrRestart w version nr in (w', nr'))"

definition writeUnlock :: "u64 \<Rightarrow> u64" where
  "writeUnlock w = w + 2"

definition readUnlockOrRestart :: "u64 \<Rightarrow> u64 \<Rightarrow> bool" where
  "readUnlockOrRestart w startRead = (startRead \<noteq> w)"

definition checkOrRestart :: "u64 \<Rightarrow> u64 \<Rightarrow> bool" where
  "checkOrRestart w startRead = readUnlockOrRestart w startRead"

definition writeUnlockObsolete :: "u64 \<Rightarrow> u64" where
  "writeUnlockObsolete w = w + 3"

abbreviation free_word :: "u64 \<Rightarrow> bool" where
  "free_word w \<equiv> \<not> isLocked w \<and> \<not> isObsolete w"

section \<open>The bits of the word\<close>

lemma isObsolete_odd: "isObsolete w \<longleftrightarrow> odd w"
  by (simp add: isObsolete_def and_one_eq odd_iff_mod_2_eq_one)

lemma isLocked_bit: "isLocked w \<longleftrightarrow> bit w 1"
proof -
  have "(w AND 2 = 2) \<longleftrightarrow> bit w 1"
  proof
    assume "w AND 2 = 2"
    then have "bit (w AND 2) 1 = bit (2::u64) 1" by simp
    then show "bit w 1" by (simp add: bit_simps)
  next
    assume "bit w 1"
    then show "w AND 2 = 2"
      by (intro bit_word_eqI) (auto simp: bit_simps bit_2_iff)
  qed
  then show ?thesis by (simp add: isLocked_def)
qed

lemma isLocked_of_nat: "isLocked (of_nat c) \<longleftrightarrow> odd (c div 2)"
proof -
  have "isLocked (of_nat c) \<longleftrightarrow> bit c 1"
    unfolding isLocked_bit by (simp add: bit_of_nat_iff bit_simps)
  then show ?thesis by (simp add: bit_iff_odd)
qed

lemma isObsolete_of_nat: "isObsolete (of_nat c) \<longleftrightarrow> odd c"
  by (simp add: isObsolete_odd)

lemma free_word_init: "free_word lock_init"
  by (simp add: lock_init_def isLocked_def isObsolete_def)

section \<open>Threads around one locked object\<close>

text \<open>
  The protocol the tree operations follow on a node: read the version, look at the node any
  number of times, then either validate the version (a reader) or upgrade to the write lock with
  a compare-and-swap on it (a writer), change the node, and unlock. The steps of different
  threads interleave freely; a writer changes the content in any number of steps, so a reader may
  see it in the middle of an update. \<open>clock\<close> is a ghost: the unbounded value of which the
  64-bit word is the remainder.
\<close>

datatype 'a pc = Idle | Reading u64 "'a list" | Writing

record 'a olc_sys =
  lockw :: u64
  content :: 'a
  pcs :: "nat \<Rightarrow> 'a pc"
  clock :: nat

definition olc_init :: "'a \<Rightarrow> 'a olc_sys" where
  "olc_init x = \<lparr>lockw = lock_init, content = x, pcs = (\<lambda>_. Idle), clock = 4\<rparr>"

inductive olc_step :: "'a olc_sys \<Rightarrow> 'a olc_sys \<Rightarrow> bool" where
  begin_read: "pcs s t = Idle \<Longrightarrow> readLockOrRestart (lockw s) False = (v, False) \<Longrightarrow>
     olc_step s (s\<lparr>pcs := (pcs s)(t := Reading v [])\<rparr>)"
| sample: "pcs s t = Reading v obs \<Longrightarrow>
     olc_step s (s\<lparr>pcs := (pcs s)(t := Reading v (content s # obs))\<rparr>)"
| end_read: "pcs s t = Reading v obs \<Longrightarrow>
     olc_step s (s\<lparr>pcs := (pcs s)(t := Idle)\<rparr>)"
| upgrade: "pcs s t = Reading v obs \<Longrightarrow>
     upgradeToWriteLockOrRestart (lockw s) v False = (w', v', False) \<Longrightarrow>
     olc_step s (s\<lparr>lockw := w', pcs := (pcs s)(t := Writing), clock := clock s + 2\<rparr>)"
| modify: "pcs s t = Writing \<Longrightarrow> olc_step s (s\<lparr>content := x\<rparr>)"
| unlock: "pcs s t = Writing \<Longrightarrow>
     olc_step s (s\<lparr>lockw := writeUnlock (lockw s), pcs := (pcs s)(t := Idle),
       clock := clock s + 2\<rparr>)"
| unlock_obsolete: "pcs s t = Writing \<Longrightarrow>
     olc_step s (s\<lparr>lockw := writeUnlockObsolete (lockw s), pcs := (pcs s)(t := Idle),
       clock := clock s + 3\<rparr>)"

inductive olc_reachable :: "'a \<Rightarrow> 'a olc_sys \<Rightarrow> bool" for x0 where
  start: "olc_reachable x0 (olc_init x0)"
| step: "olc_reachable x0 s \<Longrightarrow> olc_step s s' \<Longrightarrow> olc_reachable x0 s'"

definition reader_ok :: "nat \<Rightarrow> 'a \<Rightarrow> 'a pc \<Rightarrow> bool" where
  "reader_ok c x p \<longleftrightarrow>
     (\<forall>v obs. p = Reading v obs \<longrightarrow>
        (\<exists>g\<le>c. v = of_nat g \<and> g mod 4 = 0 \<and> (g = c \<longrightarrow> (\<forall>y\<in>set obs. y = x))))"

definition writers :: "'a olc_sys \<Rightarrow> nat set" where
  "writers s = {t. pcs s t = Writing}"

text \<open>
  The invariant: the word is the clock modulo \<open>2^64\<close>; it shows a lock exactly while one thread
  writes; a reader's version is a free version not newer than the clock, and if it is the newest
  one everything the reader has seen is the current content.
\<close>

definition olc_inv :: "'a olc_sys \<Rightarrow> bool" where
  "olc_inv s \<longleftrightarrow> lockw s = of_nat (clock s)
     \<and> (writers s = {} \<and> clock s mod 4 < 2 \<or> is_singleton (writers s) \<and> clock s mod 4 = 2)
     \<and> (\<forall>t. reader_ok (clock s) (content s) (pcs s t))"

lemma olc_inv_init: "olc_inv (olc_init x)"
  by (simp add: olc_inv_def olc_init_def lock_init_def writers_def reader_ok_def)

lemma of_nat_u64_inj: "a < 2 ^ 64 \<Longrightarrow> b < 2 ^ 64 \<Longrightarrow> (of_nat a :: u64) = of_nat b \<Longrightarrow> a = b"
  by (drule arg_cong [where f = unat]) (simp add: unsigned_of_nat take_bit_nat_eq_self)

lemma odd_half_mod4: "odd (c div 2) \<longleftrightarrow> c mod 4 = 2 \<or> c mod 4 = (3::nat)"
  by presburger

lemma odd_mod4: "odd c \<longleftrightarrow> c mod 4 = 1 \<or> c mod 4 = (3::nat)"
  by presburger

lemma olc_step_clock_mono: "olc_step s s' \<Longrightarrow> clock s \<le> clock s'"
  by (induction rule: olc_step.induct) auto

lemma reader_ok_later:
  "reader_ok c x p \<Longrightarrow> c < c' \<Longrightarrow> reader_ok c' y p"
  unfolding reader_ok_def by (metis less_le_not_le order_trans nless_le)

lemma reader_ok_simps [simp]:
  "reader_ok c x Idle" "reader_ok c x Writing"
  by (auto simp: reader_ok_def)

lemma writers_upd:
  "writers (s\<lparr>pcs := (pcs s)(t := p)\<rparr>) =
     (if p = Writing then insert t (writers s) else writers s - {t})"
  by (auto simp: writers_def)

lemma writers_frame [simp]:
  "writers (s\<lparr>lockw := w\<rparr>) = writers s" "writers (s\<lparr>content := x\<rparr>) = writers s"
  "writers (s\<lparr>clock := c\<rparr>) = writers s"
  "writers (s\<lparr>lockw := w, pcs := p\<rparr>) = writers (s\<lparr>pcs := p\<rparr>)"
  by (auto simp: writers_def)

lemma singleton_writer:
  assumes "olc_inv s" and "pcs s t = Writing"
  shows "writers s = {t}" "clock s mod 4 = 2"
proof -
  have t: "t \<in> writers s" using assms(2) by (simp add: writers_def)
  then have "is_singleton (writers s) \<and> clock s mod 4 = 2"
    using assms(1) by (auto simp: olc_inv_def)
  with t show "writers s = {t}" and "clock s mod 4 = 2" by (auto simp: is_singleton_def)
qed

lemma not_writer: "pcs s t \<noteq> Writing \<Longrightarrow> writers s - {t} = writers s"
  by (auto simp: writers_def)

lemma olc_step_inv:
  assumes "olc_step s s'" and "clock s' < 2 ^ 64" and "olc_inv s"
  shows "olc_inv s'"
  using assms
proof (induction rule: olc_step.induct)
  case (begin_read s t v)
  then have w: "lockw s = of_nat (clock s)" and v: "v = of_nat (clock s)"
    by (auto simp: readLockOrRestart_def olc_inv_def split: if_splits)
  from begin_read w have "clock s mod 4 = 0"
    by (auto simp: readLockOrRestart_def isLocked_of_nat isObsolete_of_nat odd_half_mod4 odd_mod4
        split: if_splits) presburger
  with v have "reader_ok (clock s) (content s) (Reading v [])" by (auto simp: reader_ok_def)
  with begin_read show ?case by (simp add: olc_inv_def writers_upd not_writer)
next
  case (sample s t v obs)
  then have "reader_ok (clock s) (content s) (Reading v obs)" by (metis olc_inv_def)
  then have "reader_ok (clock s) (content s) (Reading v (content s # obs))"
    by (auto simp: reader_ok_def)
  with sample show ?case by (simp add: olc_inv_def writers_upd not_writer)
next
  case (end_read s t v obs)
  then show ?case by (simp add: olc_inv_def writers_upd not_writer)
next
  case (upgrade s t v obs w' v')
  then have "reader_ok (clock s) (content s) (Reading v obs)" by (metis olc_inv_def)
  then obtain g where g: "g \<le> clock s" "v = of_nat g" "g mod 4 = 0"
    by (auto simp: reader_ok_def)
  from upgrade have v: "v = of_nat (clock s)" and w': "w' = of_nat (clock s) + 2"
    by (auto simp: upgradeToWriteLockOrRestart_def olc_inv_def split: if_splits)
  have "g = clock s"
    by (rule of_nat_u64_inj) (use upgrade.prems g v in auto)
  with g have c: "clock s mod 4 = 0" "(clock s + 2) mod 4 = 2" by presburger+
  with upgrade.prems have "writers s = {}" by (auto simp: olc_inv_def)
  with c w' upgrade.prems show ?case
    by (auto simp: olc_inv_def writers_upd intro: reader_ok_later)
next
  case (modify s t x)
  then have c: "clock s mod 4 = 2" by (simp add: singleton_writer)
  have "reader_ok (clock s) x (pcs s u)" if "reader_ok (clock s) (content s) (pcs s u)" for u
    using that c unfolding reader_ok_def by fastforce
  with modify show ?case by (simp add: olc_inv_def)
next
  case (unlock s t)
  then have c: "writers s = {t}" "(clock s + 2) mod 4 = 0"
    using singleton_writer [of s t] by presburger+
  with unlock show ?case
    by (auto simp: olc_inv_def writers_upd writeUnlock_def intro: reader_ok_later)
next
  case (unlock_obsolete s t)
  then have c: "writers s = {t}" "(clock s + 3) mod 4 = 1"
    using singleton_writer [of s t] by presburger+
  with unlock_obsolete show ?case
    by (auto simp: olc_inv_def writers_upd writeUnlockObsolete_def intro: reader_ok_later)
qed

lemma olc_reachable_inv:
  "olc_reachable x0 s \<Longrightarrow> clock s < 2 ^ 64 \<Longrightarrow> olc_inv s"
proof (induction rule: olc_reachable.induct)
  case start
  show ?case by (rule olc_inv_init)
next
  case (step s s')
  then have "clock s < 2 ^ 64" using olc_step_clock_mono [of s s'] by linarith
  with step show ?case by (blast intro: olc_step_inv)
qed

section \<open>Properties\<close>

text \<open>
  C3: optimistic reads are consistent. If a thread read a node, however often and while other
  threads locked and changed it in any interleaving, and the version it started with is still the
  node's word, then no thread is writing and everything the thread saw is the current content.
  The bound on the clock says that the 64-bit version counter has not wrapped around.
\<close>

theorem olc_validated_read:
  assumes "olc_reachable x0 s" and "clock s < 2 ^ 64" and "pcs s t = Reading v obs"
    and "\<not> readUnlockOrRestart (lockw s) v"
  shows "writers s = {} \<and> set obs \<subseteq> {content s}"
proof -
  have inv: "olc_inv s" using assms(1,2) by (rule olc_reachable_inv)
  then have "reader_ok (clock s) (content s) (Reading v obs)" using assms(3) by (metis olc_inv_def)
  then obtain g where g: "g \<le> clock s" "v = of_nat g" "g mod 4 = 0" "g = clock s \<longrightarrow> (\<forall>y\<in>set obs. y = content s)"
    by (auto simp: reader_ok_def)
  moreover have "g = clock s"
    by (rule of_nat_u64_inj) (use g assms(2,4) inv in \<open>auto simp: olc_inv_def readUnlockOrRestart_def\<close>)
  ultimately show ?thesis using inv by (auto simp: olc_inv_def)
qed

definition olc_demo :: "nat olc_sys" where
  "olc_demo = (let s = olc_init 7 in
     s\<lparr>lockw := 8, content := 9, pcs := (pcs s)(1 := Reading 8 [9], 2 := Idle), clock := 8\<rparr>)"

lemma olc_demo_reachable: "olc_reachable (7::nat) olc_demo"
proof -
  let ?s0 = "olc_init (7::nat)"
  let ?s1 = "?s0\<lparr>pcs := (pcs ?s0)(2 := Reading 4 [])\<rparr>"
  let ?s2 = "?s1\<lparr>lockw := 6, pcs := (pcs ?s1)(2 := Writing), clock := clock ?s1 + 2\<rparr>"
  let ?s3 = "?s2\<lparr>content := 9\<rparr>"
  let ?s4 = "?s3\<lparr>lockw := writeUnlock (lockw ?s3), pcs := (pcs ?s3)(2 := Idle), clock := clock ?s3 + 2\<rparr>"
  let ?s5 = "?s4\<lparr>pcs := (pcs ?s4)(1 := Reading 8 [])\<rparr>"
  let ?s6 = "?s5\<lparr>pcs := (pcs ?s5)(1 := Reading 8 (content ?s5 # []))\<rparr>"
  have a0: "olc_step ?s0 ?s1"
    by (rule olc_step.begin_read) (simp_all add: olc_init_def lock_init_def readLockOrRestart_def isLocked_def isObsolete_def)
  have a1: "olc_step ?s1 ?s2"
    by (rule olc_step.upgrade [where v = 4 and obs = "[]" and v' = 6])
      (simp_all add: olc_init_def lock_init_def upgradeToWriteLockOrRestart_def)
  have a2: "olc_step ?s2 ?s3" by (rule olc_step.modify [where t = 2]) simp
  have a3: "olc_step ?s3 ?s4" by (rule olc_step.unlock) simp
  have a4: "olc_step ?s4 ?s5"
    by (rule olc_step.begin_read)
      (simp_all add: olc_init_def writeUnlock_def readLockOrRestart_def isLocked_def isObsolete_def)
  have a5: "olc_step ?s5 ?s6" by (rule olc_step.sample) simp
  have "olc_reachable 7 ?s6"
    by (rule olc_reachable.step [OF _ a5], rule olc_reachable.step [OF _ a4], rule olc_reachable.step [OF _ a3],
        rule olc_reachable.step [OF _ a2], rule olc_reachable.step [OF _ a1], rule olc_reachable.step [OF olc_reachable.start a0])
  moreover have "?s6 = olc_demo"
    by (simp add: olc_demo_def olc_init_def writeUnlock_def Let_def fun_eq_iff)
  ultimately show ?thesis by simp
qed

theorem olc_validated_read_witness:
  "olc_reachable (7::nat) olc_demo \<and> clock olc_demo < 2 ^ 64 \<and> pcs olc_demo 1 = Reading 8 [9]
    \<and> \<not> readUnlockOrRestart (lockw olc_demo) 8 \<and> writers olc_demo = {} \<and> set [9] \<subseteq> {content olc_demo}"
proof -
  have s: "clock olc_demo < 2 ^ 64" "pcs olc_demo 1 = Reading 8 [9]" "\<not> readUnlockOrRestart (lockw olc_demo) 8"
    by (simp_all add: olc_demo_def olc_init_def Let_def readUnlockOrRestart_def)
  from olc_validated_read [OF olc_demo_reachable s] olc_demo_reachable s show ?thesis by blast
qed

text \<open>
  C18: the write lock excludes. Two threads that write to one node are the same thread, and while
  it writes the word shows the lock bit and not the obsolete bit, so no reader starts.
\<close>

theorem olc_one_writer:
  assumes "olc_reachable x0 s" and "clock s < 2 ^ 64" and "pcs s t = Writing" and "pcs s u = Writing"
  shows "t = u \<and> isLocked (lockw s) \<and> snd (readLockOrRestart (lockw s) False)"
proof -
  have inv: "olc_inv s" using assms(1,2) by (rule olc_reachable_inv)
  have "writers s = {t}" "u \<in> writers s" and c: "clock s mod 4 = 2"
    using singleton_writer [OF inv assms(3)] assms(4) by (auto simp: writers_def)
  moreover have "isLocked (lockw s)"
    using inv c by (simp add: olc_inv_def isLocked_of_nat odd_half_mod4)
  ultimately show ?thesis by (auto simp: readLockOrRestart_def)
qed

definition olc_demo_locked :: "nat olc_sys" where
  "olc_demo_locked = (olc_init 7)\<lparr>lockw := 6, pcs := (\<lambda>_. Idle)(2 := Writing), clock := 6\<rparr>"

lemma olc_demo_locked_reachable: "olc_reachable (7::nat) olc_demo_locked"
proof -
  let ?s0 = "olc_init (7::nat)"
  let ?s1 = "?s0\<lparr>pcs := (pcs ?s0)(2 := Reading 4 [])\<rparr>"
  have "olc_step ?s0 ?s1"
    by (rule olc_step.begin_read) (simp_all add: olc_init_def lock_init_def readLockOrRestart_def isLocked_def isObsolete_def)
  moreover have "olc_step ?s1 (?s1\<lparr>lockw := 6, pcs := (pcs ?s1)(2 := Writing), clock := clock ?s1 + 2\<rparr>)"
    by (rule olc_step.upgrade [where v = 4 and obs = "[]" and v' = 6])
      (simp_all add: olc_init_def lock_init_def upgradeToWriteLockOrRestart_def)
  ultimately have "olc_reachable 7 (?s1\<lparr>lockw := 6, pcs := (pcs ?s1)(2 := Writing), clock := clock ?s1 + 2\<rparr>)"
    using olc_reachable.start [of "7::nat"] by (blast intro: olc_reachable.step)
  then show ?thesis by (simp add: olc_demo_locked_def olc_init_def)
qed

theorem olc_one_writer_witness:
  "olc_reachable (7::nat) olc_demo_locked \<and> pcs olc_demo_locked 2 = Writing \<and> isLocked (lockw olc_demo_locked)"
proof -
  have s: "clock olc_demo_locked < 2 ^ 64" "pcs olc_demo_locked 2 = Writing"
    by (simp_all add: olc_demo_locked_def olc_init_def)
  from olc_one_writer [OF olc_demo_locked_reachable s s(2)] olc_demo_locked_reachable s show ?thesis by blast
qed

end
