(* ===== verification/BTreeOLC.thy ===== *)
theory BTreeOLC
  imports OptLock
begin

text \<open>
  The B+-tree the benchmark runs under the name \<open>btreeolc\<close>
  (\<open>src/src/competitor/btreeolc/src/BTreeOLC_child_layout.h\<close>): its leaf and inner nodes with
  their search, insert and split methods, and the tree operations \<open>insert\<close>, \<open>lookup\<close> and \<open>scan\<close>.
  Every node carries its lock word, and the operations take and release the locks as the code
  does; the model is the run of one thread, in which a compare-and-swap sees the version read
  before it (\<open>OptLock\<close> treats the interleaving of threads). A pointer to a child is the child
  itself; a leaf also has an address, because \<open>next_leaf\<close> points to a leaf that the tree
  reaches on another way. The part of a node's array behind \<open>count\<close> is not modelled: a read there
  yields the parameter \<open>junk\<close>.
\<close>

section \<open>Sizes\<close>

text \<open>The template parameters enter through the sizes of a key and of a key/value pair.\<close>

record btcfg =
  sizeof_key :: nat
  sizeof_kv :: nat

definition pageSize :: nat where
  "pageSize = 512"

definition sizeof_NodeBase :: nat where
  "sizeof_NodeBase = 16"

definition leaf_maxEntries :: "btcfg \<Rightarrow> nat" where
  "leaf_maxEntries c = (pageSize - sizeof_NodeBase) div sizeof_kv c"

definition inner_maxEntries :: "btcfg \<Rightarrow> nat" where
  "inner_maxEntries c = (pageSize - sizeof_NodeBase) div (sizeof_key c + 8)"

text \<open>The instantiation of the benchmark: 64-bit keys and payloads.\<close>

definition cfg_u64 :: btcfg where
  "cfg_u64 = \<lparr>sizeof_key = 8, sizeof_kv = 16\<rparr>"

section \<open>Nodes\<close>

datatype ('k, 'v) bnode =
    Leaf (ver: u64) (laddr: nat) (data: "('k, 'v) kvs") (next_leaf: "nat option")
  | Inner (ver: u64) (keys: "'k list") (children: "('k, 'v) bnode list")

primrec set_ver :: "u64 \<Rightarrow> ('k, 'v) bnode \<Rightarrow> ('k, 'v) bnode" where
  "set_ver u (Leaf w a d nx) = Leaf u a d nx"
| "set_ver u (Inner w ks cs) = Inner u ks cs"

definition unlock_node :: "('k, 'v) bnode \<Rightarrow> ('k, 'v) bnode" where
  "unlock_node n = set_ver (writeUnlock (ver n)) n"

definition key_at :: "'k \<Rightarrow> 'k list \<Rightarrow> nat \<Rightarrow> 'k" where
  "key_at junk ks i = (if i < length ks then ks ! i else junk)"

text \<open>The body of the do-while loop of \<open>lowerBound\<close>; \<open>lower\<close> and \<open>upper\<close> are its variables.\<close>

function lowerBound_loop :: "'k::linorder \<Rightarrow> 'k list \<Rightarrow> 'k \<Rightarrow> nat \<Rightarrow> nat \<Rightarrow> nat" where
  "lowerBound_loop junk ks k lower upper =
     (let mid = (upper - lower) div 2 + lower; middle_key = key_at junk ks mid in
      if k < middle_key then (if lower < mid then lowerBound_loop junk ks k lower mid else lower)
      else if middle_key < k then
        (if mid + 1 < upper then lowerBound_loop junk ks k (mid + 1) upper else mid + 1)
      else mid)"
  by pat_completeness auto
termination
  by (relation "measure (\<lambda>(junk, ks, k, lower, upper). upper - lower)") auto

declare lowerBound_loop.simps [simp del]

definition inner_lowerBound :: "'k::linorder \<Rightarrow> 'k list \<Rightarrow> 'k \<Rightarrow> nat" where
  "inner_lowerBound junk ks k = lowerBound_loop junk ks k 0 (length ks)"

definition leaf_lowerBound :: "'k::linorder \<Rightarrow> ('k, 'v) kvs \<Rightarrow> 'k \<Rightarrow> nat" where
  "leaf_lowerBound junk d k = lowerBound_loop junk (map fst d) k 0 (length d)"

text \<open>The branch-free search of inner nodes: \<open>b\<close> is the offset of \<open>base\<close> in \<open>keys\<close>.\<close>

function lowerBoundBF_loop :: "'k::linorder \<Rightarrow> 'k list \<Rightarrow> 'k \<Rightarrow> nat \<Rightarrow> nat \<Rightarrow> nat" where
  "lowerBoundBF_loop junk ks k b n =
     (if 1 < n then
        let half = n div 2 in
        lowerBoundBF_loop junk ks k (if key_at junk ks (b + half) < k then b + half else b) (n - half)
      else b)"
  by pat_completeness auto
termination
  by (relation "measure (\<lambda>(junk, ks, k, b, n). n)") auto

declare lowerBoundBF_loop.simps [simp del]

definition inner_lowerBoundBF :: "'k::linorder \<Rightarrow> 'k list \<Rightarrow> 'k \<Rightarrow> nat" where
  "inner_lowerBoundBF junk ks k =
     (let b = lowerBoundBF_loop junk ks k 0 (length ks) in
      (if key_at junk ks b < k then 1 else 0) + b)"

definition leaf_isFull :: "btcfg \<Rightarrow> ('k, 'v) kvs \<Rightarrow> bool" where
  "leaf_isFull c d \<longleftrightarrow> length d = leaf_maxEntries c"

definition inner_isFull :: "btcfg \<Rightarrow> 'k list \<Rightarrow> bool" where
  "inner_isFull c ks \<longleftrightarrow> length ks = inner_maxEntries c - 1"

text \<open>\<open>BTreeLeaf::insert\<close>: the entries and whether the key was new.\<close>

definition leaf_insert :: "'k::linorder \<Rightarrow> 'k \<Rightarrow> 'v \<Rightarrow> ('k, 'v) kvs \<Rightarrow> ('k, 'v) kvs \<times> bool" where
  "leaf_insert junk k p d =
     (if length d \<noteq> 0 then
        let pos = leaf_lowerBound junk d k in
        if pos < length d \<and> fst (d ! pos) = k then (d, False)
        else (take pos d @ (k, p) # drop pos d, True)
      else ([(k, p)], True))"

text \<open>
  \<open>BTreeLeaf::split\<close>: the shortened leaf, the separator and the new leaf at address \<open>a'\<close>.
  The new leaf keeps the \<open>next_leaf\<close> of its constructor, a null pointer.
\<close>

definition leaf_split ::
  "nat \<Rightarrow> u64 \<Rightarrow> nat \<Rightarrow> ('k, 'v) kvs \<Rightarrow> ('k, 'v) bnode \<times> 'k \<times> ('k, 'v) bnode" where
  "leaf_split a' w a d =
     (let new_count = length d - length d div 2; count = length d - new_count in
      (Leaf w a (take count d) (Some a'), fst (d ! (count - 1)),
       Leaf lock_init a' (take new_count (drop count d)) None))"

definition inner_split ::
  "u64 \<Rightarrow> 'k list \<Rightarrow> ('k, 'v) bnode list \<Rightarrow> ('k, 'v) bnode \<times> 'k \<times> ('k, 'v) bnode" where
  "inner_split w ks cs =
     (let new_count = length ks - length ks div 2; count = length ks - new_count - 1 in
      (Inner w (take count ks) (take (count + 1) cs), ks ! count,
       Inner lock_init (take new_count (drop (count + 1) ks))
         (take (new_count + 1) (drop (count + 1) cs))))"

definition swap_at :: "nat \<Rightarrow> 'a list \<Rightarrow> 'a list" where
  "swap_at i xs = xs[i := xs ! (i + 1), i + 1 := xs ! i]"

text \<open>\<open>BTreeInner::insert\<close>: both arrays are moved up from \<open>pos\<close>, then two children are swapped.\<close>

definition inner_insert ::
  "'k::linorder \<Rightarrow> 'k \<Rightarrow> ('k, 'v) bnode \<Rightarrow> u64 \<Rightarrow> 'k list \<Rightarrow> ('k, 'v) bnode list \<Rightarrow> ('k, 'v) bnode" where
  "inner_insert junk k child w ks cs =
     (let pos = inner_lowerBound junk ks k in
      Inner w (take pos ks @ k # drop pos ks) (swap_at pos (take pos cs @ child # drop pos cs)))"

section \<open>The tree\<close>

text \<open>\<open>fresh\<close> is the next address the allocator hands out.\<close>

record ('k, 'v) btree =
  root :: "('k, 'v) bnode"
  fresh :: nat

definition btree_new :: "('k, 'v) btree" where
  "btree_new = \<lparr>root = Leaf lock_init 0 [] None, fresh = 1\<rparr>"

definition makeRoot :: "'k \<Rightarrow> ('k, 'v) bnode \<Rightarrow> ('k, 'v) bnode \<Rightarrow> ('k, 'v) btree \<Rightarrow> ('k, 'v) btree" where
  "makeRoot k leftChild rightChild t = t\<lparr>root := Inner lock_init [k] [leftChild, rightChild]\<rparr>"

text \<open>
  One pass of \<open>insert\<close> from a node down: \<open>Restart\<close> if a lock was taken or the version moved,
  \<open>Again\<close> if a node below was split (the code jumps back to \<open>restart\<close>), \<open>SplitUp\<close> if this node
  was split and its parent has to take the separator and the new node, \<open>Done\<close> with the result of
  the leaf's insert, \<open>Wild\<close> if the child pointer would be read outside of the array.
\<close>

datatype ('k, 'v) pass =
    Restart
  | Again "('k, 'v) bnode"
  | SplitUp "('k, 'v) bnode" 'k "('k, 'v) bnode"
  | Done "('k, 'v) bnode" bool
  | Wild

lemma size_child [termination_simp]:
  "i < length cs \<Longrightarrow> size (cs ! i) < Suc (m + size_list size cs)"
  by (meson le_imp_less_Suc nth_mem order_refl size_list_estimation' trans_le_add2)

fun insert_pass ::
  "btcfg \<Rightarrow> 'k::linorder \<Rightarrow> nat \<Rightarrow> 'k \<Rightarrow> 'v \<Rightarrow> ('k, 'v) bnode \<Rightarrow> ('k, 'v) pass" where
  "insert_pass c junk a' k v (Inner w ks cs) =
     (let (versionNode, nr) = readLockOrRestart w False in
      if nr then Restart
      else if inner_isFull c ks then
        (let (w1, _, nr1) = upgradeToWriteLockOrRestart w versionNode False in
         if nr1 then Restart
         else let (l, sep, r) = inner_split w1 ks cs in SplitUp (unlock_node l) sep r)
      else
        (let i = inner_lowerBound junk ks k in
         if i < length cs then
           (case insert_pass c junk a' k v (cs ! i) of
              Restart \<Rightarrow> Restart
            | Again n \<Rightarrow> Again (Inner w ks (cs[i := n]))
            | SplitUp l sep r \<Rightarrow>
                (let (w1, _, nr1) = upgradeToWriteLockOrRestart w versionNode False in
                 if nr1 then Restart
                 else Again (unlock_node (inner_insert junk sep r w1 ks (cs[i := l]))))
            | Done n b \<Rightarrow> Done (Inner w ks (cs[i := n])) b
            | Wild \<Rightarrow> Wild)
         else Wild))"
| "insert_pass c junk a' k v (Leaf w a d nx) =
     (let (versionNode, nr) = readLockOrRestart w False in
      if nr then Restart
      else
        (let (w1, _, nr1) = upgradeToWriteLockOrRestart w versionNode False in
         if nr1 then Restart
         else if length d = leaf_maxEntries c then
           (let (l, sep, r) = leaf_split a' w1 a d in SplitUp (unlock_node l) sep r)
         else
           (let (d', ret) = leaf_insert junk k v d in Done (unlock_node (Leaf w1 a d' nx)) ret)))"

text \<open>\<open>BTree::insert\<close>: passes until one is done; the first argument bounds their number.\<close>

fun bt_insert ::
  "btcfg \<Rightarrow> 'k::linorder \<Rightarrow> nat \<Rightarrow> 'k \<Rightarrow> 'v \<Rightarrow> ('k, 'v) btree \<Rightarrow> (('k, 'v) btree \<times> bool) option" where
  "bt_insert c junk 0 k v t = None"
| "bt_insert c junk (Suc fuel) k v t =
     (case insert_pass c junk (fresh t) k v (root t) of
        Restart \<Rightarrow> bt_insert c junk fuel k v t
      | Again r \<Rightarrow> bt_insert c junk fuel k v (t\<lparr>root := r, fresh := fresh t + 1\<rparr>)
      | SplitUp l sep r \<Rightarrow>
          bt_insert c junk fuel k v (makeRoot sep l r (t\<lparr>fresh := fresh t + 1\<rparr>))
      | Done r b \<Rightarrow> Some (t\<lparr>root := r\<rparr>, b)
      | Wild \<Rightarrow> None)"

text \<open>The descent loop of \<open>lookup\<close> and \<open>scan\<close> to the leaf of a key; \<open>None\<close> if it would restart.\<close>

fun descend :: "'k::linorder \<Rightarrow> 'k \<Rightarrow> ('k, 'v) bnode \<Rightarrow> ('k, 'v) bnode option" where
  "descend junk k (Leaf w a d nx) =
     (if snd (readLockOrRestart w False) then None else Some (Leaf w a d nx))"
| "descend junk k (Inner w ks cs) =
     (let (versionNode, nr) = readLockOrRestart w False; i = inner_lowerBound junk ks k in
      if nr then None
      else if checkOrRestart w versionNode then None
      else if i < length cs then descend junk k (cs ! i) else None)"

text \<open>
  \<open>BTree::lookup\<close>: the returned flag and what was written to \<open>result\<close>. The code never
  initialises \<open>success\<close>; \<open>stale\<close> is what its memory holds.
\<close>

definition bt_lookup :: "'k::linorder \<Rightarrow> bool \<Rightarrow> 'k \<Rightarrow> ('k, 'v) btree \<Rightarrow> (bool \<times> 'v option) option" where
  "bt_lookup junk stale k t =
     (case descend junk k (root t) of
        None \<Rightarrow> None
      | Some leaf \<Rightarrow>
          (let pos = leaf_lowerBound junk (data leaf) k in
           if pos < length (data leaf) \<and> fst (data leaf ! pos) = k
           then Some (True, Some (snd (data leaf ! pos)))
           else Some (stale, None)))"

fun leaves :: "('k, 'v) bnode \<Rightarrow> ('k, 'v) bnode list" where
  "leaves (Leaf w a d nx) = [Leaf w a d nx]"
| "leaves (Inner w ks cs) = concat (map leaves cs)"

text \<open>Following a leaf pointer: \<open>None\<close> is the null pointer.\<close>

definition deref :: "('k, 'v) bnode \<Rightarrow> nat option \<Rightarrow> ('k, 'v) bnode option" where
  "deref r p = (case p of None \<Rightarrow> None | Some a \<Rightarrow> find (\<lambda>l. laddr l = a) (leaves r))"

text \<open>The inner loop of \<open>scan\<close>: \<open>acc\<close> is the part of \<open>output\<close> written so far.\<close>

fun copy_out :: "int \<Rightarrow> 'a list \<Rightarrow> 'a list \<Rightarrow> 'a list" where
  "copy_out rng acc [] = acc"
| "copy_out rng acc (x # xs) =
     (if int (length acc) = rng then acc else copy_out rng (acc @ [x]) xs)"

fun scan_loop ::
  "'k::linorder \<Rightarrow> ('k, 'v) bnode \<Rightarrow> 'k \<Rightarrow> int \<Rightarrow> nat \<Rightarrow> ('k, 'v) bnode option \<Rightarrow> ('k, 'v) kvs
     \<Rightarrow> ('k, 'v) kvs option" where
  "scan_loop junk r k rng 0 node acc = None"
| "scan_loop junk r k rng (Suc fuel) node acc =
     (case node of
        None \<Rightarrow> Some acc
      | Some leaf \<Rightarrow>
          if \<not> int (length acc) < rng then Some acc
          else if snd (readLockOrRestart (ver leaf) False) then None
          else
            (let pos = (if length acc = 0 then leaf_lowerBound junk (data leaf) k else 0) in
             scan_loop junk r k rng fuel (deref r (next_leaf leaf))
               (copy_out rng acc (drop pos (data leaf)))))"

text \<open>\<open>BTree::scan\<close>: the pairs written to \<open>output\<close>; their number is the returned count.\<close>

definition bt_scan ::
  "'k::linorder \<Rightarrow> nat \<Rightarrow> 'k \<Rightarrow> int \<Rightarrow> ('k, 'v) btree \<Rightarrow> ('k, 'v) kvs option" where
  "bt_scan junk fuel k rng t =
     (case descend junk k (root t) of
        None \<Rightarrow> None
      | Some leaf \<Rightarrow> scan_loop junk (root t) k rng fuel (Some leaf) [])"

end
