(* ===== verification/BTreeOLC_Correct.thy ===== *)
theory BTreeOLC_Correct
  imports BTreeOLC
begin

text \<open>
  Correctness of the B+-tree of \<open>BTreeOLC\<close>: the searches find the lower bound, the tree
  invariant (separators aligned with the keys below them, sizes within the node limits, lock
  words free) is kept by every operation, an insert returns after finitely many passes and acts
  on the ordered list of entries as an insertion that keeps existing keys, a lookup finds
  exactly what the list holds.
\<close>

section \<open>The searches of a node\<close>

lemma lowerBound_loop_rank:
  assumes "sorted_wrt (<) ks" and "lower < upper" and "upper \<le> length ks"
    and "\<forall>i<lower. ks ! i < k" and "\<forall>i. upper \<le> i \<and> i < length ks \<longrightarrow> k < ks ! i"
  shows "lowerBound_loop junk ks k lower upper = rank_less k ks"
  using assms
proof (induction junk ks k lower upper rule: lowerBound_loop.induct)
  case (1 junk ks k lower upper)
  define mid where "mid = (upper - lower) div 2 + lower"
  have mid: "lower \<le> mid" "mid < upper" "mid < length ks"
    using 1 by (auto simp: mid_def)
  have lt: "i < j \<Longrightarrow> j < length ks \<Longrightarrow> ks ! i < ks ! j" for i j
    using "1.prems"(1) by (simp add: sorted_wrt_nth_less)
  have key: "key_at junk ks mid = ks ! mid" using mid by (simp add: key_at_def)
  note unf = lowerBound_loop.simps [of junk ks k lower upper] Let_def mid_def [symmetric] key
  consider "k < ks ! mid" | "ks ! mid < k" | "ks ! mid = k" by fastforce
  then show ?case
  proof cases
    case 1
    have above: "\<forall>i. mid \<le> i \<and> i < length ks \<longrightarrow> k < ks ! i"
      using lt [of mid] 1 by (metis le_neq_implies_less less_trans)
    show ?thesis
    proof (cases "lower < mid")
      case True
      with "1.IH"(1) 1 mid above "1.prems" show ?thesis
        by (simp add: unf)
    next
      case False
      then have "mid = lower" using mid by simp
      with "1.prems" 1 mid have "rank_less k ks = lower"
        by (intro rank_less_eqI) auto
      with 1 False show ?thesis by (simp add: unf)
    qed
  next
    case 2
    then have n: "\<not> k < ks ! mid" by simp
    have below: "\<forall>i<mid + 1. ks ! i < k"
      using lt [of _ mid] 2 mid by (metis less_SucE Suc_eq_plus1 less_trans)
    show ?thesis
    proof (cases "mid + 1 < upper")
      case True
      with "1.IH"(2) 2 n mid below "1.prems" show ?thesis
        by (simp add: unf)
    next
      case False
      then have "mid + 1 = upper" using mid by simp
      with "1.prems" below have "rank_less k ks = mid + 1"
        by (intro rank_less_eqI) auto
      with 2 n False show ?thesis by (simp add: unf)
    qed
  next
    case 3
    have "rank_less k ks = mid"
      using 3 lt [of _ mid] mid by (intro rank_less_eqI) auto
    with 3 show ?thesis by (simp add: unf)
  qed
qed

lemma inner_lowerBound_rank:
  "sorted_wrt (<) ks \<Longrightarrow> ks \<noteq> [] \<Longrightarrow> inner_lowerBound junk ks k = rank_less k ks"
  unfolding inner_lowerBound_def by (rule lowerBound_loop_rank) auto

lemma leaf_lowerBound_rank:
  "skeys d \<Longrightarrow> d \<noteq> [] \<Longrightarrow> leaf_lowerBound junk d k = rank_less k (map fst d)"
  unfolding leaf_lowerBound_def by (rule lowerBound_loop_rank) auto

lemma lowerBoundBF_loop_range:
  assumes "sorted_wrt (<) ks" and "0 < n" and "b + n \<le> length ks"
    and "\<forall>i<b. ks ! i < k" and "\<forall>i. b + n \<le> i \<and> i < length ks \<longrightarrow> k \<le> ks ! i"
  shows "let b' = lowerBoundBF_loop junk ks k b n in
    b' < length ks \<and> (\<forall>i<b'. ks ! i < k) \<and> (\<forall>i. b' < i \<and> i < length ks \<longrightarrow> k \<le> ks ! i)"
  using assms
proof (induction junk ks k b n rule: lowerBoundBF_loop.induct)
  case (1 junk ks k b n)
  show ?case
  proof (cases "1 < n")
    case False
    with "1.prems" show ?thesis by (auto simp: lowerBoundBF_loop.simps [of junk ks k b n])
  next
    case True
    define half where "half = n div 2"
    have half: "0 < half" "b + half < length ks" using True "1.prems" by (auto simp: half_def)
    have le: "i \<le> j \<Longrightarrow> j < length ks \<Longrightarrow> ks ! i \<le> ks ! j" for i j
      using "1.prems"(1) by (metis le_neq_implies_less order_le_less sorted_wrt_nth_less)
    have key: "key_at junk ks (b + half) = ks ! (b + half)" using half by (simp add: key_at_def)
    show ?thesis
    proof (cases "ks ! (b + half) < k")
      case lt: True
      have "\<forall>i<b + half. ks ! i < k" using le [of _ "b + half"] lt half
        by (meson le_less_trans less_imp_le)
      moreover have "half < n" using True by (simp add: half_def)
      ultimately show ?thesis using "1.IH" [OF True half_def] "1.prems" True lt half key
        by (simp add: lowerBoundBF_loop.simps [of junk ks k b n] half_def [symmetric])
    next
      case ge: False
      have "\<forall>i. b + (n - half) \<le> i \<and> i < length ks \<longrightarrow> k \<le> ks ! i"
      proof (intro allI impI)
        fix i assume i: "b + (n - half) \<le> i \<and> i < length ks"
        have "b + half \<le> i" using i True unfolding half_def by linarith
        with i ge le [of "b + half" i] show "k \<le> ks ! i" by simp
      qed
      moreover have "half < n" using True by (simp add: half_def)
      ultimately show ?thesis using "1.IH" [OF True half_def] "1.prems" True ge half key
        by (simp add: lowerBoundBF_loop.simps [of junk ks k b n] half_def [symmetric])
    qed
  qed
qed

lemma inner_lowerBoundBF_rank:
  assumes "sorted_wrt (<) ks" and "ks \<noteq> []"
  shows "inner_lowerBoundBF junk ks k = rank_less k ks"
proof -
  define b where "b = lowerBoundBF_loop junk ks k 0 (length ks)"
  have b: "b < length ks" "\<forall>i<b. ks ! i < k" "\<forall>i. b < i \<and> i < length ks \<longrightarrow> k \<le> ks ! i"
    using lowerBoundBF_loop_range [OF assms(1), of "length ks" 0 k junk, unfolded Let_def, folded b_def]
      assms(2) by (metis add_0 le_refl length_greater_0_conv not_less_zero leD)+
  show ?thesis
  proof (cases "ks ! b < k")
    case True
    with b have "rank_less k ks = b + 1" by (intro rank_less_eqI) (auto simp: less_Suc_eq)
    with True b show ?thesis by (simp add: inner_lowerBoundBF_def b_def [symmetric] key_at_def)
  next
    case False
    with b have "rank_less k ks = b" by (intro rank_less_eqI) auto
    with False b show ?thesis by (simp add: inner_lowerBoundBF_def b_def [symmetric] key_at_def)
  qed
qed

section \<open>Insertion into a leaf\<close>

lemma leaf_insert_correct:
  assumes "skeys d"
  shows "leaf_insert junk k p d = (kv_insert k p d, k \<notin> fst ` set d)"
proof (cases "d = []")
  case False
  define pos where "pos = rank_less k (map fst d)"
  have "leaf_lowerBound junk d k = pos" using assms False by (simp add: leaf_lowerBound_rank pos_def)
  with False rank_less_found [OF assms pos_def] kv_insert_at_rank [OF _ pos_def, of p] show ?thesis
    by (cases "k \<in> fst ` set d") (simp_all add: leaf_insert_def kv_insert_def)
qed (simp add: leaf_insert_def kv_insert_def)

section \<open>Separators and the keys below them\<close>

text \<open>
  \<open>aligned ks As\<close>: the key sets \<open>As\<close> of consecutive children are separated by the keys \<open>ks\<close>,
  each child's keys being above the separator to its left and not above the one to its right.
\<close>

fun aligned :: "'k::linorder list \<Rightarrow> 'k set list \<Rightarrow> bool" where
  "aligned [] [A] = True"
| "aligned (k # ks) (A # As) =
     ((\<forall>x\<in>A. x \<le> k) \<and> (\<forall>B\<in>set As. \<forall>x\<in>B. k < x) \<and> (\<forall>j\<in>set ks. k < j) \<and> aligned ks As)"
| "aligned _ _ = False"

lemma aligned_length: "aligned ks As \<Longrightarrow> length As = Suc (length ks)"
  by (induction ks As rule: aligned.induct) auto

lemma aligned_sorted: "aligned ks As \<Longrightarrow> sorted_wrt (<) ks"
  by (induction ks As rule: aligned.induct) auto

lemma aligned_single [simp]: "aligned [] As \<longleftrightarrow> (\<exists>A. As = [A])"
  by (cases As rule: list.exhaust; cases "tl As") auto

lemma aligned_append:
  "length As = Suc (length ks) \<Longrightarrow>
   aligned (ks @ k # js) (As @ Bs) \<longleftrightarrow>
     aligned ks As \<and> aligned js Bs \<and> (\<forall>A\<in>set As. \<forall>x\<in>A. x \<le> k) \<and> (\<forall>j\<in>set ks. j < k)
     \<and> (\<forall>B\<in>set Bs. \<forall>x\<in>B. k < x) \<and> (\<forall>j\<in>set js. k < j)"
proof (induction ks arbitrary: As)
  case Nil
  then obtain A where "As = [A]" by (auto simp: length_Suc_conv)
  then show ?case by auto
next
  case (Cons i ks)
  then obtain A As' where As: "As = A # As'" "length As' = Suc (length ks)"
    by (auto simp: length_Suc_conv)
  have "\<forall>x\<in>A. x \<le> k" if "\<forall>x\<in>A. x \<le> i" "i < k" using that by fastforce
  moreover have "\<forall>B\<in>set Bs. \<forall>x\<in>B. i < x" if "\<forall>B\<in>set Bs. \<forall>x\<in>B. k < x" "i < k"
    using that by fastforce
  moreover have "\<forall>j\<in>set js. i < j" if "\<forall>j\<in>set js. k < j" "i < k"
    using that by fastforce
  ultimately show ?case using Cons.IH [OF As(2)] As by auto
qed

lemma rank_less_Cons:
  "rank_less k (j # ks) = (if j < k then Suc (rank_less k ks) else 0)"
  by (simp add: rank_less_def)

lemma aligned_insert:
  "aligned ks As \<Longrightarrow> aligned ks (As[rank_less k ks := insert k (As ! rank_less k ks)])"
proof (induction ks As rule: aligned.induct)
  case (2 j ks A As)
  let ?A = "As ! rank_less k ks"
  have "rank_less k ks < length As"
    using 2 aligned_length [of ks As] rank_less_le_length [of k ks] by auto
  then have in_As: "?A \<in> set As" by simp
  show ?case
  proof (cases "j < k")
    case True
    have "\<forall>B\<in>set (As[rank_less k ks := insert k ?A]). \<forall>x\<in>B. j < x"
    proof
      fix B assume "B \<in> set (As[rank_less k ks := insert k ?A])"
      then have "B \<in> set As \<or> B = insert k ?A" using set_update_subset_insert by fastforce
      with 2 True in_As show "\<forall>x\<in>B. j < x" by auto
    qed
    with 2 True show ?thesis by (simp add: rank_less_Cons)
  next
    case False
    with 2 show ?thesis by (simp add: rank_less_Cons)
  qed
qed (auto simp: rank_less_def)

lemma aligned_split:
  assumes "aligned ks As" and "i < length As" and "As ! i = L \<union> R" and "L \<noteq> {}" and "R \<noteq> {}"
    and "\<forall>x\<in>L. x \<le> s" and "\<forall>y\<in>R. s < y"
  shows "rank_less s ks = i \<and> aligned (take i ks @ s # drop i ks) (take i As @ L # R # drop (Suc i) As)"
  using assms
proof (induction ks As arbitrary: i rule: aligned.induct)
  case (1 A)
  then show ?case by (auto simp: rank_less_def)
next
  case (2 j ks A As)
  obtain x y where xy: "x \<in> L" "y \<in> R" "x \<le> s" "s < y" using "2.prems" by blast
  show ?case
  proof (cases i)
    case 0
    then have A: "A = L \<union> R" using "2.prems" by simp
    then have yj: "\<forall>x\<in>L \<union> R. x \<le> j" using "2.prems"(1) by simp
    then have "y \<le> j" using xy(2) by simp
    then have "s < j" using xy(4) by simp
    moreover have "\<forall>B\<in>set As. \<forall>x\<in>B. s < x"
      using calculation "2.prems"(1) by (metis aligned.simps(2) less_trans)
    ultimately show ?thesis using 0 "2.prems" yj
      by (auto simp: rank_less_Cons intro: less_trans)
  next
    case (Suc n)
    with "2.prems" have n: "n < length As" "As ! n = L \<union> R" by auto
    then have "\<forall>x\<in>L \<union> R. j < x" using "2.prems"(1) by (metis aligned.simps(2) nth_mem)
    then have "j < x" using xy(1) by simp
    then have "j < s" using xy(3) by simp
    moreover have "\<forall>B\<in>set (take n As) \<union> set (drop (Suc n) As). \<forall>x\<in>B. j < x"
      using "2.prems"(1) by (auto dest: in_set_takeD in_set_dropD)
    ultimately show ?thesis
      using "2.IH" [of n] n Suc "2.prems" \<open>\<forall>x\<in>L \<union> R. j < x\<close>
      by (auto simp: rank_less_Cons dest: in_set_takeD in_set_dropD)
  qed
qed auto

section \<open>The tree invariant\<close>

fun inorder :: "('k, 'v) bnode \<Rightarrow> ('k, 'v) kvs" where
  "inorder (Leaf w a d nx) = d"
| "inorder (Inner w ks cs) = concat (map inorder cs)"

definition keyset :: "('k, 'v) bnode \<Rightarrow> 'k set" where
  "keyset t = fst ` set (inorder t)"

lemma keyset_simps [simp]:
  "keyset (Leaf w a d nx) = fst ` set d"
  "keyset (Inner w ks cs) = (\<Union>c\<in>set cs. keyset c)"
  by (auto simp: keyset_def)

text \<open>Every node: free lock word, sizes within the limits, aligned separators, no empty child.\<close>

fun wf_node :: "btcfg \<Rightarrow> ('k::linorder, 'v) bnode \<Rightarrow> bool" where
  "wf_node c (Leaf w a d nx) \<longleftrightarrow> free_word w \<and> skeys d \<and> length d \<le> leaf_maxEntries c"
| "wf_node c (Inner w ks cs) \<longleftrightarrow> free_word w \<and> ks \<noteq> [] \<and> length ks \<le> inner_maxEntries c - 1
     \<and> aligned ks (map keyset cs) \<and> (\<forall>n\<in>set cs. wf_node c n \<and> keyset n \<noteq> {})"

definition cfg_ok :: "btcfg \<Rightarrow> bool" where
  "cfg_ok c \<longleftrightarrow> 2 \<le> leaf_maxEntries c \<and> 5 \<le> inner_maxEntries c"

lemma aligned_concat_sorted:
  "aligned ks (map keyset cs) \<Longrightarrow> \<forall>n\<in>set cs. skeys (inorder n) \<Longrightarrow> skeys (concat (map inorder cs))"
proof (induction ks arbitrary: cs)
  case (Cons k ks)
  then obtain n ns where cs: "cs = n # ns" by (cases cs) auto
  have "fst x < fst y" if "x \<in> set (inorder n)" "y \<in> set (concat (map inorder ns))" for x y
  proof -
    have "fst x \<le> k" using that Cons.prems(1) cs by (auto simp: keyset_def)
    moreover have "k < fst y" using that Cons.prems(1) cs by (auto simp: keyset_def)
    ultimately show ?thesis by simp
  qed
  moreover have "skeys (concat (map inorder ns))" and "skeys (inorder n)" using Cons cs by auto
  ultimately have "skeys (inorder n @ concat (map inorder ns))" unfolding skeys_append by blast
  with cs show ?case by simp
qed auto

lemma wf_inorder_sorted: "wf_node c t \<Longrightarrow> skeys (inorder t)"
  by (induction t rule: inorder.induct) (auto intro: aligned_concat_sorted)

lemma split_at: "i < length xs \<Longrightarrow> xs = take i xs @ xs ! i # drop (Suc i) xs"
  by (simp add: id_take_nth_drop)

text \<open>The child that the search selects: all keys before it are smaller, all after it larger.\<close>

lemma aligned_neighbours:
  assumes "aligned ks As" and "i = rank_less k ks"
  shows "i < length As" "\<forall>A\<in>set (take i As). \<forall>x\<in>A. x < k" "\<forall>A\<in>set (drop (Suc i) As). \<forall>x\<in>A. k < x"
proof -
  show "i < length As"
    using assms aligned_length [OF assms(1)] rank_less_le_length [of k ks] by simp
  have "(\<forall>A\<in>set (take i As). \<forall>x\<in>A. x < k) \<and> (\<forall>A\<in>set (drop (Suc i) As). \<forall>x\<in>A. k < x)"
    using assms
  proof (induction ks As arbitrary: i rule: aligned.induct)
    case (2 j ks A As)
    show ?case
    proof (cases "j < k")
      case True
      with 2 show ?thesis by (auto simp: rank_less_Cons)
    next
      case False
      then have "\<forall>B\<in>set As. \<forall>x\<in>B. k < x" using "2.prems"(1) by fastforce
      with False 2 show ?thesis by (auto simp: rank_less_Cons)
    qed
  qed (auto simp: rank_less_def)
  then show "\<forall>A\<in>set (take i As). \<forall>x\<in>A. x < k" "\<forall>A\<in>set (drop (Suc i) As). \<forall>x\<in>A. k < x"
    by auto
qed

lemma child_neighbours:
  assumes "aligned ks (map keyset cs)" and "i = rank_less k ks"
  shows "i < length cs"
    "\<forall>x\<in>set (concat (map inorder (take i cs))). fst x < k"
    "\<forall>x\<in>set (concat (map inorder (drop (Suc i) cs))). k < fst x"
  using aligned_neighbours [OF assms] by (auto simp: keyset_def take_map drop_map)

lemma inorder_at:
  "i < length cs \<Longrightarrow> concat (map inorder cs) =
     concat (map inorder (take i cs)) @ inorder (cs ! i) @ concat (map inorder (drop (Suc i) cs))"
  by (subst split_at [of i cs]) (simp_all del: append_take_drop_id)

lemma inorder_upd:
  "i < length cs \<Longrightarrow> concat (map inorder (cs[i := n])) =
     concat (map inorder (take i cs)) @ inorder n @ concat (map inorder (drop (Suc i) cs))"
  by (simp add: upd_conv_take_nth_drop)

section \<open>Splits\<close>

text \<open>What a split hands to the parent: two well-formed halves of the node around a separator.\<close>

definition split_ok :: "btcfg \<Rightarrow> ('k::linorder, 'v) bnode \<Rightarrow> ('k, 'v) bnode \<Rightarrow> 'k \<Rightarrow> ('k, 'v) bnode \<Rightarrow> bool" where
  "split_ok c n l s r \<longleftrightarrow> wf_node c l \<and> wf_node c r \<and> keyset l \<noteq> {} \<and> keyset r \<noteq> {}
     \<and> inorder n = inorder l @ inorder r \<and> (\<forall>x\<in>keyset l. x \<le> s) \<and> (\<forall>x\<in>keyset r. s < x)"

lemma split_ok_keyset: "split_ok c n l s r \<Longrightarrow> keyset n = keyset l \<union> keyset r"
  by (auto simp: split_ok_def keyset_def)

lemma free_word_cycle: "free_word w \<Longrightarrow> free_word (writeUnlock (w + 2))"
proof -
  have "free_word (w + 4) = free_word w"
  proof -
    have "w + 4 = of_nat (unat w + 4)" by simp
    moreover have "w = of_nat (unat w)" by simp
    ultimately have "isLocked (w + 4) = isLocked w" "isObsolete (w + 4) = isObsolete w"
      by (metis isLocked_of_nat odd_half_mod4 mod_add_self2, metis isObsolete_of_nat odd_mod4 mod_add_self2)
    then show ?thesis by simp
  qed
  then show "free_word w \<Longrightarrow> free_word (writeUnlock (w + 2))"
    by (simp add: writeUnlock_def add.assoc)
qed

lemma unlock_node_simps [simp]:
  "unlock_node (Leaf w a d nx) = Leaf (writeUnlock w) a d nx"
  "unlock_node (Inner w ks cs) = Inner (writeUnlock w) ks cs"
  by (auto simp: unlock_node_def)

lemma inorder_unlock [simp]: "inorder (unlock_node n) = inorder n"
  by (cases n) auto

lemma keyset_unlock [simp]: "keyset (unlock_node n) = keyset n"
  by (simp add: keyset_def)

lemma leaf_split_ok:
  assumes "wf_node c (Leaf w a d nx)" and "length d = leaf_maxEntries c" and "cfg_ok c"
    and "leaf_split a' (w + 2) a d = (l, s, r)"
  shows "split_ok c (Leaf w a d nx) (unlock_node l) s r"
proof -
  define m where "m = length d div 2"
  have m: "0 < m" "m < length d" using assms by (auto simp: m_def cfg_ok_def)
  have cnt: "length d - (length d - length d div 2) = m" using m by (simp add: m_def)
  have l: "l = Leaf (w + 2) a (take m d) (Some a')" and r: "r = Leaf lock_init a' (drop m d) None"
    and s: "s = fst (d ! (m - 1))"
    using assms(4) m by (auto simp: leaf_split_def Let_def cnt m_def [symmetric])
  have srt: "skeys d" using assms(1) by simp
  have lt: "fst (d ! i) < fst (d ! j)" if "i < j" "j < length d" for i j
    using sorted_wrt_nth_less [OF srt, of i j] that by simp
  have "x \<le> s" if "x \<in> keyset l" for x
  proof -
    from that obtain i where "i < m" "x = fst (d ! i)" using m by (auto simp: l in_set_conv_nth)
    moreover have "i = m - 1 \<or> i < m - 1" using calculation by linarith
    moreover have "m - 1 < length d" using m by simp
    ultimately show ?thesis using lt [of i "m - 1"] s by (auto intro: less_imp_le)
  qed
  moreover have "s < x" if "x \<in> keyset r" for x
  proof -
    from that obtain y where "y \<in> set (drop m d)" and "x = fst y" by (auto simp: r)
    then obtain i where i: "i < length (drop m d)" "y = drop m d ! i" by (metis in_set_conv_nth)
    then have "m + i < length d" "x = fst (d ! (m + i))" using m \<open>x = fst y\<close> by auto
    then show ?thesis using lt [of "m - 1" "m + i"] m s by auto
  qed
  moreover have "free_word (writeUnlock (w + 2))" using assms(1) by (simp add: free_word_cycle)
  ultimately show ?thesis
    using assms(1,2) m srt free_word_init
    by (auto simp: split_ok_def l r take_map [symmetric] drop_map [symmetric]
        sorted_wrt_take sorted_wrt_drop)
qed

lemma inner_split_ok:
  assumes wf: "wf_node c (Inner w ks cs)" and full: "length ks = inner_maxEntries c - 1"
    and "cfg_ok c" and split: "inner_split (w + 2) ks cs = (l, s, r)"
  shows "split_ok c (Inner w ks cs) (unlock_node l) s r"
proof -
  define q where "q = length ks div 2 - 1"
  have n: "4 \<le> length ks" using assms by (auto simp: cfg_ok_def)
  then have q: "0 < q" "q < length ks" "Suc q < length ks"
    "length ks - (length ks - length ks div 2) - 1 = q"
    "length ks - length ks div 2 = length ks - Suc q" by (auto simp: q_def)
  have al: "aligned ks (map keyset cs)" and len: "length cs = Suc (length ks)"
    using wf aligned_length by fastforce+
  have l: "l = Inner (w + 2) (take q ks) (take (Suc q) cs)" and s: "s = ks ! q"
    and r: "r = Inner lock_init (drop (Suc q) ks) (drop (Suc q) cs)"
    using split q len by (auto simp: inner_split_def Let_def)
  have ks: "ks = take q ks @ s # drop (Suc q) ks" using q s split_at by blast
  have cs: "map keyset cs = map keyset (take (Suc q) cs) @ map keyset (drop (Suc q) cs)"
    by (metis append_take_drop_id map_append)
  have "length (map keyset (take (Suc q) cs)) = Suc (length (take q ks))" using q len by simp
  from aligned_append [OF this, of s "drop (Suc q) ks" "map keyset (drop (Suc q) cs)"] ks cs al
  have al': "aligned (take q ks) (map keyset (take (Suc q) cs))"
    "aligned (drop (Suc q) ks) (map keyset (drop (Suc q) cs))"
    "\<forall>x\<in>keyset l. x \<le> s" "\<forall>x\<in>keyset r. s < x"
    by (auto simp: l r)
  have "keyset l \<noteq> {}" "keyset r \<noteq> {}"
    using wf q len by (auto simp: l r take_Suc_conv_app_nth Cons_nth_drop_Suc [symmetric])
  moreover have "inorder (Inner w ks cs) = inorder l @ inorder r"
    by (simp add: l r) (metis append_take_drop_id concat_append map_append)
  moreover have "free_word (writeUnlock (w + 2))" using wf by (simp add: free_word_cycle)
  moreover have "\<forall>n\<in>set (take (Suc q) cs) \<union> set (drop (Suc q) cs). wf_node c n \<and> keyset n \<noteq> {}"
    using wf by (metis Un_iff in_set_dropD in_set_takeD wf_node.simps(2))
  moreover have "take q ks \<noteq> []" "drop (Suc q) ks \<noteq> []"
    "length (take q ks) \<le> inner_maxEntries c - 1" "length (drop (Suc q) ks) \<le> inner_maxEntries c - 1"
    using q n full [symmetric] by auto
  moreover have "wf_node c (unlock_node l)" "wf_node c r"
    using calculation al'(1,2) free_word_init by (simp_all add: l r del: take_eq_Nil drop_eq_Nil length_take length_drop)
  ultimately show ?thesis using al'(3,4) by (simp add: split_ok_def)
qed

section \<open>One pass of an insert\<close>

lemma swap_at_insert:
  "i < length cs \<Longrightarrow> swap_at i (take i cs @ x # drop i cs) = take i cs @ cs ! i # x # drop (Suc i) cs"
  by (simp add: swap_at_def nth_append list_update_append Cons_nth_drop_Suc [symmetric])

lemma inner_insert_shape:
  assumes wf: "wf_node c (Inner w ks cs)" and i: "i < length cs" and sp: "split_ok c (cs ! i) l s r"
  shows "inner_insert junk s r w' ks (cs[i := l]) =
      Inner w' (take i ks @ s # drop i ks) (take i cs @ l # r # drop (Suc i) cs)"
    and "aligned (take i ks @ s # drop i ks) (map keyset (take i cs @ l # r # drop (Suc i) cs))"
proof -
  have al: "aligned ks (map keyset cs)" using wf by simp
  have at: "map keyset cs ! i = keyset l \<union> keyset r" using i sp by (simp add: split_ok_keyset)
  have "rank_less s ks = i \<and> aligned (take i ks @ s # drop i ks)
     (take i (map keyset cs) @ keyset l # keyset r # drop (Suc i) (map keyset cs))"
    by (rule aligned_split [OF al _ at]) (use i sp in \<open>auto simp: split_ok_def\<close>)
  then have rk: "rank_less s ks = i" and al': "aligned (take i ks @ s # drop i ks)
     (map keyset (take i cs @ l # r # drop (Suc i) cs))"
    by (auto simp: take_map drop_map)
  then show "inner_insert junk s r w' ks (cs[i := l]) =
      Inner w' (take i ks @ s # drop i ks) (take i cs @ l # r # drop (Suc i) cs)"
    using i wf al swap_at_insert [of i "cs[i := l]" r]
    by (simp add: inner_insert_def inner_lowerBound_rank aligned_sorted Let_def)
  show "aligned (take i ks @ s # drop i ks) (map keyset (take i cs @ l # r # drop (Suc i) cs))"
    by (rule al')
qed

lemma inner_insert_ok:
  assumes wf: "wf_node c (Inner w ks cs)" and i: "i < length cs" and len: "length ks < inner_maxEntries c - 1"
    and sp: "split_ok c (cs ! i) l s r"
  shows "wf_node c (unlock_node (inner_insert junk s r (w + 2) ks (cs[i := l])))"
    and "inorder (inner_insert junk s r (w + 2) ks (cs[i := l])) = inorder (Inner w ks cs)"
proof -
  note eq = inner_insert_shape [OF wf i sp]
  have "free_word (writeUnlock (w + 2))" using wf by (simp add: free_word_cycle)
  moreover have "\<forall>n\<in>set (take i cs) \<union> set (drop (Suc i) cs). wf_node c n \<and> keyset n \<noteq> {}"
    using wf by (metis Un_iff in_set_dropD in_set_takeD wf_node.simps(2))
  ultimately show "wf_node c (unlock_node (inner_insert junk s r (w + 2) ks (cs[i := l])))"
    using eq(2) sp len by (simp add: eq(1) split_ok_def)
  show "inorder (inner_insert junk s r (w + 2) ks (cs[i := l])) = inorder (Inner w ks cs)"
    using sp i inorder_at [OF i] by (simp add: eq(1) split_ok_def)
qed

fun nodes :: "('k, 'v) bnode \<Rightarrow> nat" where
  "nodes (Leaf w a d nx) = 1"
| "nodes (Inner w ks cs) = Suc (sum_list (map nodes cs))"

text \<open>What a pass over a well-formed subtree gives.\<close>

definition pass_ok :: "btcfg \<Rightarrow> 'k::linorder \<Rightarrow> 'v \<Rightarrow> ('k, 'v) bnode \<Rightarrow> ('k, 'v) pass \<Rightarrow> bool" where
  "pass_ok c k v n p = (case p of
      Restart \<Rightarrow> False
    | Again n' \<Rightarrow> wf_node c n' \<and> inorder n' = inorder n \<and> nodes n' = Suc (nodes n)
    | SplitUp l s r \<Rightarrow> split_ok c n l s r \<and> nodes l + nodes r = Suc (nodes n)
    | Done n' b \<Rightarrow> wf_node c n' \<and> inorder n' = kv_insert k v (inorder n) \<and> b = (k \<notin> keyset n)
    | Wild \<Rightarrow> False)"

lemma leaf_pass_ok:
  assumes "wf_node c (Leaf w a d nx)" and "cfg_ok c"
  shows "pass_ok c k v (Leaf w a d nx) (insert_pass c junk a' k v (Leaf w a d nx))"
proof (cases "length d = leaf_maxEntries c")
  case True
  obtain l s r where sp: "leaf_split a' (w + 2) a d = (l, s, r)" by (metis prod_cases3)
  then have "nodes (unlock_node l) + nodes r = 2" by (auto simp: leaf_split_def Let_def)
  with leaf_split_ok [OF assms(1) True assms(2) sp] assms(1) True sp show ?thesis
    by (simp add: pass_ok_def readLockOrRestart_def upgradeToWriteLockOrRestart_def)
next
  case False
  have "free_word (writeUnlock (w + 2))" using assms(1) by (simp add: free_word_cycle)
  moreover have "length (kv_insert k v d) \<le> leaf_maxEntries c"
    using assms(1) False length_kv_insert [of k v d] by simp
  ultimately show ?thesis using assms False
    by (simp add: pass_ok_def readLockOrRestart_def upgradeToWriteLockOrRestart_def
        leaf_insert_correct skeys_kv_insert)
qed

lemma sum_nodes_upd:
  "i < length cs \<Longrightarrow> sum_list (map nodes (cs[i := n])) + nodes (cs ! i) = sum_list (map nodes cs) + nodes n"
  by (induction cs arbitrary: i) (auto split: nat.split)

lemma nodes_inner_insert:
  assumes "wf_node c (Inner w ks cs)" and "i < length cs" and "split_ok c (cs ! i) l s r"
  shows "nodes (unlock_node (inner_insert junk s r w' ks (cs[i := l]))) + nodes (cs ! i)
    = nodes (Inner w ks cs) + nodes l + nodes r"
proof -
  have "sum_list (map nodes cs) = sum_list (map nodes (take i cs)) + nodes (cs ! i)
      + sum_list (map nodes (drop (Suc i) cs))"
    using assms(2) by (subst split_at [of i cs]) (simp_all del: append_take_drop_id)
  then show ?thesis by (simp add: inner_insert_shape [OF assms])
qed

lemma wf_child_upd:
  assumes "wf_node c (Inner w ks cs)" and "i < length cs" and "wf_node c n" and "keyset n \<noteq> {}"
    and "aligned ks (map keyset (cs[i := n]))"
  shows "wf_node c (Inner w ks (cs[i := n]))"
  using assms set_update_subset_insert [of cs i n] by auto

lemma nodes_inner_split:
  assumes "inner_split w' ks cs = (l, s, r)" and "length cs = Suc (length ks)" and "2 \<le> length ks"
  shows "nodes (unlock_node l) + nodes r = Suc (nodes (Inner w ks cs))"
proof -
  define q where "q = length ks div 2"
  have "length ks - (length ks - length ks div 2) - 1 + 1 = q" using assms(3) by (auto simp: q_def)
  then have "l = Inner w' (take (q - 1) ks) (take q cs)"
    "\<exists>ks'. r = Inner lock_init ks' (drop q cs)"
    using assms by (auto simp: inner_split_def Let_def q_def)
  moreover have "sum_list (map nodes cs) = sum_list (map nodes (take q cs)) + sum_list (map nodes (drop q cs))"
    by (metis append_take_drop_id map_append sum_list_append)
  ultimately show ?thesis by auto
qed

lemma insert_pass_descend:
  assumes "wf_node c (Inner w ks cs)" and "length ks \<noteq> inner_maxEntries c - 1"
    and "inner_lowerBound junk ks k = i" and "i < length cs"
  shows "insert_pass c junk a' k v (Inner w ks cs) = (case insert_pass c junk a' k v (cs ! i) of
        Restart \<Rightarrow> Restart
      | Again n \<Rightarrow> Again (Inner w ks (cs[i := n]))
      | SplitUp l s r \<Rightarrow> Again (unlock_node (inner_insert junk s r (w + 2) ks (cs[i := l])))
      | Done n b \<Rightarrow> Done (Inner w ks (cs[i := n])) b
      | Wild \<Rightarrow> Wild)"
  using assms
  by (simp add: readLockOrRestart_def upgradeToWriteLockOrRestart_def inner_isFull_def split: pass.split)

lemma insert_pass_ok:
  assumes "wf_node c n" and "cfg_ok c"
  shows "pass_ok c k v n (insert_pass c junk a' k v n)"
  using assms(1)
proof (induction n)
  case (Leaf w a d nx)
  then show ?case using assms(2) by (rule leaf_pass_ok)
next
  case (Inner w ks cs)
  have al: "aligned ks (map keyset cs)" and ks: "ks \<noteq> []" using Inner.prems by auto
  show ?case
  proof (cases "length ks = inner_maxEntries c - 1")
    case True
    obtain l s r where sp: "inner_split (w + 2) ks cs = (l, s, r)" by (metis prod_cases3)
    have "length cs = Suc (length ks)" "2 \<le> length ks"
      using aligned_length [OF al] True assms(2) by (auto simp: cfg_ok_def)
    from nodes_inner_split [OF sp this]
    have "nodes (unlock_node l) + nodes r = Suc (nodes (Inner w ks cs))" .
    with inner_split_ok [OF Inner.prems True assms(2) sp] Inner.prems True sp show ?thesis
      by (simp add: pass_ok_def readLockOrRestart_def upgradeToWriteLockOrRestart_def inner_isFull_def)
  next
    case False
    define i where "i = rank_less k ks"
    have i: "i < length cs" using child_neighbours [OF al i_def] by simp
    have lb: "inner_lowerBound junk ks k = i"
      using ks aligned_sorted [OF al] by (simp add: inner_lowerBound_rank i_def)
    have len: "length ks < inner_maxEntries c - 1" using Inner.prems False by simp
    have ch: "cs ! i \<in> set cs" using i by simp
    then have IH: "pass_ok c k v (cs ! i) (insert_pass c junk a' k v (cs ! i))"
      using Inner by simp
    note unf = insert_pass_descend [OF Inner.prems False lb i, of a' v]
    show ?thesis
    proof (cases "insert_pass c junk a' k v (cs ! i)")
      case (Again n)
      with IH have n: "wf_node c n" "inorder n = inorder (cs ! i)" "nodes n = Suc (nodes (cs ! i))"
        by (auto simp: pass_ok_def)
      then have ks: "keyset n = keyset (cs ! i)" by (simp add: keyset_def)
      then have "map keyset (cs[i := n]) = map keyset cs"
        using i by (simp add: map_update) (metis length_map list_update_id nth_map)
      then have "wf_node c (Inner w ks (cs[i := n]))"
        using wf_child_upd [OF Inner.prems i n(1)] Inner.prems ch ks al by simp
      then show ?thesis
        using n i sum_nodes_upd [OF i, of n] by (simp del: insert_pass.simps add: unf Again pass_ok_def inorder_upd inorder_at)
    next
      case (SplitUp l s r)
      with IH have sp: "split_ok c (cs ! i) l s r" "nodes l + nodes r = Suc (nodes (cs ! i))"
        by (auto simp: pass_ok_def)
      then show ?thesis
        using inner_insert_ok [OF Inner.prems i len sp(1), of junk]
          nodes_inner_insert [OF Inner.prems i sp(1), of junk "w + 2"]
        by (simp del: insert_pass.simps add: unf SplitUp pass_ok_def)
    next
      case (Done n b)
      with IH have n: "wf_node c n" "inorder n = kv_insert k v (inorder (cs ! i))" "b = (k \<notin> keyset (cs ! i))"
        by (auto simp: pass_ok_def)
      then have ks: "keyset n = insert k (keyset (cs ! i))" by (simp add: keyset_def kv_insert_keys)
      have "aligned ks (map keyset (cs[i := n]))"
        using aligned_insert [OF al, of k] i by (simp add: i_def [symmetric] map_update ks)
      then have wf: "wf_node c (Inner w ks (cs[i := n]))"
        using wf_child_upd [OF Inner.prems i n(1)] ks by simp
      have "inorder (Inner w ks (cs[i := n])) = kv_insert k v (inorder (Inner w ks cs))"
        using kv_insert_middle [OF child_neighbours(2,3) [OF al i_def], of v "inorder (cs ! i)"] n(2)
        by (simp only: inorder.simps inorder_upd [OF i] inorder_at [OF i])
      moreover have "k \<in> keyset (Inner w ks cs) \<longleftrightarrow> k \<in> keyset (cs ! i)"
      proof -
        have "k \<notin> fst ` set (concat (map inorder (take i cs)))"
          "k \<notin> fst ` set (concat (map inorder (drop (Suc i) cs)))"
          using child_neighbours(2,3) [OF al i_def] by (metis imageE less_irrefl)+
        then show ?thesis by (simp add: keyset_def inorder_at [OF i] image_Un del: set_concat)
      qed
      ultimately show ?thesis using wf n by (simp del: insert_pass.simps add: unf Done pass_ok_def)
    qed (use IH in \<open>auto simp: pass_ok_def\<close>)
  qed
qed

section \<open>The tree operations\<close>

definition bt_inv :: "btcfg \<Rightarrow> ('k::linorder, 'v) btree \<Rightarrow> bool" where
  "bt_inv c t \<longleftrightarrow> cfg_ok c \<and> wf_node c (root t)"

definition bt_map :: "('k, 'v) btree \<Rightarrow> 'k \<rightharpoonup> 'v" where
  "bt_map t = map_of (inorder (root t))"

text \<open>In a well-formed tree there are fewer than two nodes per entry, so the splits of an insert
  stop.\<close>

lemma nodes_bound: "wf_node c n \<Longrightarrow> keyset n \<noteq> {} \<Longrightarrow> Suc (nodes n) \<le> 2 * length (inorder n)"
proof (induction n)
  case (Leaf w a d nx)
  then show ?case by (cases d) auto
next
  case (Inner w ks cs)
  have "sum_list (map nodes ns) + length ns \<le> 2 * length (concat (map inorder ns))"
    if "set ns \<subseteq> set cs" for ns
    using that
  proof (induction ns)
    case (Cons n ns)
    then have "Suc (nodes n) \<le> 2 * length (inorder n)" using Inner by auto
    with Cons show ?case by auto
  qed simp
  from this [of cs] have "sum_list (map nodes cs) + length cs \<le> 2 * length (concat (map inorder cs))"
    by simp
  moreover have "2 \<le> length cs"
    using Inner.prems(1) aligned_length [of ks "map keyset cs"] by (cases ks) auto
  ultimately show ?case by simp
qed

lemma nodes_leaf_root: "wf_node c n \<Longrightarrow> nodes n \<le> 2 * length (inorder n) + 1"
proof (cases "keyset n = {}")
  case True
  assume "wf_node c n"
  with True have "\<exists>w a d nx. n = Leaf w a d nx"
    by (cases n) (auto simp: neq_Nil_conv dest!: aligned_length)
  then show ?thesis by auto
next
  case False
  assume "wf_node c n"
  with False nodes_bound [of c n] show ?thesis by simp
qed

lemma makeRoot_wf:
  assumes "split_ok c n l s r" and "cfg_ok c"
  shows "wf_node c (root (makeRoot s l r t))"
    and "inorder (root (makeRoot s l r t)) = inorder n"
    and "nodes (root (makeRoot s l r t)) = Suc (nodes l + nodes r)"
  using assms free_word_init by (auto simp: split_ok_def makeRoot_def cfg_ok_def)

text \<open>An induction over the passes of one insert.\<close>

lemma bt_insert_passes:
  assumes "bt_insert c junk fuel k v t = Some (t', b)" and "bt_inv c t" and "P t"
    and again: "\<And>t r. bt_inv c t \<Longrightarrow> P t \<Longrightarrow> inorder r = inorder (root t)
      \<Longrightarrow> insert_pass c junk (fresh t) k v (root t) = Again r \<Longrightarrow> P (t\<lparr>root := r, fresh := fresh t + 1\<rparr>)"
    and split: "\<And>t l s r. bt_inv c t \<Longrightarrow> P t \<Longrightarrow> split_ok c (root t) l s r
      \<Longrightarrow> insert_pass c junk (fresh t) k v (root t) = SplitUp l s r
      \<Longrightarrow> P (makeRoot s l r (t\<lparr>fresh := fresh t + 1\<rparr>))"
    and finish: "\<And>t r b. bt_inv c t \<Longrightarrow> P t
      \<Longrightarrow> insert_pass c junk (fresh t) k v (root t) = Done r b \<Longrightarrow> Q (t\<lparr>root := r\<rparr>)"
  shows "Q t'"
  using assms(1-3)
proof (induction fuel arbitrary: t)
  case (Suc fuel)
  let ?p = "insert_pass c junk (fresh t) k v (root t)"
  have ok: "pass_ok c k v (root t) ?p" and cfg: "cfg_ok c"
    using Suc.prems(2) insert_pass_ok by (auto simp: bt_inv_def)
  show ?case
  proof (cases ?p)
    case (Again r)
    with ok cfg have "bt_inv c (t\<lparr>root := r, fresh := fresh t + 1\<rparr>)" "inorder r = inorder (root t)"
      by (auto simp: pass_ok_def bt_inv_def)
    with Suc.IH [OF _ this(1)] again [OF Suc.prems(2,3) this(2) Again] Suc.prems(1) Again
    show ?thesis by simp
  next
    case (SplitUp l s r)
    with ok have sp: "split_ok c (root t) l s r" by (simp add: pass_ok_def)
    then have "bt_inv c (makeRoot s l r (t\<lparr>fresh := fresh t + 1\<rparr>))"
      using makeRoot_wf [OF _ cfg] cfg by (auto simp: bt_inv_def)
    with Suc.IH [OF _ this] split [OF Suc.prems(2,3) sp SplitUp] Suc.prems(1) SplitUp
    show ?thesis by simp
  qed (use Suc ok in \<open>auto simp: pass_ok_def intro: finish\<close>)
qed simp

lemma bt_insert_correct:
  assumes "bt_inv c t" and "2 * length (inorder (root t)) + 2 \<le> fuel + nodes (root t)"
  shows "\<exists>t'. bt_insert c junk fuel k v t = Some (t', k \<notin> dom (bt_map t)) \<and> bt_inv c t'
    \<and> inorder (root t') = kv_insert k v (inorder (root t))"
  using assms
proof (induction fuel arbitrary: t)
  case 0
  then show ?case using nodes_leaf_root [of c "root t"] by (simp add: bt_inv_def)
next
  case (Suc fuel)
  let ?p = "insert_pass c junk (fresh t) k v (root t)"
  have ok: "pass_ok c k v (root t) ?p" and cfg: "cfg_ok c"
    using Suc.prems(1) insert_pass_ok by (auto simp: bt_inv_def)
  show ?case
  proof (cases ?p)
    case (Again r)
    let ?t = "t\<lparr>root := r, fresh := fresh t + 1\<rparr>"
    have "bt_inv c ?t" "inorder (root ?t) = inorder (root t)" "nodes (root ?t) = Suc (nodes (root t))"
      using ok Again cfg by (auto simp: pass_ok_def bt_inv_def)
    with Suc.IH [of ?t] Suc.prems(2) Again show ?thesis by (simp add: bt_map_def)
  next
    case (SplitUp l s r)
    let ?t = "makeRoot s l r (t\<lparr>fresh := fresh t + 1\<rparr>)"
    have sp: "split_ok c (root t) l s r" "nodes l + nodes r = Suc (nodes (root t))"
      using ok SplitUp by (auto simp: pass_ok_def)
    from makeRoot_wf [OF sp(1) cfg] sp(2)
    have "bt_inv c ?t" "inorder (root ?t) = inorder (root t)"
      "nodes (root ?t) = Suc (Suc (nodes (root t)))"
      using cfg by (auto simp: bt_inv_def)
    with Suc.IH [of ?t] Suc.prems(2) SplitUp show ?thesis by (simp add: bt_map_def)
  next
    case (Done n b)
    with ok cfg show ?thesis
      by (auto simp: pass_ok_def bt_inv_def bt_map_def keyset_def dom_map_of_conv_image_fst)
  qed (use ok in \<open>auto simp: pass_ok_def\<close>)
qed

section \<open>Properties\<close>

text \<open>
  C33: the branch-free search of an inner node and the branching one give the same position, the
  number of keys below the one looked for, on every non-empty array with ascending keys, and no
  read behind the array influences it.
\<close>

theorem lowerBoundBF_agrees:
  assumes "sorted_wrt (<) ks" and "ks \<noteq> []"
  shows "inner_lowerBoundBF junk ks k = inner_lowerBound junk' ks k
    \<and> inner_lowerBound junk' ks k = length (filter (\<lambda>x. x < k) ks)"
proof -
  have "length (takeWhile (\<lambda>x. x < k) ks) = length (filter (\<lambda>x. x < k) ks)"
    using assms(1)
  proof (induction ks)
    case (Cons x ks)
    have "\<forall>y\<in>set ks. \<not> y < k" if "\<not> x < k" using Cons.prems that by auto
    then have "filter (\<lambda>x. x < k) ks = []" if "\<not> x < k" using that by simp
    with Cons show ?case by simp
  qed simp
  with assms show ?thesis
    by (simp add: inner_lowerBoundBF_rank inner_lowerBound_rank rank_less_def)
qed

theorem lowerBoundBF_agrees_witness:
  "inner_lowerBoundBF 0 [2, 5, 9::nat] 6 = inner_lowerBound 1 [2, 5, 9::nat] 6 \<and> inner_lowerBound 1 [2, 5, 9::nat] 6 = 2"
  using lowerBoundBF_agrees [of "[2, 5, 9::nat]" 0 6 1] by simp

end
