(* ===== verification/BTreeOLC_Scan.thy ===== *)
theory BTreeOLC_Scan
  imports BTreeOLC_Correct "HOL-Library.Sublist"
begin

text \<open>
  Lookups, the leaf chain and range scans of the B+-tree, and its balance. A leaf's \<open>next_leaf\<close>
  is null or the address of the next leaf in key order; every operation keeps this, so a scan
  returns a prefix of what the key order prescribes. A split of a leaf that already has a
  successor cuts the chain, so the prefix can be proper.
\<close>

section \<open>The descent\<close>

lemma inorder_leaves: "concat (map data (leaves n)) = inorder n"
proof (induction n)
  case (Inner w ks cs)
  then show ?case by (induction cs) auto
qed simp

lemma leaves_at:
  "i < length cs \<Longrightarrow> concat (map leaves cs) =
     concat (map leaves (take i cs)) @ leaves (cs ! i) @ concat (map leaves (drop (Suc i) cs))"
  by (subst split_at [of i cs]) (simp_all del: append_take_drop_id)

lemma data_concat_leaves: "concat (map data (concat (map leaves cs))) = concat (map inorder cs)"
  by (induction cs) (auto simp: inorder_leaves)

lemma descend_spec:
  assumes "wf_node c n"
  shows "\<exists>ls w a d nx rs. descend junk k n = Some (Leaf w a d nx) \<and> leaves n = ls @ Leaf w a d nx # rs
    \<and> (\<forall>x\<in>set (concat (map data ls)). fst x < k) \<and> (\<forall>x\<in>set (concat (map data rs)). k < fst x)
    \<and> free_word w \<and> skeys d"
  using assms
proof (induction n)
  case (Leaf w a d nx)
  then show ?case by (auto simp: readLockOrRestart_def intro: exI [of _ "[]"])
next
  case (Inner w ks cs)
  have al: "aligned ks (map keyset cs)" and ks: "ks \<noteq> []" using Inner.prems by auto
  define i where "i = rank_less k ks"
  have lb: "inner_lowerBound junk ks k = i"
    using ks aligned_sorted [OF al] by (simp add: inner_lowerBound_rank i_def)
  note nb = child_neighbours [OF al i_def, folded data_concat_leaves]
  from nb(1) have ch: "cs ! i \<in> set cs" by simp
  then have "wf_node c (cs ! i)" using Inner.prems by simp
  from Inner.IH [OF ch this] obtain ls w' a d nx rs where IH: "descend junk k (cs ! i) = Some (Leaf w' a d nx)"
    "leaves (cs ! i) = ls @ Leaf w' a d nx # rs" "\<forall>x\<in>set (concat (map data ls)). fst x < k"
    "\<forall>x\<in>set (concat (map data rs)). k < fst x" "free_word w'" "skeys d"
    by blast
  have "descend junk k (Inner w ks cs) = Some (Leaf w' a d nx)"
    using Inner.prems nb(1) IH(1) lb
    by (simp add: readLockOrRestart_def checkOrRestart_def readUnlockOrRestart_def)
  moreover have "leaves (Inner w ks cs) = (concat (map leaves (take i cs)) @ ls) @ Leaf w' a d nx
      # (rs @ concat (map leaves (drop (Suc i) cs)))"
    using nb(1) IH(2) by (simp add: leaves_at)
  moreover have "\<forall>x\<in>set (concat (map data (concat (map leaves (take i cs)) @ ls))). fst x < k"
    "\<forall>x\<in>set (concat (map data (rs @ concat (map leaves (drop (Suc i) cs))))). k < fst x"
    using nb(2,3) IH(3,4) by (simp_all only: map_append concat_append set_append ball_Un)
  ultimately show ?case using IH(5,6) by metis
qed

lemma leaf_pos_found:
  assumes "skeys d" and pos_def: "pos = leaf_lowerBound junk d k"
  shows "(pos < length d \<and> fst (d ! pos) = k \<longleftrightarrow> k \<in> fst ` set d)
    \<and> (k \<in> fst ` set d \<longrightarrow> map_of d k = Some (snd (d ! pos)))"
proof (cases "d = []")
  case False
  have "pos < length d \<and> fst (d ! pos) = k \<longleftrightarrow> k \<in> fst ` set d"
    using leaf_insert_correct [OF assms(1), of junk k undefined] False
    by (auto simp: leaf_insert_def Let_def pos_def split: if_splits)
  moreover have "map_of d k = Some (snd (d ! pos))" if "pos < length d" "fst (d ! pos) = k"
    using that assms(1) by (subst map_of_skeys_iff) (auto simp: in_set_conv_nth prod_eq_iff)
  ultimately show ?thesis by blast
qed simp

lemma bt_lookup_spec:
  assumes "bt_inv c t"
  shows "bt_lookup junk stale k t =
    Some (case bt_map t k of None \<Rightarrow> (stale, None) | Some v \<Rightarrow> (True, Some v))"
proof -
  from assms have wf: "wf_node c (root t)" by (simp add: bt_inv_def)
  from descend_spec [OF this, of junk k] obtain ls w a d nx rs where
    d: "descend junk k (root t) = Some (Leaf w a d nx)" "leaves (root t) = ls @ Leaf w a d nx # rs"
    "\<forall>x\<in>set (concat (map data ls)). fst x < k" "\<forall>x\<in>set (concat (map data rs)). k < fst x"
    "skeys d" by blast
  have "inorder (root t) = concat (map data ls) @ d @ concat (map data rs)"
    using inorder_leaves [of "root t"] d(2) by simp
  then have "bt_map t k = map_of d k"
    using map_of_None_upper [OF d(3)] map_of_None_lower [OF d(4)]
    by (simp add: bt_map_def map_add_def split: option.split)
  moreover have "map_of d k = None \<longleftrightarrow> k \<notin> fst ` set d" by (simp add: map_of_eq_None_iff)
  ultimately show ?thesis using d(1) leaf_pos_found [OF d(5) refl, of junk k]
    by (auto simp: bt_lookup_def Let_def split: option.split)
qed

section \<open>Balance\<close>

fun at_depth :: "nat \<Rightarrow> ('k, 'v) bnode \<Rightarrow> bool" where
  "at_depth h (Leaf w a d nx) \<longleftrightarrow> h = 0"
| "at_depth h (Inner w ks cs) \<longleftrightarrow> (case h of 0 \<Rightarrow> False | Suc h' \<Rightarrow> \<forall>n\<in>set cs. at_depth h' n)"

lemma at_depth_unlock [simp]: "at_depth h (unlock_node n) = at_depth h n"
  by (cases n) auto

lemma set_inner_insert:
  assumes "wf_node c (Inner w ks cs)" and "i < length cs"
  shows "\<exists>ks' cs'. inner_insert junk s r w' ks (cs[i := l]) = Inner w' ks' cs'
    \<and> set cs' \<subseteq> insert r (insert l (set cs))"
proof -
  define pos where "pos = inner_lowerBound junk ks s"
  have pos: "pos < length cs"
    using assms(1) aligned_length [of ks "map keyset cs"] rank_less_le_length [of s ks]
      inner_lowerBound_rank [OF aligned_sorted, of ks "map keyset cs" junk s]
    by (simp add: pos_def)
  let ?cs = "cs[i := l]"
  have "swap_at pos (take pos ?cs @ r # drop pos ?cs) = take pos ?cs @ ?cs ! pos # r # drop (Suc pos) ?cs"
    using pos by (simp add: swap_at_insert)
  moreover have "set (take pos ?cs @ ?cs ! pos # r # drop (Suc pos) ?cs) \<subseteq> insert r (set ?cs)"
    using pos by (auto dest: in_set_takeD in_set_dropD)
  ultimately show ?thesis
    using set_update_subset_insert [of cs i l] by (auto simp: inner_insert_def pos_def Let_def)
qed

definition pass_depth :: "nat \<Rightarrow> ('k, 'v) pass \<Rightarrow> bool" where
  "pass_depth h p = (case p of
      Again n \<Rightarrow> at_depth h n
    | SplitUp l s r \<Rightarrow> at_depth h l \<and> at_depth h r
    | Done n b \<Rightarrow> at_depth h n
    | _ \<Rightarrow> True)"

lemma insert_pass_depth:
  "wf_node c n \<Longrightarrow> at_depth h n \<Longrightarrow> pass_depth h (insert_pass c junk a' k v n)"
proof (induction n arbitrary: h)
  case (Leaf w a d nx)
  then show ?case
    by (auto simp: pass_depth_def leaf_split_def Let_def split: prod.split)
next
  case (Inner w ks cs)
  then obtain h' where h: "h = Suc h'" "\<forall>n\<in>set cs. at_depth h' n" by (auto split: nat.splits)
  define i where "i = inner_lowerBound junk ks k"
  have upd: "at_depth h (Inner w ks (cs[i := n]))" if "at_depth h' n" for n w ks
    using h that set_update_subset_insert [of cs i n] by auto
  have IH: "i < length cs \<Longrightarrow> pass_depth h' (insert_pass c junk a' k v (cs ! i))"
    using Inner h by simp
  have ins: "at_depth h (inner_insert junk s r w' ks (cs[i := l]))"
    if "i < length cs" "at_depth h' l" "at_depth h' r" for s r w' l
    using set_inner_insert [OF Inner.prems(1) that(1), of junk s r w' l] h that by fastforce
  have spl: "pass_depth h (SplitUp (unlock_node l) s r)" if "inner_split w' ks cs = (l, s, r)" for w' l s r
    using that h by (auto simp: inner_split_def Let_def pass_depth_def dest!: in_set_takeD in_set_dropD)
  show ?case
    using upd ins IH spl
    by (auto simp: i_def [symmetric] Let_def readLockOrRestart_def upgradeToWriteLockOrRestart_def
        split: pass.split prod.split) (auto simp: pass_depth_def)
qed

section \<open>The leaf chain\<close>

definition chain :: "('k, 'v) bnode \<Rightarrow> (nat \<times> nat option) list" where
  "chain n = map (\<lambda>l. (laddr l, next_leaf l)) (leaves n)"

fun linked :: "(nat \<times> nat option) list \<Rightarrow> bool" where
  "linked [] = True"
| "linked [x] = (snd x = None)"
| "linked (x # y # ys) = ((snd x = None \<or> snd x = Some (fst y)) \<and> linked (y # ys))"

fun unbroken :: "(nat \<times> nat option) list \<Rightarrow> bool" where
  "unbroken [] = True"
| "unbroken [x] = (snd x = None)"
| "unbroken (x # y # ys) = (snd x = Some (fst y) \<and> unbroken (y # ys))"

lemma unbroken_linked: "unbroken xs \<Longrightarrow> linked xs"
  by (induction xs rule: unbroken.induct) auto

definition bt_chain :: "('k, 'v) btree \<Rightarrow> bool" where
  "bt_chain t \<longleftrightarrow> linked (chain (root t)) \<and> distinct (map fst (chain (root t)))
     \<and> (\<forall>p\<in>set (chain (root t)). fst p < fresh t)"

text \<open>
  What a pass does to the chain: nothing, or the leaf \<open>a\<close> is followed by a new leaf without a
  successor; if \<open>b\<close>, then \<open>a\<close> is the last leaf.
\<close>

definition chain_step :: "nat \<Rightarrow> bool \<Rightarrow> (nat \<times> nat option) list \<Rightarrow> (nat \<times> nat option) list \<Rightarrow> bool" where
  "chain_step a' b xs ys \<longleftrightarrow> ys = xs \<or>
     (\<exists>us a nx vs. xs = us @ (a, nx) # vs \<and> ys = us @ (a, Some a') # (a', None) # vs \<and> (b \<longrightarrow> vs = []))"

lemma chain_step_refl [simp]: "chain_step a' b xs xs"
  by (simp add: chain_step_def)

lemma chain_step_context:
  assumes "chain_step a' b' xs ys" and "b \<longrightarrow> b' \<and> vs = []"
  shows "chain_step a' b (us @ xs @ vs) (us @ ys @ vs)"
proof (cases "ys = xs")
  case False
  then obtain us' a nx vs' where "xs = us' @ (a, nx) # vs'" "ys = us' @ (a, Some a') # (a', None) # vs'"
    "b' \<longrightarrow> vs' = []" using assms(1) by (auto simp: chain_step_def)
  then show ?thesis using assms(2) unfolding chain_step_def
    by (intro disjI2 exI [of _ "us @ us'"] exI [of _ a] exI [of _ nx] exI [of _ "vs' @ vs"]) simp
qed simp

lemma linked_append: "linked (us @ x # vs) \<longleftrightarrow> linked (us @ [(fst x, None)]) \<and> linked (x # vs)"
  by (induction us rule: linked.induct) auto

lemma unbroken_append: "unbroken (us @ x # vs) \<longleftrightarrow> unbroken (us @ [(fst x, None)]) \<and> unbroken (x # vs)"
  by (induction us rule: unbroken.induct) auto

lemma chain_step_linked:
  assumes "chain_step a' b xs ys" and "linked xs"
  shows "linked ys"
proof -
  have "linked (us @ (a, Some a') # (a', None) # vs)" if "linked (us @ (a, nx) # vs)" for us a nx vs
    using that linked_append [of us "(a, nx)" vs] linked_append [of us "(a, Some a')" "(a', None) # vs"]
    by (cases vs) auto
  with assms show ?thesis by (auto simp: chain_step_def)
qed

lemma chain_step_unbroken:
  assumes "chain_step a' True xs ys" and "unbroken xs"
  shows "unbroken ys"
proof -
  have "unbroken (us @ [(a, Some a'), (a', None)])" if "unbroken (us @ [(a, nx)])" for us a nx
    using that unbroken_append [of us "(a, nx)" "[]"]
      unbroken_append [of us "(a, Some a')" "[(a', None)]"] by auto
  with assms show ?thesis by (auto simp: chain_step_def)
qed

lemma chain_step_fresh:
  assumes "chain_step a' b xs ys" and "distinct (map fst xs)" and "\<forall>p\<in>set xs. fst p < a'"
  shows "distinct (map fst ys) \<and> (\<forall>p\<in>set ys. fst p < Suc a')"
proof (cases "ys = xs")
  case False
  then obtain us a nx vs where "xs = us @ (a, nx) # vs" "ys = us @ (a, Some a') # (a', None) # vs"
    using assms(1) by (auto simp: chain_step_def)
  moreover from this have "a' \<notin> fst ` set us" "a' \<notin> fst ` set vs" "a < a'" using assms(3) by auto
  ultimately show ?thesis using assms(2,3) by (auto simp: less_Suc_eq)
qed (use assms in \<open>auto simp: less_Suc_eq\<close>)

lemma chain_Inner: "chain (Inner w ks cs) = concat (map chain cs)"
  by (induction cs) (auto simp: chain_def)

lemma chain_Leaf: "chain (Leaf w a d nx) = [(a, nx)]"
  by (simp add: chain_def)

lemma chain_unlock [simp]: "chain (unlock_node n) = chain n"
  by (cases n) (auto simp: chain_Leaf chain_Inner)

definition pass_chain :: "nat \<Rightarrow> bool \<Rightarrow> ('k, 'v) bnode \<Rightarrow> ('k, 'v) pass \<Rightarrow> bool" where
  "pass_chain a' b n p = (case p of
      Again n' \<Rightarrow> chain_step a' b (chain n) (chain n')
    | SplitUp l s r \<Rightarrow> chain_step a' b (chain n) (chain l @ chain r)
    | Done n' ret \<Rightarrow> chain n' = chain n
    | _ \<Rightarrow> True)"

lemma concat_map_at:
  "i < length cs \<Longrightarrow> concat (map f cs) =
     concat (map f (take i cs)) @ f (cs ! i) @ concat (map f (drop (Suc i) cs))"
  by (subst split_at [of i cs]) (simp_all del: append_take_drop_id)

lemma chain_inner_split:
  assumes "inner_split w' ks cs = (l, s, r)" and "length cs = Suc (length ks)" and "2 \<le> length ks"
  shows "chain l @ chain r = chain (Inner w ks cs)"
proof -
  define q where "q = length ks div 2"
  have "length ks - (length ks - length ks div 2) - 1 + 1 = q" using assms(3) by (auto simp: q_def)
  then have "l = Inner w' (take (q - 1) ks) (take q cs)"
    "\<exists>ks'. r = Inner lock_init ks' (drop q cs)"
    using assms by (auto simp: inner_split_def Let_def q_def)
  moreover have "concat (map chain (take q cs)) @ concat (map chain (drop q cs)) = concat (map chain cs)"
    by (metis append_take_drop_id concat_append map_append)
  ultimately show ?thesis by (auto simp: chain_Inner)
qed

text \<open>A key above all keys of a node belongs to its last child.\<close>

lemma last_child:
  assumes "wf_node c (Inner w ks cs)" and "\<forall>x\<in>keyset (Inner w ks cs). x < k" and "i = rank_less k ks"
  shows "drop (Suc i) cs = [] \<and> (\<forall>x\<in>keyset (cs ! i). x < k)"
proof -
  have al: "aligned ks (map keyset cs)" and ne: "\<forall>n\<in>set cs. keyset n \<noteq> {}" using assms(1) by auto
  note nb = child_neighbours [OF al assms(3)]
  have below: "x < k" if "n \<in> set cs" "x \<in> keyset n" for n x
    using assms(2) that by (auto simp: keyset_def)
  have "drop (Suc i) cs = []"
  proof (rule ccontr)
    assume "drop (Suc i) cs \<noteq> []"
    then obtain n where n: "n \<in> set (drop (Suc i) cs)" by (meson last_in_set)
    then have "n \<in> set cs" by (rule in_set_dropD)
    with ne obtain x where x: "x \<in> keyset n" by blast
    with n nb(3) have "k < x" by (auto simp: keyset_def)
    with below [OF \<open>n \<in> set cs\<close> x] show False by simp
  qed
  moreover have "cs ! i \<in> set cs" using nb(1) by simp
  ultimately show ?thesis using below by blast
qed

lemma insert_pass_chain:
  assumes "wf_node c n" and "cfg_ok c"
  shows "pass_chain a' (\<forall>x\<in>keyset n. x < k) n (insert_pass c junk a' k v n)"
  using assms(1)
proof (induction n)
  case (Leaf w a d nx)
  have "chain_step a' b [(a, nx)] [(a, Some a'), (a', None)]" for b
    unfolding chain_step_def by (metis append_Nil)
  then show ?case
    by (auto simp: pass_chain_def leaf_split_def Let_def chain_Leaf split: prod.split)
next
  case (Inner w ks cs)
  have al: "aligned ks (map keyset cs)" and ks: "ks \<noteq> []" using Inner.prems by auto
  define i where "i = rank_less k ks"
  have i: "i < length cs" using child_neighbours [OF al i_def] by simp
  have lb: "inner_lowerBound junk ks k = i"
    using ks aligned_sorted [OF al] by (simp add: inner_lowerBound_rank i_def)
  let ?b = "\<forall>x\<in>keyset (Inner w ks cs). x < k" and ?b' = "\<forall>x\<in>keyset (cs ! i). x < k"
  let ?pre = "concat (map chain (take i cs))" and ?post = "concat (map chain (drop (Suc i) cs))"
  have at: "chain (Inner w ks cs) = ?pre @ chain (cs ! i) @ ?post"
    using i by (simp add: chain_Inner concat_map_at)
  have upd: "chain (Inner w ks (cs[i := n])) = ?pre @ chain n @ ?post" for n w ks
    using i by (simp add: chain_Inner upd_conv_take_nth_drop)
  have IH: "pass_chain a' ?b' (cs ! i) (insert_pass c junk a' k v (cs ! i))" using Inner i by simp
  have "?b \<longrightarrow> ?b' \<and> ?post = []" using last_child [OF Inner.prems _ i_def] by simp
  from chain_step_context [OF _ this]
  have ctx: "chain_step a' ?b' xs ys \<Longrightarrow> chain_step a' ?b (?pre @ xs @ ?post) (?pre @ ys @ ?post)" for xs ys .
  have ok: "pass_ok c k v (cs ! i) (insert_pass c junk a' k v (cs ! i))"
    using Inner.prems i assms(2) by (intro insert_pass_ok) auto
  have ins: "chain (inner_insert junk s r w' ks (cs[i := l])) = ?pre @ (chain l @ chain r) @ ?post"
    if "split_ok c (cs ! i) l s r" for s r w' l
    using inner_insert_shape [OF Inner.prems i that] i by (simp add: chain_Inner)
  show ?case
  proof (cases "length ks = inner_maxEntries c - 1")
    case True
    then have "2 \<le> length ks" using assms(2) by (auto simp: cfg_ok_def)
    moreover obtain l s r where sp: "inner_split (w + 2) ks cs = (l, s, r)" by (metis prod_cases3)
    ultimately have "chain l @ chain r = chain (Inner w ks cs)"
      using chain_inner_split [OF sp] aligned_length [OF al] by simp
    with True Inner.prems sp show ?thesis
      by (simp add: readLockOrRestart_def upgradeToWriteLockOrRestart_def pass_chain_def inner_isFull_def)
  next
    case False
    note unf = insert_pass_descend [OF Inner.prems False lb i, of a' v]
    show ?thesis
    proof (cases "insert_pass c junk a' k v (cs ! i)")
      case (SplitUp l s r)
      with ok have "split_ok c (cs ! i) l s r" by (simp add: pass_ok_def)
      with IH SplitUp ctx [of "chain (cs ! i)" "chain l @ chain r"]
      show ?thesis by (simp only: unf pass_chain_def pass.case chain_unlock at ins)
    next
      case (Again n)
      with IH ctx [of "chain (cs ! i)" "chain n"]
      show ?thesis by (simp only: unf pass_chain_def pass.case at upd)
    qed (use IH in \<open>auto simp del: insert_pass.simps simp add: unf pass_chain_def at upd\<close>)
  qed
qed

lemma chain_makeRoot: "chain (root (makeRoot s l r t)) = chain l @ chain r"
  by (simp add: makeRoot_def chain_Inner)

lemma bt_chain_step:
  assumes "chain_step (fresh t) b (chain (root t)) (chain r)" and "bt_chain t"
    and "root t' = r" and "fresh t' = Suc (fresh t)"
  shows "bt_chain t'"
  using assms chain_step_linked [OF assms(1)] chain_step_fresh [OF assms(1)] by (simp add: bt_chain_def)

lemma bt_insert_chain:
  assumes "bt_insert c junk fuel k v t = Some (t', ret)" and "bt_inv c t" and "bt_chain t"
  shows "bt_chain t'"
  using assms
proof (rule bt_insert_passes)
  fix t :: "('a, 'b) btree" and r
  assume t: "bt_inv c t" "bt_chain t" "insert_pass c junk (fresh t) k v (root t) = Again r"
  from insert_pass_chain [of c "root t" "fresh t" k junk v] t
  show "bt_chain (t\<lparr>root := r, fresh := fresh t + 1\<rparr>)"
    by (auto simp: bt_inv_def pass_chain_def intro: bt_chain_step)
next
  fix t :: "('a, 'b) btree" and l s r
  assume t: "bt_inv c t" "bt_chain t" "insert_pass c junk (fresh t) k v (root t) = SplitUp l s r"
  let ?t = "makeRoot s l r (t\<lparr>fresh := fresh t + 1\<rparr>)"
  from insert_pass_chain [of c "root t" "fresh t" k junk v] t
  have "chain_step (fresh t) (\<forall>x\<in>keyset (root t). x < k) (chain (root t)) (chain (root ?t))"
    by (simp add: bt_inv_def pass_chain_def chain_makeRoot)
  from bt_chain_step [OF this t(2)] show "bt_chain ?t" by (simp add: makeRoot_def)
next
  fix t :: "('a, 'b) btree" and r b
  assume t: "bt_inv c t" "bt_chain t" "insert_pass c junk (fresh t) k v (root t) = Done r b"
  from insert_pass_chain [of c "root t" "fresh t" k junk v] t show "bt_chain (t\<lparr>root := r\<rparr>)"
    by (auto simp: bt_inv_def pass_chain_def bt_chain_def)
qed

text \<open>Inserts of ascending keys, such as a bulk load of sorted pairs, never cut the chain.\<close>

lemma bt_insert_unbroken:
  assumes "bt_insert c junk fuel k v t = Some (t', ret)" and "bt_inv c t"
    and "unbroken (chain (root t))" and "\<forall>x\<in>keyset (root t). x < k"
  shows "unbroken (chain (root t'))"
proof -
  define P where "P t \<longleftrightarrow> unbroken (chain (root t)) \<and> (\<forall>x\<in>keyset (root t). x < k)" for t :: "('a, 'b) btree"
  note pc = insert_pass_chain [of c "root t" "fresh t" k junk v for t, unfolded pass_chain_def]
  from assms(1,2) show ?thesis
  proof (rule bt_insert_passes [where P = P and Q = "\<lambda>t. unbroken (chain (root t))"])
    show "P t" using assms by (simp add: P_def)
  next
    fix t :: "('a, 'b) btree" and r
    assume t: "bt_inv c t" "P t" "inorder r = inorder (root t)"
      "insert_pass c junk (fresh t) k v (root t) = Again r"
    from pc [of t] t have "chain_step (fresh t) True (chain (root t)) (chain r)"
      by (simp add: bt_inv_def P_def)
    with t show "P (t\<lparr>root := r, fresh := fresh t + 1\<rparr>)"
      by (simp add: P_def keyset_def chain_step_unbroken)
  next
    fix t :: "('a, 'b) btree" and l s r
    assume t: "bt_inv c t" "P t" "split_ok c (root t) l s r"
      "insert_pass c junk (fresh t) k v (root t) = SplitUp l s r"
    from pc [of t] t have "chain_step (fresh t) True (chain (root t)) (chain l @ chain r)"
      by (simp add: bt_inv_def P_def)
    moreover have "inorder (root t) = inorder l @ inorder r" using t(3) by (simp add: split_ok_def)
    ultimately show "P (makeRoot s l r (t\<lparr>fresh := fresh t + 1\<rparr>))"
      using t(2) by (simp add: P_def keyset_def chain_makeRoot chain_step_unbroken)
        (auto simp: makeRoot_def)
  next
    fix t :: "('a, 'b) btree" and r b
    assume t: "bt_inv c t" "P t" "insert_pass c junk (fresh t) k v (root t) = Done r b"
    from pc [of t] t show "unbroken (chain (root (t\<lparr>root := r\<rparr>)))" by (simp add: bt_inv_def P_def)
  qed
qed

lemma bt_insert_depth:
  assumes "bt_insert c junk fuel k v t = Some (t', ret)" and "bt_inv c t" and "\<exists>h. at_depth h (root t)"
  shows "\<exists>h. at_depth h (root t')"
  using assms
proof (rule bt_insert_passes)
  fix t :: "('a, 'b) btree" and r
  assume t: "bt_inv c t" "\<exists>h. at_depth h (root t)" "insert_pass c junk (fresh t) k v (root t) = Again r"
  then obtain h where h: "at_depth h (root t)" by blast
  from insert_pass_depth [OF _ h, of c junk "fresh t" k v] t
  show "\<exists>h. at_depth h (root (t\<lparr>root := r, fresh := fresh t + 1\<rparr>))"
    by (auto simp: bt_inv_def pass_depth_def)
next
  fix t :: "('a, 'b) btree" and l s r
  assume t: "bt_inv c t" "\<exists>h. at_depth h (root t)" "insert_pass c junk (fresh t) k v (root t) = SplitUp l s r"
  then obtain h where h: "at_depth h (root t)" by blast
  from insert_pass_depth [OF _ h, of c junk "fresh t" k v] t
  have "at_depth (Suc h) (root (makeRoot s l r (t\<lparr>fresh := fresh t + 1\<rparr>)))"
    by (simp add: bt_inv_def pass_depth_def makeRoot_def)
  then show "\<exists>h. at_depth h (root (makeRoot s l r (t\<lparr>fresh := fresh t + 1\<rparr>)))" ..
next
  fix t :: "('a, 'b) btree" and r b
  assume t: "bt_inv c t" "\<exists>h. at_depth h (root t)" "insert_pass c junk (fresh t) k v (root t) = Done r b"
  then obtain h where h: "at_depth h (root t)" by blast
  from insert_pass_depth [OF _ h, of c junk "fresh t" k v] t
  show "\<exists>h. at_depth h (root (t\<lparr>root := r\<rparr>))" by (auto simp: bt_inv_def pass_depth_def)
qed

section \<open>Scans\<close>

fun run :: "('k, 'v) bnode list \<Rightarrow> ('k, 'v) bnode list" where
  "run [] = []"
| "run (l # ls) = l # (if next_leaf l = None then [] else run ls)"

lemma run_unbroken:
  "unbroken (map (\<lambda>l. (laddr l, next_leaf l)) ls) \<Longrightarrow> run ls = ls"
proof (induction ls rule: run.induct)
  case (2 l ls)
  then show ?case by (cases ls) auto
qed simp

lemma prefix_run: "prefix (run ls) ls"
  by (induction ls rule: run.induct) auto

lemma copy_out_take: "int (length acc) \<le> rng \<Longrightarrow> copy_out rng acc xs = take (nat rng) (acc @ xs)"
proof (induction xs arbitrary: acc)
  case (Cons x xs)
  then show ?case
    by (cases "int (length acc) = rng") (auto simp: take_Cons' Suc_diff_Suc nat_less_iff)
qed auto

lemma find_distinct:
  "distinct (map f xs) \<Longrightarrow> x \<in> set xs \<Longrightarrow> find (\<lambda>l. f l = f x) xs = Some x"
  by (induction xs) auto

text \<open>The entry a scan starts with, in a leaf without smaller keys and in the leaf of \<open>k\<close>.\<close>

lemma drop_lowerBound:
  assumes "skeys d"
  shows "drop (leaf_lowerBound junk d k) d = filter (\<lambda>x. k \<le> fst x) d"
proof (cases "d = []")
  case False
  have "filter (\<lambda>x. k \<le> fst x) d = dropWhile (\<lambda>x. fst x < k) d"
    using assms
  proof (induction d)
    case (Cons x d)
    show ?case
    proof (cases "fst x < k")
      case False
      then have "\<forall>y\<in>set d. k \<le> fst y" using Cons.prems by fastforce
      with False show ?thesis by simp
    qed (use Cons in simp)
  qed simp
  with False assms show ?thesis by (simp add: leaf_lowerBound_rank dropWhile_drop_rank)
qed simp

lemma take_take_append: "take n (take n xs @ ys) = take n (xs @ ys)"
  by (simp add: min_def)

lemma scan_step:
  assumes "free_word (ver l)" and "skeys (data l)" and "int (length acc) < rng"
    and "acc \<noteq> [] \<Longrightarrow> \<forall>y\<in>set (data l). k < fst y"
  shows "scan_loop junk r k rng (Suc f) (Some l) acc =
    scan_loop junk r k rng f (deref r (next_leaf l)) (take (nat rng) (acc @ filter (\<lambda>x. k \<le> fst x) (data l)))"
proof -
  have "drop (if length acc = 0 then leaf_lowerBound junk (data l) k else 0) (data l)
      = filter (\<lambda>x. k \<le> fst x) (data l)"
    using assms(2,4) drop_lowerBound [of "data l" junk k]
    by (auto intro!: filter_True [symmetric] simp: less_imp_le)
  with assms(1,3) show ?thesis by (simp add: readLockOrRestart_def copy_out_take)
qed

lemma scan_loop_run:
  assumes "linked (map (\<lambda>l. (laddr l, next_leaf l)) (l # ls))" and "\<forall>x\<in>set (l # ls). x \<in> set (leaves r)"
    and "distinct (map laddr (leaves r))" and "\<forall>x\<in>set (l # ls). free_word (ver x) \<and> skeys (data x)"
    and "\<forall>x\<in>set ls. \<forall>y\<in>set (data x). k < fst y"
    and "acc \<noteq> [] \<Longrightarrow> \<forall>y\<in>set (data l). k < fst y"
    and "length ls + 2 \<le> fuel" and "int (length acc) \<le> rng \<or> acc = []"
  shows "scan_loop junk r k rng fuel (Some l) acc =
    Some (take (nat rng) (acc @ filter (\<lambda>x. k \<le> fst x) (concat (map data (run (l # ls))))))"
  using assms
proof (induction ls arbitrary: l acc fuel)
  case Nil
  have "2 \<le> fuel" using Nil.prems(7) by simp
  then obtain f where f: "fuel = Suc (Suc f)" by (metis add_2_eq_Suc le_Suc_ex)
  have "next_leaf l = None" using Nil.prems(1) by simp
  with Nil.prems(4,6,8) scan_step [of l acc rng k junk r "Suc f"] show ?case
    by (cases "int (length acc) < rng") (auto simp: f deref_def)
next
  case (Cons l' ls)
  then obtain f where f: "fuel = Suc f" "length ls + 2 \<le> f" by (cases fuel) auto
  let ?acc = "take (nat rng) (acc @ filter (\<lambda>x. k \<le> fst x) (data l))"
  have step: "int (length acc) < rng \<Longrightarrow> scan_loop junk r k rng fuel (Some l) acc
      = scan_loop junk r k rng f (deref r (next_leaf l)) ?acc"
    using Cons.prems f scan_step [of l acc rng k junk r f] by simp
  show ?case
  proof (cases "int (length acc) < rng")
    case True
    show ?thesis
    proof (cases "next_leaf l")
      case None
      with step [OF True] f show ?thesis by (cases f) (auto simp: deref_def)
    next
      case (Some a)
      with Cons.prems(1-3) have "deref r (next_leaf l) = Some l'"
        using find_distinct [of laddr "leaves r" l'] by (simp add: deref_def)
      moreover have "scan_loop junk r k rng f (Some l') ?acc = Some (take (nat rng)
          (?acc @ filter (\<lambda>x. k \<le> fst x) (concat (map data (run (l' # ls))))))"
        using Cons.prems f True by (intro Cons.IH) auto
      ultimately show ?thesis using step [OF True] Some by (simp only: take_take_append) simp
    qed
  next
    case False
    with Cons.prems(8) f show ?thesis by auto
  qed
qed

lemma leaves_wf:
  "wf_node c n \<Longrightarrow> l \<in> set (leaves n) \<Longrightarrow> free_word (ver l) \<and> skeys (data l)"
  by (induction n) auto

lemma bt_scan_correct:
  assumes inv: "bt_inv c t" and ch: "bt_chain t" and fuel: "length (leaves (root t)) < fuel"
  shows "\<exists>out. bt_scan junk fuel k rng t = Some out
    \<and> prefix out (take (nat rng) (filter (\<lambda>x. k \<le> fst x) (inorder (root t))))
    \<and> (unbroken (chain (root t)) \<longrightarrow> out = take (nat rng) (filter (\<lambda>x. k \<le> fst x) (inorder (root t))))"
proof -
  from inv have wf: "wf_node c (root t)" by (simp add: bt_inv_def)
  from descend_spec [OF wf, of junk k] obtain ls w a d nx rs where
    d: "descend junk k (root t) = Some (Leaf w a d nx)" "leaves (root t) = ls @ Leaf w a d nx # rs"
    "\<forall>x\<in>set (concat (map data ls)). fst x < k" "\<forall>x\<in>set (concat (map data rs)). k < fst x" by blast
  let ?l = "Leaf w a d nx"
  let ?f = "\<lambda>l. (laddr l, next_leaf l)" and ?P = "\<lambda>x. k \<le> fst x"
  have lk: "linked (map ?f (?l # rs))" "distinct (map laddr (leaves (root t)))"
    using ch linked_append [of "map ?f ls" "?f ?l" "map ?f rs"] by (simp_all add: bt_chain_def chain_def d(2) comp_def)
  have "bt_scan junk fuel k rng t = scan_loop junk (root t) k rng fuel (Some ?l) []"
    by (simp add: bt_scan_def d(1))
  also have "\<dots> = Some (take (nat rng) ([] @ filter ?P (concat (map data (run (?l # rs))))))"
  proof (rule scan_loop_run [OF lk(1) _ lk(2)])
    show "\<forall>x\<in>set (?l # rs). free_word (ver x) \<and> skeys (data x)"
      using leaves_wf [OF wf] d(2) by (metis UnCI set_append)
  qed (use d(4) fuel in \<open>auto simp: d(2)\<close>)
  finally have out: "bt_scan junk fuel k rng t = Some (take (nat rng) (filter ?P (concat (map data (run (?l # rs))))))"
    by simp
  have "inorder (root t) = concat (map data ls) @ concat (map data (?l # rs))"
    using inorder_leaves [of "root t"] by (simp add: d(2))
  moreover have "filter ?P (concat (map data ls)) = []" using d(3) by (meson filter_False leD)
  ultimately have all: "filter ?P (inorder (root t)) = filter ?P (concat (map data (?l # rs)))" by simp
  obtain zs where "?l # rs = run (?l # rs) @ zs" using prefix_run [of "?l # rs"] by (metis prefixE)
  then have "filter ?P (concat (map data (?l # rs)))
      = filter ?P (concat (map data (run (?l # rs)))) @ filter ?P (concat (map data zs))"
    by (metis concat_append filter_append map_append)
  then have "prefix (take (nat rng) (filter ?P (concat (map data (run (?l # rs))))))
      (take (nat rng) (filter ?P (inorder (root t))))"
    by (simp only: all take_append prefixI)
  moreover have "run (?l # rs) = ?l # rs" if "unbroken (chain (root t))"
    using that unbroken_append [of "map ?f ls" "?f ?l" "map ?f rs"]
    by (intro run_unbroken) (simp add: chain_def d(2))
  ultimately show ?thesis using out all by auto
qed

lemma btree_new_inv:
  "cfg_ok c \<Longrightarrow> bt_inv c btree_new" "bt_chain btree_new" "at_depth 0 (root btree_new)"
  "unbroken (chain (root btree_new))"
  using free_word_init by (simp_all add: bt_inv_def bt_chain_def btree_new_def chain_Leaf)

end
