(* ===== verification/Benchmark.thy ===== *)
theory Benchmark
  imports Prelude
begin

text \<open>
  The interface every index of the suite implements (\<open>src/src/competitor/indexInterface.h\<close>) as a
  locale, and the benchmark that drives an index through it (\<open>src/src/benchmark/benchmark.h\<close>):
  the operations of a workload and the loop that executes them and counts successes. The virtual
  methods \<open>get\<close>, \<open>put\<close> and \<open>scan\<close> are parameters of the loop, as an index object is in the code;
  a method that would not return gives \<open>None\<close>. Time stamps and latency samples are not modelled,
  and the loop is that of one worker thread.
\<close>

section \<open>The interface\<close>

text \<open>
  The contract of an index that keeps a value once put: every method returns, \<open>get\<close> hits with
  the stored value, \<open>put\<close> tells whether the key was new.
\<close>

locale kv_index =
  fixes inv :: "'s \<Rightarrow> bool"
    and entries :: "'s \<Rightarrow> ('k::linorder, 'v) kvs"
    and get :: "'k \<Rightarrow> 's \<Rightarrow> (bool \<times> 'v option) option"
    and put :: "'k \<Rightarrow> 'v \<Rightarrow> 's \<Rightarrow> ('s \<times> bool) option"
  assumes sorted_entries: "inv s \<Longrightarrow> skeys (entries s)"
    and get_returns: "inv s \<Longrightarrow> \<exists>r. get k s = Some r"
    and get_hit: "inv s \<Longrightarrow> map_of (entries s) k = Some v \<Longrightarrow> get k s = Some (True, Some v)"
    and put_law: "inv s \<Longrightarrow> \<exists>s'. put k v s = Some (s', k \<notin> fst ` set (entries s)) \<and> inv s'
      \<and> entries s' = kv_insert k v (entries s)"

text \<open>A scan may stop early, but what it returns is the beginning of what the key order prescribes.\<close>

locale scan_index = kv_index +
  fixes scan :: "'k::linorder \<Rightarrow> nat \<Rightarrow> 's \<Rightarrow> ('k, 'v) kvs option"
  assumes scan_law: "inv s \<Longrightarrow> \<exists>out. scan k n s = Some out
      \<and> prefix out (take n (filter (\<lambda>x. k \<le> fst x) (entries s)))"

section \<open>Loading by repeated puts\<close>

text \<open>The bulk load of an index without one of its own.\<close>

primrec bulk_put :: "('k \<Rightarrow> 'v \<Rightarrow> 's \<Rightarrow> ('s \<times> bool) option) \<Rightarrow> ('k, 'v) kvs \<Rightarrow> 's \<Rightarrow> 's option" where
  "bulk_put put [] s = Some s"
| "bulk_put put (x # xs) s =
     (case put (fst x) (snd x) s of None \<Rightarrow> None | Some (s', _) \<Rightarrow> bulk_put put xs s')"

definition load_kvs :: "('k::linorder, 'v) kvs \<Rightarrow> ('k, 'v) kvs \<Rightarrow> ('k, 'v) kvs" where
  "load_kvs xs es = fold (\<lambda>(k, v). kv_insert k v) xs es"

lemma load_kvs_simps [simp]:
  "load_kvs [] es = es" "load_kvs (x # xs) es = load_kvs xs (kv_insert (fst x) (snd x) es)"
  by (simp_all add: load_kvs_def split: prod.split)

lemma load_kvs_sorted: "skeys es \<Longrightarrow> skeys (load_kvs xs es)"
  by (induction xs arbitrary: es) (auto simp: skeys_kv_insert)

lemma load_kvs_map: "skeys es \<Longrightarrow> map_of (load_kvs xs es) = map_of xs ++ map_of es"
proof (induction xs arbitrary: es)
  case (Cons x xs)
  then have "map_of (load_kvs (x # xs) es) = map_of xs ++ map_of (kv_insert (fst x) (snd x) es)"
    by (simp add: skeys_kv_insert)
  also have "\<dots> = map_of (x # xs) ++ map_of es"
    by (cases x) (auto simp: map_of_kv_insert [OF Cons.prems] map_add_def fun_eq_iff split: option.split)
  finally show ?case .
qed simp

text \<open>Pairs in key order, all above what is there, are appended.\<close>

lemma load_kvs_ascending: "skeys (es @ xs) \<Longrightarrow> load_kvs xs es = es @ xs"
proof (induction xs arbitrary: es)
  case (Cons x xs)
  have lt: "\<forall>y\<in>set es. fst y < fst x" and s: "skeys ((es @ [x]) @ xs)"
    using Cons.prems by (auto simp: sorted_wrt_append)
  then have "kv_insert (fst x) (snd x) es = es @ [x]" by (auto simp: kv_insert_def)
  with Cons.IH [OF s] show ?case by simp
qed simp

context kv_index
begin

lemma bulk_put_law:
  "inv s \<Longrightarrow> \<exists>s'. bulk_put put xs s = Some s' \<and> inv s' \<and> entries s' = load_kvs xs (entries s)"
proof (induction xs arbitrary: s)
  case (Cons x xs)
  from put_law [OF Cons.prems, of "fst x" "snd x"] obtain s1 b where
    "put (fst x) (snd x) s = Some (s1, b)" "inv s1" "entries s1 = kv_insert (fst x) (snd x) (entries s)"
    by blast
  with Cons.IH [of s1] show ?case by auto
qed simp

end

section \<open>Sequences of changes\<close>

text \<open>An index that can also forget a key.\<close>

locale edit_index = kv_index +
  fixes erase :: "'k::linorder \<Rightarrow> 's \<Rightarrow> ('s \<times> bool) option"
  assumes erase_law: "inv s \<Longrightarrow> \<exists>s'. erase k s = Some (s', k \<in> fst ` set (entries s)) \<and> inv s'
      \<and> entries s' = filter (\<lambda>x. fst x \<noteq> k) (entries s)"

datatype ('k, 'v) edit = Put 'k 'v | Del 'k

text \<open>A run of changes on an index, and what it should do to a finite map.\<close>

fun run_edits :: "('k \<Rightarrow> 'v \<Rightarrow> 's \<Rightarrow> ('s \<times> bool) option) \<Rightarrow> ('k \<Rightarrow> 's \<Rightarrow> ('s \<times> bool) option)
    \<Rightarrow> ('k, 'v) edit list \<Rightarrow> 's \<Rightarrow> 's option" where
  "run_edits put erase [] s = Some s"
| "run_edits put erase (Put k v # es) s =
     (case put k v s of None \<Rightarrow> None | Some (s', _) \<Rightarrow> run_edits put erase es s')"
| "run_edits put erase (Del k # es) s =
     (case erase k s of None \<Rightarrow> None | Some (s', _) \<Rightarrow> run_edits put erase es s')"

fun edit_map :: "('k, 'v) edit \<Rightarrow> ('k \<rightharpoonup> 'v) \<Rightarrow> ('k \<rightharpoonup> 'v)" where
  "edit_map (Put k v) m = (if k \<in> dom m then m else m(k \<mapsto> v))"
| "edit_map (Del k) m = m(k := None)"

lemma map_of_filter_ne: "map_of (filter (\<lambda>x. fst x \<noteq> k) xs) = (map_of xs)(k := None)"
  by (induction xs) (auto simp: fun_eq_iff)

context edit_index
begin

lemma run_edits_law:
  "inv s \<Longrightarrow> \<exists>s'. run_edits put erase es s = Some s' \<and> inv s'
     \<and> map_of (entries s') = fold edit_map es (map_of (entries s))"
proof (induction es arbitrary: s)
  case (Cons e es)
  show ?case
  proof (cases e)
    case (Put k v)
    obtain s1 b where s1: "put k v s = Some (s1, b)" "inv s1" "entries s1 = kv_insert k v (entries s)"
      using put_law [OF Cons.prems, of k v] by blast
    have "map_of (entries s1) = edit_map e (map_of (entries s))"
      using map_of_kv_insert [OF sorted_entries [OF Cons.prems], of k v] by (auto simp: s1(3) Put)
    with Cons.IH [OF s1(2)] s1(1) Put show ?thesis by simp
  next
    case (Del k)
    obtain s1 b where s1: "erase k s = Some (s1, b)" "inv s1" "entries s1 = filter (\<lambda>x. fst x \<noteq> k) (entries s)"
      using erase_law [OF Cons.prems, of k] by blast
    have eq: "map_of (entries s1) = edit_map e (map_of (entries s))"
      by (simp only: s1(3) Del edit_map.simps map_of_filter_ne)
    show ?thesis
      using Cons.IH [OF s1(2)] unfolding eq
      by (simp only: Del run_edits.simps s1(1) option.case prod.case fold.simps comp_def)
  qed
qed simp

end

section \<open>The workload\<close>

datatype Operation = READ | INSERT | DELETE | SCAN | UPDATE

record thread_param =
  success_insert :: u64
  success_read :: u64
  success_update :: u64
  success_erase :: u64
  scan_not_enough :: u64

definition thread_param_new :: thread_param where
  "thread_param_new = \<lparr>success_insert = 0, success_read = 0, success_update = 0, success_erase = 0,
     scan_not_enough = 0\<rparr>"

text \<open>
  The body of the loop; \<open>pv\<close> is the literal 123456789 at the payload type, and a bool added to a
  counter counts as 0 or 1.
\<close>

definition run_op ::
  "('k \<Rightarrow> 's \<Rightarrow> (bool \<times> 'v option) option) \<Rightarrow> ('k \<Rightarrow> 'v \<Rightarrow> 's \<Rightarrow> ('s \<times> bool) option)
    \<Rightarrow> ('k \<Rightarrow> nat \<Rightarrow> 's \<Rightarrow> ('k, 'v) kvs option) \<Rightarrow> nat \<Rightarrow> 'v
    \<Rightarrow> Operation \<times> 'k \<Rightarrow> 's \<times> thread_param \<Rightarrow> ('s \<times> thread_param) option" where
  "run_op get put scan scan_num pv x sp =
     (let (op, key) = x; (s, p) = sp in
      if op = READ then
        (case get key s of None \<Rightarrow> None
         | Some (ret, _) \<Rightarrow> Some (s, p\<lparr>success_read := success_read p + of_bool ret\<rparr>))
      else if op = INSERT then
        (case put key pv s of None \<Rightarrow> None
         | Some (s', ret) \<Rightarrow> Some (s', p\<lparr>success_insert := success_insert p + of_bool ret\<rparr>))
      else if op = UPDATE then
        (case put key pv s of None \<Rightarrow> None
         | Some (s', ret) \<Rightarrow> Some (s', p\<lparr>success_update := success_update p + of_bool ret\<rparr>))
      else if op = SCAN then
        (case scan key scan_num s of None \<Rightarrow> None
         | Some out \<Rightarrow>
             if length out \<noteq> scan_num then Some (s, p\<lparr>scan_not_enough := scan_not_enough p + 1\<rparr>)
             else Some (s, p))
      else Some (s, p))"

fun run_ops ::
  "('k \<Rightarrow> 's \<Rightarrow> (bool \<times> 'v option) option) \<Rightarrow> ('k \<Rightarrow> 'v \<Rightarrow> 's \<Rightarrow> ('s \<times> bool) option)
    \<Rightarrow> ('k \<Rightarrow> nat \<Rightarrow> 's \<Rightarrow> ('k, 'v) kvs option) \<Rightarrow> nat \<Rightarrow> 'v
    \<Rightarrow> (Operation \<times> 'k) list \<Rightarrow> 's \<times> thread_param \<Rightarrow> ('s \<times> thread_param) option" where
  "run_ops get put scan scan_num pv [] sp = Some sp"
| "run_ops get put scan scan_num pv (x # xs) sp =
     (case run_op get put scan scan_num pv x sp of None \<Rightarrow> None
      | Some sp' \<Rightarrow> run_ops get put scan scan_num pv xs sp')"

text \<open>
  A workload that fits a key set: reads and updates hit, inserts bring new keys. \<open>ops_count\<close>
  counts the operations of one kind.
\<close>

fun workload_ok :: "'k set \<Rightarrow> (Operation \<times> 'k) list \<Rightarrow> bool" where
  "workload_ok K [] = True"
| "workload_ok K ((op, k) # xs) = (case op of
      READ \<Rightarrow> k \<in> K \<and> workload_ok K xs
    | INSERT \<Rightarrow> k \<notin> K \<and> workload_ok (insert k K) xs
    | UPDATE \<Rightarrow> k \<in> K \<and> workload_ok K xs
    | _ \<Rightarrow> workload_ok K xs)"

definition ops_count :: "Operation \<Rightarrow> (Operation \<times> 'k) list \<Rightarrow> nat" where
  "ops_count op xs = length (filter (\<lambda>x. fst x = op) xs)"

definition insert_keys :: "(Operation \<times> 'k) list \<Rightarrow> 'k list" where
  "insert_keys xs = map snd (filter (\<lambda>x. fst x = INSERT) xs)"

lemma ops_simps [simp]:
  "ops_count op [] = 0"
  "ops_count op (x # xs) = (if fst x = op then Suc (ops_count op xs) else ops_count op xs)"
  "insert_keys [] = []"
  "insert_keys (x # xs) = (if fst x = INSERT then snd x # insert_keys xs else insert_keys xs)"
  by (simp_all add: ops_count_def insert_keys_def)

text \<open>What a run of a fitting workload does to the counters.\<close>

definition counted :: "(Operation \<times> 'k) list \<Rightarrow> thread_param \<Rightarrow> thread_param \<Rightarrow> bool" where
  "counted xs p p' \<longleftrightarrow>
     success_read p' = success_read p + of_nat (ops_count READ xs)
     \<and> success_insert p' = success_insert p + of_nat (ops_count INSERT xs)
     \<and> success_update p' = success_update p \<and> success_erase p' = success_erase p
     \<and> (\<exists>n\<le>ops_count SCAN xs. scan_not_enough p' = scan_not_enough p + of_nat n)"

lemma counted_Cons:
  assumes "counted xs p1 p'"
  shows "p1 = p\<lparr>success_read := success_read p + 1\<rparr> \<Longrightarrow> counted ((READ, k) # xs) p p'"
    and "p1 = p\<lparr>success_insert := success_insert p + 1\<rparr> \<Longrightarrow> counted ((INSERT, k) # xs) p p'"
    and "p1 = p \<Longrightarrow> op \<notin> {READ, INSERT} \<Longrightarrow> counted ((op, k) # xs) p p'"
    and "p1 = p\<lparr>scan_not_enough := scan_not_enough p + 1\<rparr> \<Longrightarrow> counted ((SCAN, k) # xs) p p'"
proof -
  obtain n where n: "n \<le> ops_count SCAN xs" "scan_not_enough p' = scan_not_enough p1 + of_nat n"
    using assms by (auto simp: counted_def)
  show "p1 = p\<lparr>success_read := success_read p + 1\<rparr> \<Longrightarrow> counted ((READ, k) # xs) p p'"
    "p1 = p\<lparr>success_insert := success_insert p + 1\<rparr> \<Longrightarrow> counted ((INSERT, k) # xs) p p'"
    "p1 = p \<Longrightarrow> op \<notin> {READ, INSERT} \<Longrightarrow> counted ((op, k) # xs) p p'"
    using assms n by (auto simp: counted_def intro: exI [of _ n])
  show "counted ((SCAN, k) # xs) p p'" if "p1 = p\<lparr>scan_not_enough := scan_not_enough p + 1\<rparr>"
    using assms n that by (auto simp: counted_def intro!: exI [of _ "Suc n"])
qed

context scan_index
begin

lemma get_member: "inv s \<Longrightarrow> k \<in> fst ` set (entries s) \<Longrightarrow> \<exists>v. get k s = Some (True, Some v)"
  by (metis get_hit map_of_eq_None_iff option.exhaust)

lemma put_member:
  assumes "inv s" and "k \<in> fst ` set (entries s)"
  shows "\<exists>s'. put k v s = Some (s', False) \<and> inv s' \<and> entries s' = entries s"
  using put_law [OF assms(1), of k v] assms(2) by (simp add: kv_insert_def)

lemma run_ops_counted:
  assumes "inv s" and "workload_ok (fst ` set (entries s)) ops"
  shows "\<exists>s' p'. run_ops get put scan scan_num pv ops (s, p) = Some (s', p') \<and> inv s' \<and> counted ops p p'
    \<and> entries s' = load_kvs (map (\<lambda>k. (k, pv)) (insert_keys ops)) (entries s)"
  using assms
proof (induction ops arbitrary: s p)
  case Nil
  then show ?case by (auto simp: counted_def)
next
  case (Cons x ops)
  obtain op k where x: "x = (op, k)" by (cases x)
  show ?case
  proof (cases op)
    case READ
    with Cons.prems x have "k \<in> fst ` set (entries s)" "workload_ok (fst ` set (entries s)) ops" by auto
    with get_member [OF Cons.prems(1)] Cons.IH [OF Cons.prems(1), of "p\<lparr>success_read := success_read p + 1\<rparr>"] READ x
    show ?thesis by (fastforce simp: run_op_def intro: counted_Cons(1))
  next
    case INSERT
    with Cons.prems x have k: "k \<notin> fst ` set (entries s)" "workload_ok (insert k (fst ` set (entries s))) ops" by auto
    with put_law [OF Cons.prems(1), of k pv] obtain s1 where
      s1: "put k pv s = Some (s1, True)" "inv s1" "entries s1 = kv_insert k pv (entries s)" by auto
    with Cons.IH [OF s1(2), of "p\<lparr>success_insert := success_insert p + 1\<rparr>"] k INSERT x
    show ?thesis by (fastforce simp: run_op_def kv_insert_keys intro: counted_Cons(2))
  next
    case UPDATE
    with Cons.prems x have k: "k \<in> fst ` set (entries s)" "workload_ok (fst ` set (entries s)) ops" by auto
    with put_member [OF Cons.prems(1), of k pv] obtain s1 where
      s1: "put k pv s = Some (s1, False)" "inv s1" "entries s1 = entries s" by auto
    with Cons.IH [OF s1(2), of p] k UPDATE x
    show ?thesis by (fastforce simp: run_op_def intro: counted_Cons(3))
  next
    case SCAN
    with Cons.prems x have k: "workload_ok (fst ` set (entries s)) ops" by auto
    obtain out where out: "scan k scan_num s = Some out" using scan_law [OF Cons.prems(1)] by blast
    show ?thesis
    proof (cases "length out = scan_num")
      case True
      with Cons.IH [OF Cons.prems(1) k, of p] SCAN x out show ?thesis
        by (fastforce simp: run_op_def intro: counted_Cons(3))
    next
      case False
      with Cons.IH [OF Cons.prems(1) k, of "p\<lparr>scan_not_enough := scan_not_enough p + 1\<rparr>"] SCAN x out
      show ?thesis by (fastforce simp: run_op_def intro: counted_Cons(4))
    qed
  next
    case DELETE
    with Cons.IH [OF Cons.prems(1), of p] Cons.prems x show ?thesis
      by (fastforce simp: run_op_def intro: counted_Cons(3))
  qed
qed

end

end
