(* ===== verification/Workload.thy ===== *)
theory Workload
  imports Benchmark "HOL-Library.Multiset"
begin

text \<open>
  How the benchmark prepares its data (\<open>load_keys\<close>, \<open>generate_operations\<close> and \<open>run_benchmark\<close> of
  \<open>src/src/benchmark/benchmark.h\<close>; \<open>unique_data\<close> and \<open>get_search_keys\<close> of \<open>utils.h\<close>). The random
  number generators are parameters: \<open>shuffle\<close> for \<open>std::shuffle\<close> and \<open>std::random_shuffle\<close>, a list
  of positions for the sampling, a list of draws for the choice of operations.
\<close>

section \<open>Removing the initial keys from the rest\<close>

text \<open>The inner loop of \<open>unique_data\<close>.\<close>

function unique_advance :: "'k::linorder list \<Rightarrow> 'k \<Rightarrow> nat \<Rightarrow> nat" where
  "unique_advance key1 x ptr1 =
     (if ptr1 < length key1 \<and> key1 ! ptr1 < x then unique_advance key1 x (ptr1 + 1) else ptr1)"
  by pat_completeness auto
termination
  by (relation "measure (\<lambda>(key1, x, ptr1). length key1 - ptr1)") auto

declare unique_advance.simps [simp del]

text \<open>
  The merging loop, in place on \<open>key2\<close>. After the inner loop the code reads \<open>key1[ptr1]\<close> without
  looking at \<open>size1\<close>; \<open>beyond key2\<close> is what is found behind the first array.
\<close>

function unique_loop ::
  "('k::linorder list \<Rightarrow> 'k) \<Rightarrow> 'k list \<Rightarrow> 'k list \<Rightarrow> nat \<Rightarrow> nat \<Rightarrow> nat \<Rightarrow> 'k list \<times> nat \<times> nat" where
  "unique_loop beyond key1 key2 ptr1 ptr2 result =
     (if ptr1 < length key1 \<and> ptr2 < length key2 then
        let p = unique_advance key1 (key2 ! ptr2) ptr1;
            x = (if p < length key1 then key1 ! p else beyond key2)
        in if x = key2 ! ptr2 then unique_loop beyond key1 key2 p (ptr2 + 1) result
           else unique_loop beyond key1 (key2[result := key2 ! ptr2]) p (ptr2 + 1) (result + 1)
      else (key2, ptr2, result))"
  by pat_completeness auto
termination
  by (relation "measure (\<lambda>(beyond, key1, key2, ptr1, ptr2, result). length key2 - ptr2)") auto

declare unique_loop.simps [simp del]

function unique_copy :: "'k list \<Rightarrow> nat \<Rightarrow> nat \<Rightarrow> 'k list \<times> nat" where
  "unique_copy key2 ptr2 result =
     (if ptr2 < length key2
      then unique_copy (key2[result := key2 ! ptr2]) (ptr2 + 1) (result + 1) else (key2, result))"
  by pat_completeness auto
termination
  by (relation "measure (\<lambda>(key2, ptr2, result). length key2 - ptr2)") auto

declare unique_copy.simps [simp del]

text \<open>The kept part of the second array; its length is the new \<open>size2\<close>.\<close>

definition unique_data ::
  "('k::linorder list \<Rightarrow> 'k list) \<Rightarrow> ('k list \<Rightarrow> 'k) \<Rightarrow> 'k list \<Rightarrow> 'k list \<Rightarrow> 'k list" where
  "unique_data shuffle beyond key1 key2 =
     (let key1' = remdups_adj (sort key1); key2' = remdups_adj (sort key2);
          (arr, ptr2, result) = unique_loop beyond key1' key2' 0 0 0;
          (arr', result') = unique_copy arr ptr2 result
      in shuffle (take result' arr'))"

section \<open>Keys and operations\<close>

text \<open>\<open>load_keys\<close>: the key array, the sorted initial keys and the pairs to load.\<close>

definition load_keys ::
  "bool \<Rightarrow> ('k::linorder list \<Rightarrow> 'k list) \<Rightarrow> (nat \<Rightarrow> nat) \<Rightarrow> 'v \<Rightarrow> 'k list
    \<Rightarrow> 'k list \<times> 'k list \<times> ('k, 'v) kvs" where
  "load_keys data_shift shuffle init_size pv raw =
     (let keys = (if data_shift then raw else shuffle (remdups_adj (sort raw)));
          init_table_size = init_size (length keys);
          init_keys = sort (take init_table_size keys)
      in (keys, init_keys, map (\<lambda>k. (k, pv)) init_keys))"

text \<open>\<open>get_search_keys\<close> (and its zipf variant) for the drawn positions.\<close>

definition get_search_keys :: "'k list \<Rightarrow> nat list \<Rightarrow> 'k list" where
  "get_search_keys arr poss = map (\<lambda>pos. arr ! pos) poss"

record 'p ratios =
  read_ratio :: 'p
  insert_ratio :: 'p
  update_ratio :: 'p

fun gen_loop ::
  "'p::{plus,ord} ratios \<Rightarrow> 'k list \<Rightarrow> 'k list \<Rightarrow> 'p list \<Rightarrow> nat \<Rightarrow> nat \<Rightarrow> (Operation \<times> 'k) list" where
  "gen_loop r keys sample [] sample_counter insert_counter = []"
| "gen_loop r keys sample (prob # probs) sample_counter insert_counter =
     (if prob < read_ratio r then
        (READ, sample ! sample_counter) # gen_loop r keys sample probs (sample_counter + 1) insert_counter
      else if prob < read_ratio r + insert_ratio r then
        (if length keys \<le> insert_counter then []
         else (INSERT, keys ! insert_counter) # gen_loop r keys sample probs sample_counter (insert_counter + 1))
      else if prob < read_ratio r + insert_ratio r + update_ratio r then
        (UPDATE, sample ! sample_counter) # gen_loop r keys sample probs (sample_counter + 1) insert_counter
      else (SCAN, sample ! sample_counter) # gen_loop r keys sample probs (sample_counter + 1) insert_counter)"

text \<open>
  \<open>generate_operations\<close>. The two arrays of \<open>unique_data\<close> are parts of one array, so behind the
  first there is the second, unless \<open>std::unique\<close> has shortened the first and left \<open>stale\<close> there.
  With \<open>workload_shift_test\<close> the ratios are those of the end of the shift (\<open>shift\<close> gives the read
  and the insert ratio) and the first half of the new keys is left out.
\<close>

definition generate_operations ::
  "('k::linorder list \<Rightarrow> 'k list) \<Rightarrow> 'k \<Rightarrow> 'p::{plus,ord} ratios \<Rightarrow> ('p \<times> 'p) option \<Rightarrow> nat list \<Rightarrow> 'p list
    \<Rightarrow> nat \<Rightarrow> 'k list \<Rightarrow> 'k list \<Rightarrow> (Operation \<times> 'k) list" where
  "generate_operations shuffle stale r shift poss probs init_table_size keys init_keys =
     (let sample = get_search_keys init_keys poss;
          key1 = take init_table_size keys; key2 = drop init_table_size keys;
          beyond = (\<lambda>arr. if length (remdups_adj (sort key1)) = length key1 then arr ! 0 else stale);
          rest = unique_data shuffle beyond key1 key2;
          keys' = key1 @ rest
      in case shift of
           None \<Rightarrow> gen_loop r keys' sample probs 0 init_table_size
         | Some (rd, ins) \<Rightarrow>
             gen_loop (r\<lparr>read_ratio := rd, insert_ratio := ins\<rparr>) keys' sample probs 0
               (init_table_size + length rest div 2))"

text \<open>
  \<open>run_benchmark\<close> for one index and one thread: \<open>prepare\<close> loads the new index \<open>s0\<close>, \<open>run\<close>
  executes the operations.
\<close>

definition run_benchmark ::
  "('k::linorder \<Rightarrow> 's \<Rightarrow> (bool \<times> 'v option) option) \<Rightarrow> ('k \<Rightarrow> 'v \<Rightarrow> 's \<Rightarrow> ('s \<times> bool) option)
    \<Rightarrow> ('k \<Rightarrow> nat \<Rightarrow> 's \<Rightarrow> ('k, 'v) kvs option) \<Rightarrow> (('k, 'v) kvs \<Rightarrow> 's \<Rightarrow> 's option) \<Rightarrow> 's \<Rightarrow> nat \<Rightarrow> 'v
    \<Rightarrow> bool \<Rightarrow> ('k list \<Rightarrow> 'k list) \<Rightarrow> (nat \<Rightarrow> nat) \<Rightarrow> 'k \<Rightarrow> 'p::{plus,ord} ratios \<Rightarrow> ('p \<times> 'p) option
    \<Rightarrow> nat list \<Rightarrow> 'p list \<Rightarrow> 'k list \<Rightarrow> ((Operation \<times> 'k) list \<times> 's \<times> thread_param) option" where
  "run_benchmark get put scan bulk_load s0 scan_num pv data_shift shuffle init_size stale r shift poss probs raw =
     (let (keys, init_keys, init_key_values) = load_keys data_shift shuffle init_size pv raw;
          ops = generate_operations shuffle stale r shift poss probs (init_size (length keys)) keys init_keys
      in case bulk_load init_key_values s0 of
           None \<Rightarrow> None
         | Some s \<Rightarrow> map_option (Pair ops) (run_ops get put scan scan_num pv ops (s, thread_param_new)))"

section \<open>What the preparation guarantees\<close>

lemma unique_advance_spec:
  "ptr1 \<le> length key1 \<Longrightarrow> sorted_wrt (<) key1 \<Longrightarrow> \<forall>i<ptr1. key1 ! i < x \<Longrightarrow>
   (let p = unique_advance key1 x ptr1 in ptr1 \<le> p \<and> p \<le> length key1 \<and> (\<forall>i<p. key1 ! i < x)
     \<and> (p < length key1 \<longrightarrow> x \<le> key1 ! p))"
proof (induction key1 x ptr1 rule: unique_advance.induct)
  case (1 key1 x ptr1)
  show ?case
  proof (cases "ptr1 < length key1 \<and> key1 ! ptr1 < x")
    case True
    then have "\<forall>i<ptr1 + 1. key1 ! i < x" using 1 by (auto simp: less_Suc_eq)
    with 1 True show ?thesis by (simp add: unique_advance.simps [of key1 x ptr1] Let_def)
  next
    case False
    then have "unique_advance key1 x ptr1 = ptr1" by (simp only: unique_advance.simps [of key1 x ptr1] if_False)
    with 1 False show ?thesis by (auto simp: Let_def)
  qed
qed

lemma unique_copy_spec:
  "result \<le> ptr2 \<Longrightarrow> ptr2 \<le> length arr \<Longrightarrow>
   (let (arr', r) = unique_copy arr ptr2 result in take r arr' = take result arr @ drop ptr2 arr)"
proof (induction arr ptr2 result rule: unique_copy.induct)
  case (1 arr ptr2 result)
  show ?case
  proof (cases "ptr2 < length arr")
    case True
    then have "take (result + 1) (arr[result := arr ! ptr2]) @ drop (ptr2 + 1) (arr[result := arr ! ptr2])
        = take result arr @ drop ptr2 arr"
      using "1.prems" by (simp add: take_Suc_conv_app_nth Cons_nth_drop_Suc)
    with 1 True show ?thesis by (simp add: unique_copy.simps [of arr ptr2 result])
  next
    case False
    then have "unique_copy arr ptr2 result = (arr, result)"
      by (simp only: unique_copy.simps [of arr ptr2 result] if_False)
    with 1 False show ?thesis by simp
  qed
qed

text \<open>
  The merge keeps the keys of the second array that are not in the first, in order, except that
  the read behind the first array may drop one of them.
\<close>

lemma unique_loop_spec:
  assumes "sorted_wrt (<) key1" and "sorted_wrt (<) K" and "length arr = length K" and "drop ptr2 arr = drop ptr2 K"
    and "result \<le> ptr2" and "ptr2 \<le> length K" and "ptr1 \<le> length key1"
    and "\<forall>i<ptr1. \<forall>y\<in>set (drop ptr2 K). key1 ! i < y"
  shows "\<exists>arr' p r. unique_loop beyond key1 arr ptr1 ptr2 result = (arr', p, r) \<and> r \<le> p \<and> p \<le> length arr'
    \<and> (\<exists>ys zs us. filter (\<lambda>x. x \<notin> set key1) (drop ptr2 K) = ys @ us @ zs \<and> length us \<le> 1
         \<and> take r arr' @ drop p arr' = take result arr @ ys @ zs)"
  using assms
proof (induction "length K - ptr2" arbitrary: arr ptr1 ptr2 result)
  case 0
  then show ?case by (auto simp: unique_loop.simps [of beyond key1 arr ptr1 ptr2 result])
next
  case (Suc n)
  define x where "x = K ! ptr2"
  have lt: "ptr2 < length K" using Suc.hyps(2) by simp
  have dK: "drop ptr2 K = x # drop (Suc ptr2) K" using lt by (simp add: x_def Cons_nth_drop_Suc)
  then have dr: "arr ! ptr2 = x" "drop (Suc ptr2) arr = drop (Suc ptr2) K"
    using Suc.prems(3,4) lt by (simp_all add: Cons_nth_drop_Suc [symmetric])
  show ?case
  proof (cases "ptr1 < length key1")
    case False
    then have "unique_loop beyond key1 arr ptr1 ptr2 result = (arr, ptr2, result)"
      by (simp add: unique_loop.simps [of beyond key1 arr ptr1 ptr2 result])
    moreover have "filter (\<lambda>x. x \<notin> set key1) (drop ptr2 K) = drop ptr2 K"
      using False Suc.prems(7,8) by (metis (no_types, lifting) filter_True in_set_conv_nth le_neq_implies_less less_irrefl)
    ultimately show ?thesis using Suc.prems
      by (intro exI [of _ arr] exI [of _ ptr2] exI [of _ result] conjI exI [of _ "[]"]
          exI [of _ "drop ptr2 K"] exI [of _ "[]"]) simp_all
  next
    case True
    define p where "p = unique_advance key1 x ptr1"
    have p: "p \<le> length key1" "\<forall>i<p. key1 ! i < x" "p < length key1 \<Longrightarrow> x \<le> key1 ! p"
      using unique_advance_spec [of ptr1 key1 x] Suc.prems(1,7,8) dK by (simp_all add: p_def Let_def)
    have above: "\<forall>y\<in>set (drop (Suc ptr2) K). x < y"
      using Suc.prems(2) sorted_wrt_drop [of "(<)" K ptr2] dK by simp
    then have inv: "\<forall>i<p. \<forall>y\<in>set (drop (Suc ptr2) K). key1 ! i < y"
      using p(2) by (metis less_trans)
    have mem: "x \<in> set key1 \<longleftrightarrow> p < length key1 \<and> key1 ! p = x"
      using p Suc.prems(1) by (metis in_set_conv_nth leD linorder_neqE_nat nth_mem order_le_less sorted_wrt_nth_less)
    let ?y = "if p < length key1 then key1 ! p else beyond arr"
    have unf: "unique_loop beyond key1 arr ptr1 ptr2 result =
        (if ?y = x then unique_loop beyond key1 arr p (ptr2 + 1) result
         else unique_loop beyond key1 (arr[result := x]) p (ptr2 + 1) (result + 1))"
      using True lt Suc.prems(3) by (simp add: unique_loop.simps [of beyond key1 arr ptr1 ptr2 result] dr(1) p_def Let_def)
    consider (dup) "p < length key1" "key1 ! p = x" | (keep) "?y \<noteq> x" | (lost) "p = length key1" "beyond arr = x"
      using p(1) by (cases "p < length key1") auto
    then show ?thesis
    proof cases
      case dup
      then show ?thesis using Suc.hyps(1) [of "Suc ptr2" arr result p] Suc.hyps(2) Suc.prems dr inv p(1) mem lt
        by (simp add: unf dK)
    next
      case keep
      then have nm: "x \<notin> set key1" using mem by auto
      let ?arr = "arr[result := x]"
      have tk: "take (Suc result) ?arr = take result arr @ [x]"
        using Suc.prems(3,5) lt by (simp add: take_Suc_conv_app_nth)
      have "drop (Suc ptr2) ?arr = drop (Suc ptr2) K" using Suc.prems(5) dr(2) by simp
      moreover have "n = length K - Suc ptr2" "Suc ptr2 \<le> length K" using Suc.hyps(2) lt by auto
      ultimately have "\<exists>arr' q r. unique_loop beyond key1 ?arr p (Suc ptr2) (Suc result) = (arr', q, r) \<and> r \<le> q
        \<and> q \<le> length arr' \<and> (\<exists>ys zs us. filter (\<lambda>x. x \<notin> set key1) (drop (Suc ptr2) K) = ys @ us @ zs
          \<and> length us \<le> 1 \<and> take r arr' @ drop q arr' = take (Suc result) ?arr @ ys @ zs)"
        using Suc.prems inv p(1) by (intro Suc.hyps(1)) auto
      then
      obtain arr' q r ys zs us where *: "unique_loop beyond key1 ?arr p (Suc ptr2) (Suc result) = (arr', q, r)"
        "r \<le> q" "q \<le> length arr'" "filter (\<lambda>x. x \<notin> set key1) (drop (Suc ptr2) K) = ys @ us @ zs"
        "length us \<le> 1" "take r arr' @ drop q arr' = take (Suc result) ?arr @ ys @ zs" by blast
      then show ?thesis using keep nm tk
        by (intro exI [of _ arr'] exI [of _ q] exI [of _ r] conjI exI [of _ "x # ys"] exI [of _ zs] exI [of _ us])
          (simp_all add: unf dK)
    next
      case lost
      then have "unique_loop beyond key1 arr p (Suc ptr2) result = (arr, Suc ptr2, result)"
        by (subst unique_loop.simps) simp
      moreover have "filter (\<lambda>x. x \<notin> set key1) (drop (Suc ptr2) K) = drop (Suc ptr2) K"
        using lost inv by (metis (no_types, lifting) filter_True in_set_conv_nth less_irrefl)
      ultimately show ?thesis using lost mem Suc.prems lt dr(2)
        by (intro exI [of _ arr] exI [of _ "Suc ptr2"] exI [of _ result] conjI exI [of _ "[]"]
            exI [of _ "drop (Suc ptr2) K"] exI [of _ "[x]"]) (simp_all add: unf dK)
    qed
  qed
qed

lemma strict_sorted_remdups_adj: "sorted xs \<Longrightarrow> sorted_wrt (<) (remdups_adj xs)"
proof (induction xs rule: remdups_adj.induct)
  case (3 x y xs)
  have "\<forall>z\<in>set (y # xs). x < z" if "x \<noteq> y"
    using 3(3) that by (auto simp: order_le_less)
  with 3 show ?case by simp
qed simp_all

lemma strict_sorted_unique: "sorted_wrt (<) (remdups_adj (sort xs))"
  by (simp add: strict_sorted_remdups_adj)

text \<open>The set of kept keys: new, distinct, and at most one new key is missing.\<close>

lemma unique_data_spec:
  assumes "\<And>xs. mset (shuffle xs) = mset xs"
  shows "distinct (unique_data shuffle beyond key1 key2)"
    and "set (unique_data shuffle beyond key1 key2) \<subseteq> set key2 - set key1"
    and "card (set key2 - set key1) \<le> card (set (unique_data shuffle beyond key1 key2)) + 1"
proof -
  let ?K1 = "remdups_adj (sort key1)" and ?K2 = "remdups_adj (sort key2)"
  obtain arr p r ys zs us where l: "unique_loop beyond ?K1 ?K2 0 0 0 = (arr, p, r)" "r \<le> p" "p \<le> length arr"
    "filter (\<lambda>x. x \<notin> set ?K1) ?K2 = ys @ us @ zs" "length us \<le> 1" "take r arr @ drop p arr = ys @ zs"
    using unique_loop_spec [where beyond = beyond, of ?K1 ?K2 ?K2 0 0 0] strict_sorted_unique [of key1] strict_sorted_unique [of key2] by auto
  obtain arr' r' where c: "unique_copy arr p r = (arr', r')" by (metis surj_pair)
  with unique_copy_spec [OF l(2,3)] l(6) have "take r' arr' = ys @ zs" by simp
  with l(1) c have "unique_data shuffle beyond key1 key2 = shuffle (ys @ zs)"
    by (simp add: unique_data_def Let_def)
  with assms [of "ys @ zs"] have m: "mset (unique_data shuffle beyond key1 key2) = mset (ys @ zs)" by simp
  have d: "distinct (ys @ us @ zs)"
    using distinct_filter [of ?K2 "\<lambda>x. x \<notin> set ?K1"] strict_sorted_unique [of key2]
    by (simp only: l(4) strict_sorted_iff)
  have st: "set (ys @ us @ zs) = set key2 - set key1" by (auto simp: l(4) [symmetric])
  show "distinct (unique_data shuffle beyond key1 key2)" using d m mset_eq_imp_distinct_iff by fastforce
  have s: "set (unique_data shuffle beyond key1 key2) = set (ys @ zs)" using m mset_eq_setD by blast
  show "set (unique_data shuffle beyond key1 key2) \<subseteq> set key2 - set key1"
    using s st by auto
  have "card (set (ys @ zs)) = length (ys @ zs)" "card (set (ys @ us @ zs)) = length (ys @ us @ zs)"
    using d by (intro distinct_card; auto)+
  with l(5) show "card (set key2 - set key1) \<le> card (set (unique_data shuffle beyond key1 key2)) + 1"
    unfolding s st [symmetric] by simp
qed

lemma gen_loop_ok:
  assumes "distinct (drop ic keys)" and "set (drop ic keys) \<inter> K = {}" and "\<forall>k\<in>set sample. k \<in> K"
    and "sc + length probs \<le> length sample"
  shows "workload_ok K (gen_loop r keys sample probs sc ic)"
  using assms
proof (induction probs arbitrary: K sc ic)
  case (Cons prob probs)
  have smp: "sample ! sc \<in> K" using Cons.prems(3,4) by simp
  have IH: "workload_ok K (gen_loop r keys sample probs (sc + 1) ic)" using Cons by simp
  have ins: "keys ! ic \<notin> K \<and> workload_ok (insert (keys ! ic) K) (gen_loop r keys sample probs sc (ic + 1))"
    if "ic < length keys"
  proof -
    have dr: "drop ic keys = keys ! ic # drop (ic + 1) keys" using that by (simp add: Cons_nth_drop_Suc)
    then have "distinct (drop (ic + 1) keys)" "set (drop (ic + 1) keys) \<inter> insert (keys ! ic) K = {}" "keys ! ic \<notin> K"
      using Cons.prems(1,2) by auto
    with Cons.IH [of "ic + 1" "insert (keys ! ic) K" sc] Cons.prems show ?thesis by simp
  qed
  show ?case using smp IH ins by simp
qed simp

lemma generate_operations_ok:
  assumes "\<And>xs. mset (shuffle xs) = mset xs" and "\<forall>p\<in>set poss. p < length init_keys"
    and "length probs \<le> length poss" and "set init_keys = set (take n keys)" and "n \<le> length keys"
  shows "workload_ok (set init_keys) (generate_operations shuffle stale r shift poss probs n keys init_keys)"
proof -
  let ?sample = "get_search_keys init_keys poss"
  define beyond where "beyond = (\<lambda>arr. if length (remdups_adj (sort (take n keys))) = length (take n keys)
    then arr ! 0 else stale)"
  define rest where "rest = unique_data shuffle beyond (take n keys) (drop n keys)"
  note u = unique_data_spec [OF assms(1), where beyond = beyond, of "take n keys" "drop n keys", folded rest_def]
  have "\<forall>k\<in>set ?sample. k \<in> set init_keys" using assms(2) by (auto simp: get_search_keys_def)
  moreover have "length probs \<le> length ?sample" using assms(3) by (simp add: get_search_keys_def)
  moreover have "distinct (drop ic (take n keys @ rest))" "set (drop ic (take n keys @ rest)) \<inter> set init_keys = {}"
    if "n \<le> ic" for ic
    using that assms(5) u(1,2) assms(4) by (auto dest: in_set_dropD)
  ultimately have "workload_ok (set init_keys) (gen_loop r' (take n keys @ rest) ?sample probs 0 ic)"
    if "n \<le> ic" for r' :: "'b ratios" and ic
    using that by (intro gen_loop_ok) auto
  then show ?thesis
    unfolding generate_operations_def Let_def beyond_def [symmetric] rest_def [symmetric]
    by (simp split: option.split prod.split)
qed

text \<open>
  A benchmark of an index that keeps its contract: it completes, every read and every insert
  succeeds, no update does, and the index ends with the loaded and the inserted keys.
\<close>

lemma keys_load: "fst ` set (load_kvs xs es) = fst ` set xs \<union> fst ` set es"
  by (induction xs arbitrary: es) (auto simp: kv_insert_keys)

context scan_index
begin

lemma run_benchmark_law:
  assumes "inv s0" and "entries s0 = []" and "\<And>xs. mset (shuffle xs) = mset xs"
    and "\<And>n. init_size n \<le> n" and "length probs \<le> length poss"
    and "load_keys data_shift shuffle init_size pv raw = (keys, init_keys, kvs)"
    and "\<forall>p\<in>set poss. p < length init_keys"
    and bulk: "\<And>xs. bulk_load xs s0 = bulk_put put xs s0"
  shows "\<exists>ops s' p'. run_benchmark get put scan bulk_load s0 scan_num pv data_shift shuffle init_size stale r
      shift poss probs raw = Some (ops, s', p') \<and> inv s' \<and> workload_ok (set init_keys) ops
      \<and> counted ops thread_param_new p' \<and> fst ` set (entries s') = set init_keys \<union> set (insert_keys ops)"
proof -
  let ?n = "init_size (length keys)"
  let ?ops = "generate_operations shuffle stale r shift poss probs ?n keys init_keys"
  have ik: "init_keys = sort (take ?n keys)" and kvs: "kvs = map (\<lambda>k. (k, pv)) init_keys"
    using assms(6) by (auto simp: load_keys_def Let_def)
  have ok: "workload_ok (set init_keys) ?ops"
    using assms ik by (intro generate_operations_ok) simp_all
  from bulk_put_law [OF assms(1), of kvs] obtain s1 where s1: "bulk_put put kvs s0 = Some s1" "inv s1"
    "entries s1 = load_kvs kvs []" using assms(2) by auto
  have k1: "fst ` set (entries s1) = set init_keys" by (simp add: s1(3) keys_load kvs image_image)
  from run_ops_counted [of s1 ?ops scan_num pv thread_param_new] s1(2) ok k1 obtain s' p' where
    "run_ops get put scan scan_num pv ?ops (s1, thread_param_new) = Some (s', p')" "inv s'"
    "counted ?ops thread_param_new p'"
    "entries s' = load_kvs (map (\<lambda>k. (k, pv)) (insert_keys ?ops)) (entries s1)" by auto
  with s1 ok k1 show ?thesis
    by (auto simp: run_benchmark_def assms(6) bulk keys_load image_image)
qed

end

section \<open>Properties\<close>

text \<open>
  C31: \<open>unique_data\<close> returns distinct keys of the second array, none of them in the first, whatever
  the memory behind the first array holds; at most one key that should be kept is missing.
\<close>

theorem unique_data_keeps:
  assumes "\<And>xs. mset (shuffle xs) = mset xs"
  shows "distinct (unique_data shuffle beyond key1 key2)
    \<and> set (unique_data shuffle beyond key1 key2) \<subseteq> set key2 - set key1
    \<and> card (set key2 - set key1) \<le> card (set (unique_data shuffle beyond key1 key2)) + 1"
  using unique_data_spec [OF assms] by simp

theorem unique_data_keeps_witness:
  "unique_data (\<lambda>xs. xs) (\<lambda>arr. arr ! 0) [4, 2] [3, 4, 1, 3::nat] = [1, 3]
    \<and> distinct (unique_data (\<lambda>xs. xs) (\<lambda>arr. arr ! 0) [4, 2] [3, 4, 1, 3::nat])"
proof -
  have "unique_data (\<lambda>xs. xs) (\<lambda>arr. arr ! 0) [4, 2] [3, 4, 1, 3::nat] = [1, 3]" by code_simp
  moreover from unique_data_keeps [OF refl, of "\<lambda>arr. arr ! 0" "[4, 2]" "[3, 4, 1, 3::nat]"]
  have "distinct (unique_data (\<lambda>xs. xs) (\<lambda>arr. arr ! 0) [4, 2] [3, 4, 1, 3::nat])" by simp
  ultimately show ?thesis by simp
qed

text \<open>
  The read behind the first array loses a key. When all initial keys are below the others and
  the arrays adjoin, as in \<open>generate_operations\<close>, the smallest new key is dropped.
\<close>

theorem unique_data_loses_least:
  "unique_data (\<lambda>xs. xs) (\<lambda>arr. arr ! 0) [1, 2] [3, 4, 5::nat] = [4, 5]"
  by code_simp



end
