(* ===== verification/BTreeOLC_Index.thy ===== *)
theory BTreeOLC_Index
  imports BTreeOLC_Scan Workload
begin

text \<open>
  The wrapper of the concurrent B+-tree (\<open>src/src/competitor/btreeolc/btreeolc.h\<close>) and its proof
  that the tree keeps the contract of the index interface, with the properties that follow: of
  single operations, of a loaded tree, and of a whole benchmark run on it.
\<close>

section \<open>The wrapper\<close>

text \<open>
  \<open>put\<close> and \<open>scan\<close> bound the passes and the leaves they may visit by numbers that the tree gives;
  the theorems below show that they are enough. \<open>stale\<close> is the uninitialised flag of \<open>lookup\<close>.
\<close>

definition btif_get :: "'k::linorder \<Rightarrow> bool \<Rightarrow> 'k \<Rightarrow> ('k, 'v) btree \<Rightarrow> (bool \<times> 'v option) option" where
  "btif_get junk stale key t = bt_lookup junk stale key t"

definition btif_put :: "btcfg \<Rightarrow> 'k::linorder \<Rightarrow> 'k \<Rightarrow> 'v \<Rightarrow> ('k, 'v) btree \<Rightarrow> (('k, 'v) btree \<times> bool) option" where
  "btif_put c junk key value t = bt_insert c junk (2 * length (inorder (root t)) + 2) key value t"

definition btif_bulk_load :: "btcfg \<Rightarrow> 'k::linorder \<Rightarrow> ('k, 'v) kvs \<Rightarrow> ('k, 'v) btree \<Rightarrow> ('k, 'v) btree option" where
  "btif_bulk_load c junk key_value t = bulk_put (btif_put c junk) key_value t"

definition btif_remove :: "'k \<Rightarrow> ('k, 'v) btree \<Rightarrow> ('k, 'v) btree \<times> bool" where
  "btif_remove key t = (t, True)"

text \<open>\<open>key_num\<close> is a \<open>size_t\<close> that the call converts to the \<open>int\<close> parameter of \<open>scan\<close>.\<close>

definition btif_scan :: "'k::linorder \<Rightarrow> 'k \<Rightarrow> nat \<Rightarrow> ('k, 'v) btree \<Rightarrow> ('k, 'v) kvs option" where
  "btif_scan junk key_low_bound key_num t =
     bt_scan junk (length (leaves (root t)) + 1) key_low_bound (sint (word_of_nat key_num :: 32 word)) t"

section \<open>The contract\<close>

definition bt_ok :: "btcfg \<Rightarrow> ('k::linorder, 'v) btree \<Rightarrow> bool" where
  "bt_ok c t \<longleftrightarrow> bt_inv c t \<and> bt_chain t"

lemma bt_ok_new: "cfg_ok c \<Longrightarrow> bt_ok c btree_new"
  by (simp add: bt_ok_def btree_new_inv)

lemma btif_put_law:
  assumes "bt_ok c t"
  shows "\<exists>t'. btif_put c junk k v t = Some (t', k \<notin> fst ` set (inorder (root t))) \<and> bt_ok c t'
    \<and> inorder (root t') = kv_insert k v (inorder (root t))"
proof -
  have inv: "bt_inv c t" and ch: "bt_chain t" using assms by (auto simp: bt_ok_def)
  have "\<exists>t'. btif_put c junk k v t = Some (t', k \<notin> dom (bt_map t)) \<and> bt_inv c t'
    \<and> inorder (root t') = kv_insert k v (inorder (root t))"
    unfolding btif_put_def by (rule bt_insert_correct [OF inv]) simp
  then obtain t' where t': "btif_put c junk k v t = Some (t', k \<notin> dom (bt_map t))" "bt_inv c t'"
    "inorder (root t') = kv_insert k v (inorder (root t))" by blast
  then have "bt_chain t'" using bt_insert_chain [OF t'(1) [unfolded btif_put_def] inv ch] by simp
  with t' show ?thesis by (simp add: bt_ok_def bt_map_def dom_map_of_conv_image_fst)
qed

lemma btif_get_hit:
  "bt_ok c t \<Longrightarrow> map_of (inorder (root t)) k = Some v \<Longrightarrow> btif_get junk stale k t = Some (True, Some v)"
  using bt_lookup_spec [of c t junk stale k] by (simp add: bt_ok_def btif_get_def bt_map_def)

lemma sint_le: "sint (word_of_nat n :: 32 word) \<le> int n"
proof (cases "int n < 2 ^ 31")
  case True
  then show ?thesis by (simp add: signed_of_nat signed_take_bit_int_eq_self)
next
  case False
  have "sint (word_of_nat n :: 32 word) < 2 ^ 31" using sint_less [of "word_of_nat n :: 32 word"] by simp
  with False show ?thesis by linarith
qed

lemma btif_scan_law:
  assumes "bt_ok c t"
  shows "\<exists>out. btif_scan junk k n t = Some out
    \<and> prefix out (take n (filter (\<lambda>x. k \<le> fst x) (inorder (root t))))"
proof -
  let ?rng = "sint (word_of_nat n :: 32 word)"
  from bt_scan_correct [of c t "length (leaves (root t)) + 1" junk k ?rng] assms
  obtain out where "btif_scan junk k n t = Some out"
    "prefix out (take (nat ?rng) (filter (\<lambda>x. k \<le> fst x) (inorder (root t))))"
    by (auto simp: bt_ok_def btif_scan_def)
  moreover have "prefix (take (nat ?rng) xs) (take n xs)" for xs :: "('a, 'b) kvs"
    using sint_le [of n] by (metis min.absorb1 nat_le_iff take_is_prefix take_take)
  ultimately show ?thesis by (meson prefix_order.trans)
qed

lemma bt_ok_sorted: "bt_ok c t \<Longrightarrow> skeys (inorder (root t))"
  unfolding bt_ok_def bt_inv_def by (blast intro: wf_inorder_sorted)

lemma btif_get_returns: "bt_ok c t \<Longrightarrow> \<exists>r. btif_get junk stale k t = Some r"
  using bt_lookup_spec [of c t junk stale k] by (simp add: bt_ok_def btif_get_def)

interpretation olc: scan_index "bt_ok c" "\<lambda>t. inorder (root t)" "btif_get junk stale" "btif_put c junk"
  "btif_scan junk" for c junk stale
  by unfold_locales (rule bt_ok_sorted btif_get_returns btif_get_hit btif_put_law btif_scan_law; assumption)+

lemma bulk_unbroken:
  assumes "bt_ok c t" and "unbroken (chain (root t))" and "skeys (inorder (root t) @ xs)"
  shows "\<exists>t'. btif_bulk_load c junk xs t = Some t' \<and> bt_ok c t' \<and> unbroken (chain (root t'))
    \<and> inorder (root t') = inorder (root t) @ xs"
  using assms
proof (induction xs arbitrary: t)
  case Nil
  then show ?case by (simp add: btif_bulk_load_def)
next
  case (Cons x xs)
  have lt: "\<forall>k\<in>keyset (root t). k < fst x" and s: "skeys ((inorder (root t) @ [x]) @ xs)"
    using Cons.prems(3) by (auto simp: sorted_wrt_append keyset_def)
  from btif_put_law [OF Cons.prems(1), of junk "fst x" "snd x"] obtain t1 b where
    t1: "btif_put c junk (fst x) (snd x) t = Some (t1, b)" "bt_ok c t1"
    "inorder (root t1) = kv_insert (fst x) (snd x) (inorder (root t))" by blast
  have eq: "inorder (root t1) = inorder (root t) @ [x]"
    using lt by (auto simp: t1(3) kv_insert_def keyset_def)
  have "unbroken (chain (root t1))"
    using bt_insert_unbroken [OF t1(1) [unfolded btif_put_def] _ Cons.prems(2) lt] Cons.prems(1)
    by (simp add: bt_ok_def)
  from Cons.IH [OF t1(2) this] s t1(1) eq show ?case by (simp add: btif_bulk_load_def)
qed

section \<open>Properties\<close>

text \<open>
  C1: an insert into a well-formed tree returns, within two passes more than twice the number
  of entries; it says whether the key was new, leaves the tree well formed (separators, node
  sizes, free lock words, leaf chain), and the entries in key order are those before with the
  pair put in its place, or unchanged if the key was there.
\<close>

theorem btree_put_contract:
  assumes "bt_ok c t"
  shows "\<exists>t'. btif_put c junk k v t = Some (t', bt_map t k = None) \<and> bt_ok c t'
    \<and> inorder (root t') = kv_insert k v (inorder (root t))
    \<and> bt_map t' = (if bt_map t k = None then (bt_map t)(k \<mapsto> v) else bt_map t)"
proof -
  from olc.put_law [OF assms, of junk k v] obtain t' where
    "btif_put c junk k v t = Some (t', k \<notin> fst ` set (inorder (root t)))" "bt_ok c t'"
    "inorder (root t') = kv_insert k v (inorder (root t))" by blast
  then show ?thesis
    using map_of_kv_insert [OF olc.sorted_entries [OF assms], of k v] by (simp add: bt_map_def map_of_eq_None_iff)
qed

text \<open>A page size with room for two pairs in a leaf and five children in an inner node.\<close>

definition cfg_page :: btcfg where
  "cfg_page = \<lparr>sizeof_key = 91, sizeof_kv = 200\<rparr>"

lemma cfg_page_ok: "cfg_ok cfg_page" "cfg_ok cfg_u64"
  by (simp_all add: cfg_ok_def cfg_page_def cfg_u64_def leaf_maxEntries_def inner_maxEntries_def
      pageSize_def sizeof_NodeBase_def)

theorem btree_put_contract_witness:
  "bt_ok cfg_u64 (btree_new :: (nat, nat) btree) \<and>
   (\<exists>t'. btif_put cfg_u64 0 5 50 (btree_new :: (nat, nat) btree) = Some (t', True) \<and> inorder (root t') = [(5, 50)])"
proof -
  have ok: "bt_ok cfg_u64 (btree_new :: (nat, nat) btree)" by (rule bt_ok_new [OF cfg_page_ok(2)])
  from btree_put_contract [OF this, of 0 5 50] ok show ?thesis
    by (auto simp: bt_map_def btree_new_def kv_insert_def)
qed

text \<open>
  C27: a lookup in a well-formed tree returns; a key of the tree gives success and its value.
  A key that is not there leaves the result alone and returns the uninitialised flag.
\<close>

theorem btree_get_spec:
  assumes "bt_ok c t"
  shows "btif_get junk stale k t =
    Some (case bt_map t k of None \<Rightarrow> (stale, None) | Some v \<Rightarrow> (True, Some v))"
  using assms bt_lookup_spec [of c t junk stale k] by (simp add: bt_ok_def btif_get_def)

theorem btree_get_spec_witness:
  "bt_ok cfg_u64 (btree_new :: (nat, nat) btree) \<and>
   btif_get 0 True 3 (btree_new :: (nat, nat) btree) = Some (True, None)"
proof -
  have ok: "bt_ok cfg_u64 (btree_new :: (nat, nat) btree)" by (rule bt_ok_new [OF cfg_page_ok(2)])
  from btree_get_spec [OF this, of 0 True 3] ok show ?thesis by (simp add: bt_map_def btree_new_def)
qed

text \<open>
  C28: a scan of a well-formed tree returns, and what it writes is a beginning of the entries not
  below the start key, in key order and at most as many as asked for; it is all of them if
  every leaf points to the next one and the number fits into an \<open>int\<close>.
\<close>

theorem btree_scan_prefix:
  assumes "bt_ok c t" and "n < 2 ^ 31"
  shows "\<exists>out. btif_scan junk k n t = Some out
    \<and> prefix out (take n (filter (\<lambda>x. k \<le> fst x) (inorder (root t))))
    \<and> (unbroken (chain (root t)) \<longrightarrow> out = take n (filter (\<lambda>x. k \<le> fst x) (inorder (root t))))"
proof -
  have "nat (sint (word_of_nat n :: 32 word)) = n"
    using assms(2) by (simp add: signed_of_nat signed_take_bit_int_eq_self)
  with bt_scan_correct [of c t "length (leaves (root t)) + 1" junk k "sint (word_of_nat n :: 32 word)"] assms(1)
  show ?thesis by (simp add: bt_ok_def btif_scan_def)
qed

theorem btree_scan_prefix_witness:
  "bt_ok cfg_u64 (btree_new :: (nat, nat) btree) \<and> btif_scan 0 3 7 (btree_new :: (nat, nat) btree) = Some []"
proof -
  have ok: "bt_ok cfg_u64 (btree_new :: (nat, nat) btree)" by (rule bt_ok_new [OF cfg_page_ok(2)])
  from btree_scan_prefix [OF this, of 7 0 3] ok show ?thesis by (auto simp: btree_new_def)
qed

text \<open>
  C29: loading pairs with ascending keys into a new tree succeeds, the entries are the pairs, and
  every scan of the loaded tree is complete.
\<close>

theorem bulk_load_scan_exact:
  assumes "cfg_ok c" and "skeys xs"
  shows "\<exists>t. btif_bulk_load c junk xs btree_new = Some t \<and> bt_ok c t \<and> inorder (root t) = xs
    \<and> (\<forall>k n. n < 2 ^ 31 \<longrightarrow> btif_scan junk k n t = Some (take n (filter (\<lambda>x. k \<le> fst x) xs)))"
proof -
  have "inorder (root btree_new) = ([] :: ('a, 'b) kvs)" by (simp add: btree_new_def)
  with bulk_unbroken [OF bt_ok_new [OF assms(1)] btree_new_inv(4), of xs junk] assms(2) obtain t where
    t: "btif_bulk_load c junk xs btree_new = Some t" "bt_ok c t" "unbroken (chain (root t))" "inorder (root t) = xs"
    by auto
  have "btif_scan junk k n t = Some (take n (filter (\<lambda>x. k \<le> fst x) xs))" if "n < 2 ^ 31" for k n
  proof -
    have "nat (sint (word_of_nat n :: 32 word)) = n"
      using that by (simp add: signed_of_nat signed_take_bit_int_eq_self)
    with bt_scan_correct [of c t "length (leaves (root t)) + 1" junk k "sint (word_of_nat n :: 32 word)"] t
    show ?thesis by (auto simp: bt_ok_def btif_scan_def)
  qed
  with t show ?thesis by blast
qed

theorem bulk_load_scan_exact_witness:
  "\<exists>t. btif_bulk_load cfg_page 0 [(1, 10), (2, 20), (4, 40), (7::nat, 70::nat)] btree_new = Some t
    \<and> btif_scan 0 2 2 t = Some [(2, 20), (4, 40)]"
  using bulk_load_scan_exact [OF cfg_page_ok(1), of "[(1, 10), (2, 20), (4, 40), (7::nat, 70::nat)]" 0] by force

text \<open>C32: inserts keep the tree balanced: all leaves are at one depth.\<close>

theorem btree_put_balanced:
  assumes "bt_ok c t" and "at_depth h (root t)" and "btif_put c junk k v t = Some (t', ret)"
  shows "\<exists>h'. at_depth h' (root t')"
  using assms(1,2) by (intro bt_insert_depth [OF assms(3) [unfolded btif_put_def]]) (auto simp: bt_ok_def)

theorem btree_put_balanced_witness:
  "at_depth 0 (root (btree_new :: (nat, nat) btree)) \<and>
   (\<exists>t' h'. btif_put cfg_u64 0 5 50 (btree_new :: (nat, nat) btree) = Some (t', True) \<and> at_depth h' (root t'))"
proof -
  have ok: "bt_ok cfg_u64 (btree_new :: (nat, nat) btree)" by (rule bt_ok_new [OF cfg_page_ok(2)])
  have h: "at_depth 0 (root (btree_new :: (nat, nat) btree))" by (rule btree_new_inv(3))
  obtain t' where t': "btif_put cfg_u64 0 5 50 (btree_new :: (nat, nat) btree) = Some (t', True)"
    using olc.put_law [OF ok, of 0 5 50] by (auto simp: btree_new_def)
  from btree_put_balanced [OF ok h t'] t' h show ?thesis by blast
qed




end
