(* ===== verification/PGM_Dynamic.thy ===== *)
theory PGM_Dynamic
  imports Prelude
begin

text \<open>
  The dynamic PGM-index (\<open>class DynamicPGMIndex\<close> in
  \<open>src/src/competitor/pgm/src/pgm_index_dynamic.hpp\<close>): a sorted buffer and sorted levels of
  doubling size, merged as they fill up, with a static index over each big level. The type of
  the static index is a template parameter of the class; here it is a record of its operations.
  Levels are lists of items, a write behind the end of a temporary array gives \<open>None\<close>, and
  items that the code leaves uninitialised are the parameter \<open>junk\<close>.
\<close>

section \<open>Items\<close>

text \<open>\<open>ItemA\<close>, the item of arithmetic values: the greatest value marks a deleted key.\<close>

type_synonym 'k item = "'k \<times> u64"

definition tombstone :: u64 where
  "tombstone = - 1"

definition deleted :: "'k item \<Rightarrow> bool" where
  "deleted x \<longleftrightarrow> snd x = tombstone"

datatype pgm_error = Reserved_value | Not_sorted

definition Item :: "'k \<Rightarrow> u64 \<Rightarrow> pgm_error + 'k item" where
  "Item key value = (if value = tombstone then Inl Reserved_value else Inr (key, value))"

definition Item_erase :: "'k \<Rightarrow> 'k item" where
  "Item_erase key = (key, tombstone)"

section \<open>The container\<close>

definition min_level :: nat where
  "min_level = 6"

definition buffer_max_size :: nat where
  "buffer_max_size = 2 ^ (min_level + 1) - 1"

record ('k, 'p) pgm_type =
  pgm_none :: 'p
  pgm_build :: "'k item list \<Rightarrow> 'p"
  pgm_search :: "'p \<Rightarrow> 'k \<Rightarrow> nat \<times> nat"
  MinIndexedLevel :: nat

record ('k, 'p) dpgm =
  used_levels :: nat
  levels :: "'k item list list"
  pgms :: "'p list"

definition level :: "('k, 'p) dpgm \<Rightarrow> nat \<Rightarrow> 'k item list" where
  "level s i = levels s ! (i - min_level)"

text \<open>The number of bits of a number; \<open>64 - __builtin_clzll x\<close> for a non-zero 64-bit \<open>x\<close>.\<close>

fun bitlen :: "nat \<Rightarrow> nat" where
  "bitlen n = (if n = 0 then 0 else Suc (bitlen (n div 2)))"

declare bitlen.simps [simp del]

definition ceil_log2 :: "nat \<Rightarrow> nat" where
  "ceil_log2 n = (if n \<le> 1 then 0 else bitlen (n - 1))"

fun merge :: "bool \<Rightarrow> 'k::linorder item list \<Rightarrow> 'k item list \<Rightarrow> 'k item list" where
  "merge skip (x # xs) (y # ys) =
     (if fst y < fst x then y # merge skip (x # xs) ys
      else if fst x < fst y then x # merge skip xs (y # ys)
      else if skip \<and> deleted x then merge skip xs ys
      else x # merge skip xs ys)"
| "merge skip [] ys = ys"
| "merge skip xs [] = xs"

text \<open>Writing to the begin of a temporary array.\<close>

definition put_buf :: "'a list \<Rightarrow> 'a list \<Rightarrow> 'a list option" where
  "put_buf out buf = (if length out \<le> length buf then Some (out @ drop (length out) buf) else None)"

text \<open>The loop of \<open>pairwise_merge\<close> from level \<open>i\<close> on; \<open>md\<close> is its \<open>mod\<close>.\<close>

function merge_loop ::
  "('k::linorder, 'p) pgm_type \<Rightarrow> nat \<Rightarrow> nat \<Rightarrow> nat \<Rightarrow> nat \<Rightarrow> 'k item list \<Rightarrow> 'k item list \<Rightarrow> nat
    \<Rightarrow> 'k item list list \<Rightarrow> 'p list
    \<Rightarrow> ('k item list \<times> 'k item list \<times> nat \<times> 'k item list list \<times> 'p list) option" where
  "merge_loop pm md used limit i a b actual_size lvs ps =
     (if i \<le> limit then
        let alternate = ((i - min_level) mod 2 = md);
            tmp = (if alternate then a else b);
            can_delete_permanently = (i = used - 1);
            out = merge can_delete_permanently (take actual_size tmp) (lvs ! (i - min_level));
            lvs' = lvs[i - min_level := []];
            ps' = (if MinIndexedLevel pm \<le> i then ps[i - MinIndexedLevel pm := pgm_none pm] else ps)
        in case put_buf out (if alternate then b else a) of
             None \<Rightarrow> None
           | Some buf \<Rightarrow>
               merge_loop pm md used limit (i + 1) (if alternate then a else buf)
                 (if alternate then buf else b) (length out) lvs' ps'
      else Some (a, b, actual_size, lvs, ps))"
  by pat_completeness auto
termination
  by (relation "measure (\<lambda>(pm, md, used, limit, i, a, b, n, lvs, ps). limit + 1 - i)") auto

declare merge_loop.simps [simp del]

definition resize :: "'a \<Rightarrow> nat \<Rightarrow> 'a list \<Rightarrow> 'a list" where
  "resize junk n xs = take n (xs @ replicate (n - length xs) junk)"

definition pairwise_merge ::
  "('k::linorder, 'p) pgm_type \<Rightarrow> 'k item \<Rightarrow> 'k item \<Rightarrow> nat \<Rightarrow> nat \<Rightarrow> nat \<Rightarrow> ('k, 'p) dpgm \<Rightarrow> ('k, 'p) dpgm option" where
  "pairwise_merge pm junk new_item up_to_level size_hint insertion_idx s =
     (let actual_size = 2 ^ (1 + min_level);
          target = level s (up_to_level + 1);
          tmp_a = replicate size_hint junk;
          tmp_b = replicate (size_hint + length target) junk;
          md = (up_to_level - min_level) mod 2;
          first = take insertion_idx (levels s ! 0) @ new_item # drop insertion_idx (levels s ! 0);
          limit = (if target = [] then up_to_level else up_to_level + 1)
      in case put_buf first (if md \<noteq> 0 then tmp_a else tmp_b) of
           None \<Rightarrow> None
         | Some buf \<Rightarrow>
             (case merge_loop pm md (used_levels s) limit (1 + min_level) (if md \<noteq> 0 then buf else tmp_a)
                (if md \<noteq> 0 then tmp_b else buf) actual_size (levels s) (pgms s) of
                None \<Rightarrow> None
              | Some (a, b, n, lvs, ps) \<Rightarrow>
                  let b' = resize junk n b;
                      t = max (ceil_log2 n) (min_level + 1)
                  in Some (s\<lparr>levels := lvs[0 := [], t - min_level := b'],
                       pgms := (if MinIndexedLevel pm \<le> t
                                then ps[t - MinIndexedLevel pm := pgm_build pm b'] else ps)\<rparr>)))"

text \<open>The loop of \<open>insert\<close> that looks for a level with enough free slots.\<close>

function find_slots :: "('k, 'p) dpgm \<Rightarrow> nat \<Rightarrow> nat \<Rightarrow> nat \<times> nat" where
  "find_slots s i slots_required =
     (if i < used_levels s then
        if slots_required \<le> 2 ^ i - length (level s i) then (i, slots_required)
        else find_slots s (i + 1) (slots_required + length (level s i))
      else (i, slots_required))"
  by pat_completeness auto
termination
  by (relation "measure (\<lambda>(s, i, n). used_levels s - i)") auto

declare find_slots.simps [simp del]

text \<open>\<open>insert(const Item &)\<close>; the position of \<open>std::lower_bound\<close> is the number of smaller keys.\<close>

definition insert_item ::
  "('k::linorder, 'p) pgm_type \<Rightarrow> 'k item \<Rightarrow> 'k item \<Rightarrow> ('k, 'p) dpgm \<Rightarrow> (('k, 'p) dpgm \<times> bool) option" where
  "insert_item pm junk new_item s =
     (let l0 = levels s ! 0;
          insertion_idx = rank_less (fst new_item) (map fst l0)
      in if insertion_idx < length l0 \<and> fst (l0 ! insertion_idx) = fst new_item then Some (s, False)
         else if length l0 < buffer_max_size then
           Some (s\<lparr>levels := (levels s)[0 := take insertion_idx l0 @ new_item # drop insertion_idx l0],
                  used_levels := (if used_levels s = min_level then min_level + 1 else used_levels s)\<rparr>, True)
         else
           let (i, slots_required) = find_slots s (min_level + 1) (buffer_max_size + 1);
               s' = (if i = used_levels s
                     then s\<lparr>used_levels := used_levels s + 1, levels := levels s @ [[]],
                            pgms := (if int i - int (MinIndexedLevel pm) \<ge> int (length (pgms s))
                                     then pgms s @ [pgm_none pm] else pgms s)\<rparr>
                     else s)
           in map_option (\<lambda>t. (t, True)) (pairwise_merge pm junk new_item (i - 1) slots_required insertion_idx s'))"

definition dpgm_new :: "('k, 'p) dpgm" where
  "dpgm_new = \<lparr>used_levels = min_level, levels = replicate (32 - min_level) [], pgms = []\<rparr>"

text \<open>The loop of the range constructor that copies the first of equal keys.\<close>

fun copy_unique :: "'k::linorder item list \<Rightarrow> ('k, u64) kvs \<Rightarrow> pgm_error + 'k item list" where
  "copy_unique out [] = Inr out"
| "copy_unique out (x # xs) =
     (if fst x < fst (last out) then Inl Not_sorted
      else if fst x \<noteq> fst (last out) then
        (case Item (fst x) (snd x) of Inl e \<Rightarrow> Inl e | Inr y \<Rightarrow> copy_unique (out @ [y]) xs)
      else copy_unique out xs)"

definition dpgm_range :: "('k::linorder, 'p) pgm_type \<Rightarrow> ('k, u64) kvs \<Rightarrow> pgm_error + ('k, 'p) dpgm" where
  "dpgm_range pm xs =
     (let n = length xs;
          used = max (ceil_log2 n) min_level + 1;
          lvs = replicate (max used 32 - min_level + 1) []
      in case xs of
           [] \<Rightarrow> Inr \<lparr>used_levels = min_level, levels = lvs, pgms = []\<rparr>
         | x # ys \<Rightarrow>
             (case Item (fst x) (snd x) of
                Inl e \<Rightarrow> Inl e
              | Inr y \<Rightarrow>
                  (case copy_unique [y] ys of
                     Inl e \<Rightarrow> Inl e
                   | Inr target \<Rightarrow>
                       Inr \<lparr>used_levels = used, levels = lvs[used - 1 - min_level := target],
                         pgms = (if MinIndexedLevel pm \<le> used - 1
                                 then (replicate (used - MinIndexedLevel pm) (pgm_none pm))
                                        [used - 1 - MinIndexedLevel pm := pgm_build pm target]
                                 else [])\<rparr>)))"

definition dpgm_insert ::
  "('k::linorder, 'p) pgm_type \<Rightarrow> 'k item \<Rightarrow> 'k \<Rightarrow> u64 \<Rightarrow> ('k, 'p) dpgm
    \<Rightarrow> pgm_error + (('k, 'p) dpgm \<times> bool) option" where
  "dpgm_insert pm junk key value s =
     (case Item key value of Inl e \<Rightarrow> Inl e | Inr x \<Rightarrow> Inr (insert_item pm junk x s))"

definition dpgm_erase ::
  "('k::linorder, 'p) pgm_type \<Rightarrow> 'k item \<Rightarrow> 'k \<Rightarrow> ('k, 'p) dpgm \<Rightarrow> ('k, 'p) dpgm option" where
  "dpgm_erase pm junk key s = map_option fst (insert_item pm junk (Item_erase key) s)"

section \<open>Searching\<close>

text \<open>
  The range of a level in which a key is searched, and \<open>std::lower_bound\<close> in it: the position of
  the first item that is not below the key.
\<close>

definition search_range :: "('k, 'p) pgm_type \<Rightarrow> ('k, 'p) dpgm \<Rightarrow> nat \<Rightarrow> 'k \<Rightarrow> nat \<times> nat" where
  "search_range pm s i key =
     (if MinIndexedLevel pm \<le> i then pgm_search pm (pgms s ! (i - MinIndexedLevel pm)) key
      else (0, length (level s i)))"

definition level_lower_bound :: "('k::linorder, 'p) pgm_type \<Rightarrow> ('k, 'p) dpgm \<Rightarrow> nat \<Rightarrow> 'k \<Rightarrow> nat" where
  "level_lower_bound pm s i key =
     (let (lo, hi) = search_range pm s i key
      in lo + rank_less key (map fst (take (hi - lo) (drop lo (level s i)))))"

text \<open>An iterator is a level number and a position in it; \<open>end()\<close> is \<open>None\<close>.\<close>

type_synonym iter = "(nat \<times> nat) option"

function find_loop :: "('k::linorder, 'p) pgm_type \<Rightarrow> ('k, 'p) dpgm \<Rightarrow> 'k \<Rightarrow> nat \<Rightarrow> iter" where
  "find_loop pm s key i =
     (if i < used_levels s then
        if level s i = [] then find_loop pm s key (i + 1)
        else let it = level_lower_bound pm s i key in
          if it < length (level s i) \<and> fst (level s i ! it) = key
          then (if deleted (level s i ! it) then None else Some (i, it))
          else find_loop pm s key (i + 1)
      else None)"
  by pat_completeness auto
termination
  by (relation "measure (\<lambda>(pm, s, key, i). used_levels s - i)") auto

declare find_loop.simps [simp del]

definition dpgm_find :: "('k::linorder, 'p) pgm_type \<Rightarrow> ('k, 'p) dpgm \<Rightarrow> 'k \<Rightarrow> iter" where
  "dpgm_find pm s key = find_loop pm s key min_level"

definition item_at :: "('k, 'p) dpgm \<Rightarrow> nat \<times> nat \<Rightarrow> 'k item" where
  "item_at s p = level s (fst p) ! snd p"

definition dpgm_count :: "('k::linorder, 'p) pgm_type \<Rightarrow> ('k, 'p) dpgm \<Rightarrow> 'k \<Rightarrow> nat" where
  "dpgm_count pm s key = (if dpgm_find pm s key = None then 0 else 1)"

text \<open>
  \<open>lower_bound\<close>: in each level the items marked as deleted that follow the bound are noted, then
  the first item is taken that is below the best so far and whose key is not noted.
\<close>

definition better :: "('k::linorder, 'p) dpgm \<Rightarrow> iter \<Rightarrow> 'k set \<Rightarrow> 'k item \<Rightarrow> bool" where
  "better s lb del x \<longleftrightarrow> (case lb of None \<Rightarrow> True | Some p \<Rightarrow> fst x < fst (item_at s p)) \<and> fst x \<notin> del"

function lower_bound_loop ::
  "('k::linorder, 'p) pgm_type \<Rightarrow> ('k, 'p) dpgm \<Rightarrow> 'k \<Rightarrow> nat \<Rightarrow> 'k set \<Rightarrow> iter \<Rightarrow> iter" where
  "lower_bound_loop pm s key i del lb =
     (if i < used_levels s then
        if level s i = [] then lower_bound_loop pm s key (i + 1) del lb
        else
          let it = level_lower_bound pm s i key;
              dels = takeWhile deleted (drop it (level s i));
              del' = del \<union> set (map fst dels);
              it' = it + length dels;
              skipped = takeWhile (\<lambda>x. \<not> better s lb del' x) (drop it' (level s i));
              it'' = it' + length skipped
          in lower_bound_loop pm s key (i + 1) del' (if it'' < length (level s i) then Some (i, it'') else lb)
      else lb)"
  by pat_completeness auto
termination
  by (relation "measure (\<lambda>(pm, s, key, i, del, lb). used_levels s - i)") auto

declare lower_bound_loop.simps [simp del]

definition dpgm_lower_bound :: "('k::linorder, 'p) pgm_type \<Rightarrow> ('k, 'p) dpgm \<Rightarrow> 'k \<Rightarrow> iter" where
  "dpgm_lower_bound pm s key = lower_bound_loop pm s key min_level {} None"

end
