(* ===== verification/PGM_Correct.thy ===== *)
theory PGM_Correct
  imports PGM_Dynamic
begin

text \<open>
  Correctness of the dynamic PGM-index: the invariant of the levels (sorted, no bigger than their
  capacity, more than half full from the second merged level on, empty above the used ones, a
  current static index on every big level), that every insert and erase keeps it and updates the
  map the levels stand for, and that \<open>find\<close> reads that map.
\<close>

section \<open>Merging\<close>

lemma merge_keys: "fst ` set (merge False xs ys) = fst ` set xs \<union> fst ` set ys"
  by (induction "False" xs ys rule: merge.induct) auto

lemma merge_length: "length (merge sk xs ys) \<le> length xs + length ys"
  by (induction sk xs ys rule: merge.induct) auto

lemma skeys_Cons_keys: "skeys (z # xs) \<longleftrightarrow> (\<forall>k\<in>fst ` set xs. fst z < k) \<and> skeys xs"
  by simp

lemma merge_sorted: "skeys xs \<Longrightarrow> skeys ys \<Longrightarrow> skeys (merge False xs ys)"
proof (induction "False" xs ys rule: merge.induct)
  case (1 x xs y ys)
  have m: "skeys (z # merge False as bs)"
    if "skeys (merge False as bs)" "\<forall>k\<in>fst ` set as. fst z < k" "\<forall>k\<in>fst ` set bs. fst z < k"
    for z and as bs :: "'a item list"
    unfolding skeys_Cons_keys merge_keys using that by blast
  consider "fst y < fst x" | "fst x < fst y" | "fst x = fst y" by fastforce
  then show ?case
  proof cases
    case 1
    with "1.hyps"(1) "1.prems" have "skeys (y # merge False (x # xs) ys)"
      by (intro m) auto
    with 1 show ?thesis by simp
  next
    case 2
    then have n: "\<not> fst y < fst x" by simp
    with 2 "1.hyps"(2) "1.prems" have "skeys (x # merge False xs (y # ys))" by (intro m) auto
    with 2 n show ?thesis by simp
  next
    case 3
    with "1.hyps"(4) "1.prems" have "skeys (x # merge False xs ys)" by (intro m) auto
    with 3 show ?thesis by simp
  qed
qed auto

lemma merge_map:
  "skeys xs \<Longrightarrow> skeys ys \<Longrightarrow> map_of (merge False xs ys) = map_of ys ++ map_of xs"
proof (induction "False" xs ys rule: merge.induct)
  case (1 x xs y ys)
  have x: "map_of xs (fst x) = None" and y: "map_of ys (fst y) = None"
    using 1(5,6) map_of_None_lower [of xs "fst x"] map_of_None_lower [of ys "fst y"] by auto
  consider "fst y < fst x" | "fst x < fst y" | "fst x = fst y" by fastforce
  then show ?case
  proof cases
    case 1
    moreover have "map_of xs (fst y) = None"
      using 1 "1.prems" by (intro map_of_None_lower) fastforce
    ultimately show ?thesis using "1.hyps"(1) "1.prems" by (auto simp: map_add_def fun_eq_iff split: option.split)
  next
    case 2
    then show ?thesis using "1.hyps"(2) "1.prems" by (auto simp: map_add_def fun_eq_iff split: option.split)
  next
    case 3
    then show ?thesis using "1.hyps"(4) "1.prems" by (auto simp: map_add_def fun_eq_iff split: option.split)
  qed
qed auto

text \<open>Merging level after level into a run of items.\<close>

fun merge_run :: "'k::linorder item list \<Rightarrow> 'k item list list \<Rightarrow> 'k item list" where
  "merge_run cur [] = cur"
| "merge_run cur (l # ls) = merge_run (merge False cur l) ls"

lemma merge_run_spec:
  "skeys cur \<Longrightarrow> \<forall>l\<in>set ls. skeys l \<Longrightarrow>
   skeys (merge_run cur ls) \<and> map_of (merge_run cur ls) = map_of (cur @ concat ls)
   \<and> length (merge_run cur ls) \<le> length cur + length (concat ls)"
proof (induction cur ls rule: merge_run.induct)
  case (2 cur l ls)
  then show ?case using merge_sorted [of cur l] merge_map [of cur l] merge_length [of False cur l] by simp
qed simp

section \<open>Sizes\<close>

lemma bitlen_bounds: "0 < n \<Longrightarrow> n < 2 ^ bitlen n \<and> 2 ^ bitlen n \<le> 2 * n"
proof (induction n rule: bitlen.induct)
  case (1 n)
  show ?case
  proof (cases "n div 2 = 0")
    case True
    with 1 have "n = 1" by auto
    then show ?thesis by (simp add: bitlen.simps)
  next
    case False
    with 1 have IH: "n div 2 < 2 ^ bitlen (n div 2)" "2 ^ bitlen (n div 2) \<le> 2 * (n div 2)" by auto
    then show ?thesis using 1 by (auto simp: bitlen.simps [of n])
  qed
qed

lemma ceil_log2_bounds: "1 < n \<Longrightarrow> n \<le> 2 ^ ceil_log2 n \<and> 2 ^ ceil_log2 n < 2 * n"
  using bitlen_bounds [of "n - 1"] by (auto simp: ceil_log2_def)

lemma ceil_log2_le: "n \<le> 2 ^ k \<Longrightarrow> ceil_log2 n \<le> k"
proof (cases "1 < n")
  case True
  assume "n \<le> 2 ^ k"
  with ceil_log2_bounds [OF True] have "(2::nat) ^ ceil_log2 n < 2 ^ Suc k" by simp
  then show ?thesis using power_less_imp_less_exp [of "2::nat" "ceil_log2 n" "Suc k"] by simp
qed (simp add: ceil_log2_def)

section \<open>The merge loop\<close>

definition clear_levels :: "nat \<Rightarrow> nat \<Rightarrow> 'a list list \<Rightarrow> 'a list list" where
  "clear_levels i limit lvs =
     take (i - min_level) lvs @ replicate (Suc limit - i) [] @ drop (Suc limit - min_level) lvs"

lemma parity_alternates: "Suc a mod 2 = b mod 2 \<longleftrightarrow> a mod 2 \<noteq> b mod (2::nat)"
  by presburger

lemma merge_loop_run:
  assumes "min_level < i" and "i \<le> Suc limit" and "limit - min_level < length lvs" and "limit < used - 1"
    and "md = (limit - min_level) mod 2"
    and "take n (if (i - min_level) mod 2 = md then a else b) = cur" and "n = length cur"
    and "n + length (concat (take (Suc limit - i) (drop (i - min_level) lvs))) \<le> length a"
    and "n + length (concat (take (Suc limit - i) (drop (i - min_level) lvs))) \<le> length b"
  shows "\<exists>a' b' ps'. merge_loop pm md used limit i a b n lvs ps =
      Some (a', b', length (merge_run cur (take (Suc limit - i) (drop (i - min_level) lvs))), clear_levels i limit lvs, ps')
    \<and> take (length (merge_run cur (take (Suc limit - i) (drop (i - min_level) lvs)))) b'
        = merge_run cur (take (Suc limit - i) (drop (i - min_level) lvs))
    \<and> length (merge_run cur (take (Suc limit - i) (drop (i - min_level) lvs))) \<le> length b'
    \<and> length ps' = length ps
    \<and> (\<forall>j. MinIndexedLevel pm \<le> j \<and> (j < i \<or> limit < j) \<longrightarrow> ps' ! (j - MinIndexedLevel pm) = ps ! (j - MinIndexedLevel pm))"
  using assms
proof (induction "Suc limit - i" arbitrary: i a b n cur lvs ps)
  case 0
  then have i: "i = Suc limit" by simp
  then have "(i - min_level) mod 2 \<noteq> md" using "0.prems" by (auto simp: Suc_diff_le mod_Suc)
  moreover have "merge_loop pm md used limit i a b n lvs ps = Some (a, b, n, lvs, ps)"
    using i by (subst merge_loop.simps) simp
  ultimately show ?case using 0 i by (auto simp: clear_levels_def)
next
  case (Suc m)
  let ?alt = "(i - min_level) mod 2 = md"
  define L where "L = lvs ! (i - min_level)"
  define out where "out = merge False cur L"
  define lvs1 where "lvs1 = lvs[i - min_level := []]"
  define ps1 where "ps1 = (if MinIndexedLevel pm \<le> i then ps[i - MinIndexedLevel pm := pgm_none pm] else ps)"
  define rest where "rest = take m (drop (Suc i - min_level) lvs)"
  have i: "i \<le> limit" "m = Suc limit - Suc i" "i - min_level < length lvs" "Suc i - min_level = Suc (i - min_level)"
    using Suc.hyps(2) Suc.prems(1,3) by auto
  have dr: "take (Suc limit - i) (drop (i - min_level) lvs) = L # rest"
    using i by (simp add: L_def rest_def Cons_nth_drop_Suc [symmetric] Suc_diff_le)
  have len: "length out \<le> n + length L" using merge_length [of False cur L] Suc.prems(7) by (simp add: out_def)
  define a1 where "a1 = (if ?alt then a else out @ drop (length out) a)"
  define b1 where "b1 = (if ?alt then out @ drop (length out) b else b)"
  have la: "length a1 = length a" "length b1 = length b"
    using len Suc.prems(8,9) dr by (auto simp: a1_def b1_def)
  have "(i = used - 1) = False" using i Suc.prems(4) by simp
  then have mrg: "merge (i = used - 1) (take n (if ?alt then a else b)) L = out"
    by (simp only: Suc.prems(6) out_def)
  have pb: "put_buf out (if ?alt then b else a) = Some (if ?alt then b1 else a1)"
    using len Suc.prems(8,9) dr by (auto simp: put_buf_def a1_def b1_def)
  have sel: "(if ?alt then a else if ?alt then b1 else a1) = a1" "(if ?alt then if ?alt then b1 else a1 else b) = b1"
    by (simp_all add: a1_def b1_def)
  have unf: "merge_loop pm md used limit i a b n lvs ps = merge_loop pm md used limit (i + 1) a1 b1 (length out) lvs1 ps1"
    by (subst merge_loop.simps) (simp only: i(1) if_True Let_def L_def [symmetric] mrg pb option.case sel
        lvs1_def [symmetric] ps1_def [symmetric])
  have par: "(Suc i - min_level) mod 2 = md \<longleftrightarrow> \<not> ?alt"
    unfolding i(4) Suc.prems(5) by (rule parity_alternates)
  have cur1: "take (length out) (if (Suc i - min_level) mod 2 = md then a1 else b1) = out"
    unfolding par by (simp add: a1_def b1_def)
  have rest1: "take (Suc limit - Suc i) (drop (Suc i - min_level) lvs1) = rest"
    using i by (simp add: rest_def lvs1_def)
  have clr: "clear_levels (Suc i) limit lvs1 = clear_levels i limit lvs"
    using i by (simp add: clear_levels_def lvs1_def take_Suc_conv_app_nth Suc_diff_le)
  have run: "merge_run out rest = merge_run cur (L # rest)" by (simp add: out_def)
  have "\<exists>a' b' ps'. merge_loop pm md used limit (Suc i) a1 b1 (length out) lvs1 ps1 =
      Some (a', b', length (merge_run out rest), clear_levels i limit lvs, ps')
    \<and> take (length (merge_run out rest)) b' = merge_run out rest \<and> length (merge_run out rest) \<le> length b'
    \<and> length ps' = length ps1
    \<and> (\<forall>j. MinIndexedLevel pm \<le> j \<and> (j < Suc i \<or> limit < j) \<longrightarrow> ps' ! (j - MinIndexedLevel pm) = ps1 ! (j - MinIndexedLevel pm))"
    using Suc.hyps(1) [of "Suc i" lvs1 "length out" a1 b1 out ps1, unfolded rest1 clr] i Suc.prems(1-5,8,9) cur1 len la dr
    by (simp add: lvs1_def)
  moreover have "length ps1 = length ps" by (simp add: ps1_def)
  moreover have "\<forall>j. MinIndexedLevel pm \<le> j \<and> (j < i \<or> limit < j) \<longrightarrow> ps1 ! (j - MinIndexedLevel pm) = ps ! (j - MinIndexedLevel pm)"
    using i(1) by (auto simp: ps1_def nth_list_update)
  ultimately show ?case unfolding unf Suc_eq_plus1 [symmetric] dr run [symmetric] by (metis less_Suc_eq)
qed

section \<open>The invariant\<close>

definition level_ok :: "nat \<Rightarrow> nat \<Rightarrow> 'k::linorder item list \<Rightarrow> bool" where
  "level_ok used i l \<longleftrightarrow> skeys l \<and> (used \<le> i \<longrightarrow> l = []) \<and> length l \<le> (if i = min_level then buffer_max_size else 2 ^ i)
     \<and> (min_level + 2 \<le> i \<longrightarrow> l = [] \<or> 2 ^ (i - 1) < length l)"

definition dp_inv :: "('k::linorder, 'p) pgm_type \<Rightarrow> ('k, 'p) dpgm \<Rightarrow> bool" where
  "dp_inv pm s \<longleftrightarrow> min_level < MinIndexedLevel pm \<and> min_level \<le> used_levels s \<and> levels s \<noteq> []
     \<and> used_levels s \<le> min_level + length (levels s)
     \<and> length (pgms s) = used_levels s - MinIndexedLevel pm
     \<and> (\<forall>j<length (levels s). level_ok (used_levels s) (min_level + j) (levels s ! j))
     \<and> (\<forall>i. MinIndexedLevel pm \<le> i \<and> i < used_levels s \<and> level s i \<noteq> []
          \<longrightarrow> pgms s ! (i - MinIndexedLevel pm) = pgm_build pm (level s i))"

text \<open>The items that count: of equal keys the one in the lowest level.\<close>

definition dp_raw :: "('k, 'p) dpgm \<Rightarrow> 'k \<rightharpoonup> u64" where
  "dp_raw s = map_of (concat (levels s))"

definition dp_map :: "('k, 'p) dpgm \<Rightarrow> 'k \<rightharpoonup> u64" where
  "dp_map s k = (case dp_raw s k of None \<Rightarrow> None | Some v \<Rightarrow> if v = tombstone then None else Some v)"

lemma dp_inv_level:
  assumes "dp_inv pm s" and "min_level \<le> i" and "i < used_levels s"
  shows "level_ok (used_levels s) i (level s i)" and "i - min_level < length (levels s)"
proof -
  show l: "i - min_level < length (levels s)" using assms by (auto simp: dp_inv_def)
  with assms show "level_ok (used_levels s) i (level s i)"
    unfolding dp_inv_def level_def by (metis le_add_diff_inverse)
qed

text \<open>The search for a level: the level found is empty or new, and everything below fits.\<close>

lemma find_slots_spec:
  assumes "dp_inv pm s" and "min_level < i" and "i \<le> used_levels s"
    and "slots = buffer_max_size + 1 + length (concat (take (i - 1 - min_level) (drop 1 (levels s))))"
    and "2 ^ (i - 1) < slots" and "slots \<le> 2 ^ i"
  shows "\<exists>j. find_slots s i slots = (j, buffer_max_size + 1 + length (concat (take (j - 1 - min_level) (drop 1 (levels s)))))
    \<and> i \<le> j \<and> j \<le> used_levels s \<and> (j < used_levels s \<longrightarrow> level s j = [])
    \<and> buffer_max_size + 1 + length (concat (take (j - 1 - min_level) (drop 1 (levels s)))) \<le> 2 ^ j"
  using assms
proof (induction "used_levels s - i" arbitrary: i slots)
  case 0
  then have "find_slots s i slots = (i, slots)" by (subst find_slots.simps) simp
  with 0 show ?case by auto
next
  case (Suc n)
  have i: "i < used_levels s" using Suc.hyps(2) by simp
  note lv = dp_inv_level [OF Suc.prems(1) less_imp_le [OF Suc.prems(2)] i]
  show ?case
  proof (cases "slots \<le> 2 ^ i - length (level s i)")
    case True
    then have "find_slots s i slots = (i, slots)" using i by (subst find_slots.simps) simp
    moreover have "level s i = []"
    proof (rule ccontr)
      assume ne: "level s i \<noteq> []"
      show False
      proof (cases "min_level + 2 \<le> i")
        case True
        with lv(1) ne have "2 ^ (i - 1) < length (level s i)" by (simp add: level_ok_def)
        moreover have "(2::nat) ^ i = 2 * 2 ^ (i - 1)" using Suc.prems(2) by (cases i) auto
        ultimately show False using \<open>slots \<le> 2 ^ i - length (level s i)\<close> Suc.prems(5) by linarith
      next
        case False
        then have "i = min_level + 1" using Suc.prems(2) by simp
        then have "slots = 2 ^ i" using Suc.prems(4) by (simp add: buffer_max_size_def)
        moreover have "0 < length (level s i)" "(0::nat) < 2 ^ i" using ne by auto
        ultimately show False using \<open>slots \<le> 2 ^ i - length (level s i)\<close> by linarith
      qed
    qed
    ultimately show ?thesis using Suc.prems i by auto
  next
    case False
    let ?sl = "slots + length (level s i)"
    have unf: "find_slots s i slots = find_slots s (Suc i) ?sl" using i False by (subst find_slots.simps) simp
    have len: "length (level s i) \<le> 2 ^ i" using lv(1) Suc.prems(2) by (simp add: level_ok_def)
    have "take (Suc i - 1 - min_level) (drop 1 (levels s)) = take (i - 1 - min_level) (drop 1 (levels s)) @ [level s i]"
      using Suc.prems(2) lv(2) by (auto simp: level_def take_Suc_conv_app_nth Suc_diff_Suc dest!: less_imp_Suc_add)
    then have sl: "?sl = buffer_max_size + 1 + length (concat (take (Suc i - 1 - min_level) (drop 1 (levels s))))"
      using Suc.prems(4) by simp
    have "2 ^ (Suc i - 1) < ?sl" "?sl \<le> 2 ^ Suc i" using False len Suc.prems(6) by auto
    moreover have "n = used_levels s - Suc i" "min_level < Suc i" "Suc i \<le> used_levels s"
      using Suc.hyps(2) Suc.prems(2) i by auto
    ultimately show ?thesis using Suc.hyps(1) [of "Suc i" ?sl] Suc.prems(1) sl
      unfolding unf by (meson Suc_leD)
  qed
qed

section \<open>Inserts\<close>

text \<open>The levels after a merge into level \<open>t\<close> of everything below level \<open>i\<close>.\<close>

definition merged_levels :: "nat \<Rightarrow> nat \<Rightarrow> 'k item list \<Rightarrow> 'k item list list \<Rightarrow> 'k item list list" where
  "merged_levels i t M lvs = (replicate (Suc i - min_level) [])[t - min_level := M] @ drop (Suc i - min_level) lvs"

lemma clear_levels_merged:
  assumes "min_level < i" and "i - min_level < length lvs" and "lvs ! (i - min_level) = []"
    and "min_level < t" and "t \<le> i"
  shows "(clear_levels (1 + min_level) (i - 1) lvs)[0 := [], t - min_level := M] = merged_levels i t M lvs"
proof -
  obtain d where d: "i = min_level + Suc d" using assms(1) less_imp_Suc_add by fastforce
  obtain l0 ls where l: "lvs = l0 # ls" using assms(2) by (cases lvs) auto
  have "drop d ls = [] # drop (Suc d) ls" using assms(2,3) d l by (simp add: Cons_nth_drop_Suc [symmetric])
  then have "(clear_levels (1 + min_level) (i - 1) lvs)[0 := []] = replicate (Suc (Suc d)) [] @ drop (Suc d) ls"
    using d l by (simp add: clear_levels_def) (metis append_Cons replicate_append_same append_assoc append_Nil)
  moreover have "t - min_level < Suc (Suc d)" using assms(4,5) d by simp
  ultimately show ?thesis using d l
    by (simp add: merged_levels_def list_update_append del: replicate_Suc)
qed

lemma concat_merged:
  "min_level < t \<Longrightarrow> t \<le> i \<Longrightarrow> concat (merged_levels i t M lvs) = M @ concat (drop (Suc i - min_level) lvs)"
proof -
  have "concat ((replicate n [])[j := M]) = M" if "j < n" for n j
    using that by (induction n arbitrary: j) (auto split: nat.split simp: concat_replicate_trivial)
  then show "min_level < t \<Longrightarrow> t \<le> i \<Longrightarrow> ?thesis" by (simp add: merged_levels_def)
qed

lemma nth_merged:
  assumes "min_level < t" and "t \<le> i" and "i - min_level < length lvs" and "j < length lvs"
  shows "merged_levels i t M lvs ! j = (if j = t - min_level then M else if j \<le> i - min_level then [] else lvs ! j)"
    and "length (merged_levels i t M lvs) = length lvs"
  using assms by (auto simp: merged_levels_def nth_append nth_list_update)

lemma pairwise_merge_spec:
  assumes "min_level < i" and "i - min_level < length (levels s)" and "level s i = []" and "i < used_levels s"
    and "length (levels s ! 0) = buffer_max_size" and "idx \<le> buffer_max_size"
    and "slots = buffer_max_size + 1 + length (concat (take (i - 1 - min_level) (drop 1 (levels s))))"
    and "first = take idx (levels s ! 0) @ x # drop idx (levels s ! 0)"
    and "M = merge_run first (take (i - 1 - min_level) (drop 1 (levels s)))"
    and "t = max (ceil_log2 (length M)) (min_level + 1)" and "t \<le> i"
  shows "\<exists>ps. pairwise_merge pm junk x (i - 1) slots idx s = Some (s\<lparr>levels := merged_levels i t M (levels s), pgms := ps\<rparr>)
    \<and> length ps = length (pgms s)
    \<and> (MinIndexedLevel pm \<le> t \<longrightarrow> t - MinIndexedLevel pm < length ps \<longrightarrow> ps ! (t - MinIndexedLevel pm) = pgm_build pm M)
    \<and> (\<forall>j>i. MinIndexedLevel pm \<le> j \<longrightarrow> ps ! (j - MinIndexedLevel pm) = pgms s ! (j - MinIndexedLevel pm))"
proof -
  let ?md = "(i - 1 - min_level) mod 2"
  let ?ls = "take (i - 1 - min_level) (drop 1 (levels s))"
  have lf: "length first = buffer_max_size + 1" using assms(5,6,8) by simp
  have bm: "2 ^ (1 + min_level) = buffer_max_size + 1" by (simp add: buffer_max_size_def)
  have tgt: "level s (i - 1 + 1) = []" using assms(1,3) by simp
  have sl: "length first \<le> slots" using lf assms(7) by simp
  define buf where "buf = first @ drop (length first) (replicate slots junk)"
  define a where "a = (if ?md \<noteq> 0 then buf else replicate slots junk)"
  define b where "b = (if ?md \<noteq> 0 then replicate slots junk else buf)"
  have ls: "take (Suc (i - 1) - (1 + min_level)) (drop (1 + min_level - min_level) (levels s)) = ?ls"
    using assms(1) by simp
  have cur: "take (length first) (if (1 + min_level - min_level) mod 2 = ?md then a else b) = first"
  proof (cases "?md = 0")
    case False
    then have "?md = 1" by simp
    then show ?thesis by (simp add: a_def buf_def)
  qed (simp add: b_def buf_def)
  have lab: "length a = slots" "length b = slots" using sl by (auto simp: a_def b_def buf_def)
  have pr: "min_level < 1 + min_level" "1 + min_level \<le> Suc (i - 1)" "i - 1 - min_level < length (levels s)"
    "i - 1 < used_levels s - 1" "length first + length (concat ?ls) \<le> length a"
    "length first + length (concat ?ls) \<le> length b"
    using assms(1,2,4,7) lab lf by auto
  from merge_loop_run [OF pr(1-4) refl cur refl, unfolded ls, OF pr(5,6), of pm "pgms s", folded assms(9)]
  obtain a' b' ps' where m: "merge_loop pm ?md (used_levels s) (i - 1) (1 + min_level) a b (length first) (levels s) (pgms s) =
      Some (a', b', length M, clear_levels (1 + min_level) (i - 1) (levels s), ps')"
    "take (length M) b' = M" "length M \<le> length b'" "length ps' = length (pgms s)"
    "\<forall>j. MinIndexedLevel pm \<le> j \<and> (j < 1 + min_level \<or> i - 1 < j) \<longrightarrow> ps' ! (j - MinIndexedLevel pm) = pgms s ! (j - MinIndexedLevel pm)"
    by blast
  let ?ps = "if MinIndexedLevel pm \<le> t then ps'[t - MinIndexedLevel pm := pgm_build pm M] else ps'"
  have pb: "put_buf first (replicate slots junk) = Some buf" using sl by (simp add: put_buf_def buf_def)
  have rs: "resize junk (length M) b' = M" using m(2,3) by (simp add: resize_def)
  have "pairwise_merge pm junk x (i - 1) slots idx s = Some (s\<lparr>levels := (clear_levels (1 + min_level) (i - 1) (levels s))[0 := [], t - min_level := M], pgms := ?ps\<rparr>)"
    using m(1) unfolding pairwise_merge_def Let_def tgt list.size add_0_right assms(8) [symmetric] pb bm
    by (simp add: a_def b_def lf rs pb assms(10))
  then show ?thesis
    using clear_levels_merged [OF assms(1,2), of t M] assms(3,10,11) m(4,5)
    by (intro exI [of _ ?ps]) (auto simp: level_def nth_list_update)
qed

lemma map_of_kv_insert_new:
  "skeys l \<Longrightarrow> k \<notin> fst ` set l \<Longrightarrow> map_of (kv_insert k v l @ xs) = (map_of (l @ xs))(k \<mapsto> v)"
  by (simp add: map_of_kv_insert map_of_eq_None_iff)

lemma level_ok_target:
  assumes "skeys M" and "t = max (ceil_log2 (length M)) (min_level + 1)" and "t < used"
  shows "level_ok used t M"
proof -
  have "length M \<le> 2 ^ t"
  proof (cases "1 < length M")
    case True
    have "length M \<le> 2 ^ ceil_log2 (length M)" using ceil_log2_bounds [OF True] by simp
    also have "\<dots> \<le> 2 ^ t" using assms(2) by (intro power_increasing) auto
    finally show ?thesis .
  next
    case False
    then show ?thesis using one_le_power [of "2::nat" t] by linarith
  qed
  moreover have "2 ^ (t - 1) < length M" if "min_level + 2 \<le> t"
  proof -
    have "ceil_log2 (length M) = t" "1 < length M"
      using that assms(2) by (auto simp: max_def ceil_log2_def split: if_splits)
    then have "2 ^ t < 2 * length M" using ceil_log2_bounds by blast
    moreover have "(2::nat) ^ t = 2 * 2 ^ (t - 1)" using that by (cases t) auto
    ultimately show ?thesis by linarith
  qed
  moreover have "t \<noteq> min_level" using assms(2) by simp
  ultimately show ?thesis using assms(1,3) by (simp add: level_ok_def)
qed

lemma merge_step:
  assumes inv: "dp_inv pm s" and j: "min_level < j" "j < used_levels s" and emp: "level s j = []"
    and full: "length (levels s ! 0) = buffer_max_size" and new: "k \<notin> fst ` set (levels s ! 0)"
    and idx: "idx = rank_less k (map fst (levels s ! 0))"
    and slots: "slots = buffer_max_size + 1 + length (concat (take (j - 1 - min_level) (drop 1 (levels s))))"
    and fit: "slots \<le> 2 ^ j"
  shows "\<exists>s'. pairwise_merge pm junk (k, v) (j - 1) slots idx s = Some s' \<and> dp_inv pm s'
    \<and> dp_raw s' = (dp_raw s)(k \<mapsto> v)"
proof -
  let ?l0 = "levels s ! 0" and ?ls = "take (j - 1 - min_level) (drop 1 (levels s))"
  define first where "first = take idx ?l0 @ (k, v) # drop idx ?l0"
  define M where "M = merge_run first ?ls"
  define t where "t = max (ceil_log2 (length M)) (min_level + 1)"
  have ne: "levels s \<noteq> []" using inv by (simp add: dp_inv_def)
  have ok: "\<forall>i<length (levels s). level_ok (used_levels s) (min_level + i) (levels s ! i)"
    using inv by (simp add: dp_inv_def)
  then have sk: "\<forall>l\<in>set (levels s). skeys l" by (metis in_set_conv_nth level_ok_def)
  have jl: "j - min_level < length (levels s)" using dp_inv_level(2) [OF inv _ j(2)] j(1) by simp
  have f: "first = kv_insert k v ?l0" using kv_insert_at_rank [OF new idx] by (simp add: first_def)
  have s0: "skeys ?l0" using sk ne by simp
  have "skeys first" "\<forall>l\<in>set ?ls. skeys l" using s0 sk by (simp_all add: f skeys_kv_insert) (meson in_set_dropD in_set_takeD)
  from merge_run_spec [OF this, folded M_def]
  have M: "skeys M" "map_of M = map_of (first @ concat ?ls)" "length M \<le> 2 ^ j"
    using fit full new by (auto simp: f length_kv_insert_new slots)
  have t: "min_level < t" "t \<le> j" using ceil_log2_le [OF M(3)] j(1) by (auto simp: t_def)
  have ix: "idx \<le> buffer_max_size" using rank_less_le_length [of k "map fst ?l0"] full idx by simp
  from pairwise_merge_spec [OF j(1) jl emp j(2) full ix slots first_def M_def t_def t(2), of pm junk]
  obtain ps where ps: "pairwise_merge pm junk (k, v) (j - 1) slots idx s = Some (s\<lparr>levels := merged_levels j t M (levels s), pgms := ps\<rparr>)"
    "length ps = length (pgms s)"
    "MinIndexedLevel pm \<le> t \<longrightarrow> t - MinIndexedLevel pm < length ps \<longrightarrow> ps ! (t - MinIndexedLevel pm) = pgm_build pm M"
    "\<forall>i>j. MinIndexedLevel pm \<le> i \<longrightarrow> ps ! (i - MinIndexedLevel pm) = pgms s ! (i - MinIndexedLevel pm)" by blast
  let ?s = "s\<lparr>levels := merged_levels j t M (levels s), pgms := ps\<rparr>"
  have lev: "level ?s i = (if i = t then M else if i \<le> j then [] else level s i)"
    if "min_level \<le> i" "i - min_level < length (levels s)" for i
    using nth_merged(1) [OF t jl that(2), of M] that(1) t j(1) by (auto simp: level_def)
  have len: "length (levels ?s) = length (levels s)" using nth_merged(2) [OF t jl jl] by simp
  have "level_ok (used_levels s) t M" using level_ok_target [OF M(1) t_def] t j(2) by simp
  then have lok: "level_ok (used_levels s) (min_level + i) (levels ?s ! i)" if "i < length (levels s)" for i
    using lev [of "min_level + i"] ok that by (simp add: level_def) (simp add: level_ok_def)
  have pg: "ps ! (i - MinIndexedLevel pm) = pgm_build pm (level ?s i)"
    if i: "MinIndexedLevel pm \<le> i" "i < used_levels s" "level ?s i \<noteq> []" for i
  proof -
    have mi: "min_level \<le> i" "i - min_level < length (levels s)" "length ps = used_levels s - MinIndexedLevel pm"
      using inv i ps(2) by (auto simp: dp_inv_def)
    consider "i = t" | "j < i" "i \<noteq> t" using i(3) lev [OF mi(1,2)] by (cases "i = t"; cases "i \<le> j") auto
    then show ?thesis
    proof cases
      case 1
      with ps(3) i mi lev [OF mi(1,2)] show ?thesis by simp
    next
      case 2
      with ps(4) i mi lev [OF mi(1,2)] inv show ?thesis by (simp add: dp_inv_def)
    qed
  qed
  have "dp_inv pm ?s" using inv len lok pg ps(2) ne by (auto simp: dp_inv_def simp del: length_0_conv)
  moreover have "dp_raw ?s = (dp_raw s)(k \<mapsto> v)"
  proof -
    have "drop 1 (levels s) = ?ls @ drop (j - min_level) (levels s)"
    proof -
      obtain d where "j = min_level + Suc d" using j(1) less_imp_Suc_add by fastforce
      then show ?thesis using append_take_drop_id [of d "drop 1 (levels s)"] by (simp add: drop_Suc)
    qed
    moreover have "drop (j - min_level) (levels s) = [] # drop (Suc j - min_level) (levels s)"
      using jl emp j(1) by (simp add: level_def Cons_nth_drop_Suc [symmetric] Suc_diff_le)
    moreover have "levels s = ?l0 # drop 1 (levels s)" using ne by (cases "levels s") auto
    ultimately have "concat (levels s) = ?l0 @ concat ?ls @ concat (drop (Suc j - min_level) (levels s))"
      by (metis append_Nil concat.simps(2) concat_append)
    with concat_merged [OF t, of M "levels s"] M(2) map_of_kv_insert_new [OF s0 new]
    show ?thesis by (simp add: dp_raw_def f)
  qed
  ultimately show ?thesis using ps(1) by blast
qed

text \<open>A new level at the top.\<close>

definition add_level :: "('k, 'p) pgm_type \<Rightarrow> ('k, 'p) dpgm \<Rightarrow> ('k, 'p) dpgm" where
  "add_level pm s = s\<lparr>used_levels := used_levels s + 1, levels := levels s @ [[]],
     pgms := (if int (used_levels s) - int (MinIndexedLevel pm) \<ge> int (length (pgms s))
              then pgms s @ [pgm_none pm] else pgms s)\<rparr>"

lemma add_level_spec:
  assumes inv: "dp_inv pm s"
  shows "dp_inv pm (add_level pm s)" and "level (add_level pm s) (used_levels s) = []"
    and "levels (add_level pm s) ! 0 = levels s ! 0" and "dp_raw (add_level pm s) = dp_raw s"
    and "used_levels (add_level pm s) = used_levels s + 1"
    and "take (used_levels s - 1 - min_level) (drop 1 (levels (add_level pm s))) = take (used_levels s - 1 - min_level) (drop 1 (levels s))"
proof -
  let ?u = "used_levels s" and ?s = "add_level pm s"
  have u: "min_level \<le> ?u" "?u \<le> min_level + length (levels s)" and ne: "levels s \<noteq> []"
    and ok: "\<forall>i<length (levels s). level_ok ?u (min_level + i) (levels s ! i)"
    and lp: "length (pgms s) = ?u - MinIndexedLevel pm"
    and pg: "\<forall>i. MinIndexedLevel pm \<le> i \<and> i < ?u \<and> level s i \<noteq> [] \<longrightarrow> pgms s ! (i - MinIndexedLevel pm) = pgm_build pm (level s i)"
    and mi: "min_level < MinIndexedLevel pm"
    using inv by (auto simp: dp_inv_def)
  have lev: "level ?s i = (if i - min_level < length (levels s) then level s i else [])"
    if "i - min_level \<le> length (levels s)" for i
    using that by (simp add: add_level_def level_def nth_append)
  show top: "level ?s ?u = []"
  proof (cases "?u - min_level < length (levels s)")
    case True
    then have "level_ok ?u ?u (level s ?u)" using ok u(1) by (metis le_add_diff_inverse level_def)
    with True lev [of ?u] show ?thesis by (simp add: level_ok_def)
  next
    case False
    with lev [of ?u] u show ?thesis by simp
  qed
  have lok: "level_ok (?u + 1) (min_level + i) (levels ?s ! i)" if "i < length (levels ?s)" for i
    using ok that by (auto simp: add_level_def nth_append level_ok_def)
  have "length (pgms ?s) = ?u + 1 - MinIndexedLevel pm" using lp by (auto simp: add_level_def)
  moreover have "pgms ?s ! (i - MinIndexedLevel pm) = pgm_build pm (level ?s i)"
    if "MinIndexedLevel pm \<le> i" "i < ?u + 1" "level ?s i \<noteq> []" for i
  proof -
    have "i < ?u" using that top by (cases "i = ?u") auto
    then have "i - min_level < length (levels s)" "i - MinIndexedLevel pm < length (pgms s)"
      using u mi that(1) lp by auto
    with pg that \<open>i < ?u\<close> lev [of i] show ?thesis by (auto simp: add_level_def nth_append)
  qed
  ultimately show "dp_inv pm ?s" using lok u mi by (simp add: dp_inv_def) (simp add: add_level_def)
  show "levels ?s ! 0 = levels s ! 0" using ne by (simp add: add_level_def nth_append)
  show "dp_raw ?s = dp_raw s" by (simp add: dp_raw_def add_level_def)
  show "used_levels ?s = ?u + 1" by (simp add: add_level_def)
  show "take (?u - 1 - min_level) (drop 1 (levels ?s)) = take (?u - 1 - min_level) (drop 1 (levels s))"
    using u ne by (cases "levels s") (auto simp: add_level_def)
qed

lemma insert_buffer:
  assumes inv: "dp_inv pm s" and new: "k \<notin> fst ` set (levels s ! 0)" and room: "length (levels s ! 0) < buffer_max_size"
    and s': "s' = s\<lparr>levels := (levels s)[0 := kv_insert k v (levels s ! 0)],
      used_levels := (if used_levels s = min_level then min_level + 1 else used_levels s)\<rparr>"
  shows "dp_inv pm s' \<and> dp_raw s' = (dp_raw s)(k \<mapsto> v)"
proof -
  let ?l0 = "levels s ! 0"
  obtain ls where ls: "levels s = ?l0 # ls" using inv by (cases "levels s") (auto simp: dp_inv_def)
  have ok: "\<forall>i<length (levels s). level_ok (used_levels s) (min_level + i) (levels s ! i)"
    and u: "min_level \<le> used_levels s" using inv by (simp_all add: dp_inv_def)
  have "level_ok (used_levels s) min_level ?l0" using ok ls by (metis add_0_right length_Cons zero_less_Suc)
  then have sk: "skeys ?l0" by (simp add: level_ok_def)
  have l0: "level_ok (used_levels s') min_level (kv_insert k v ?l0)"
    using sk room new u s' by (simp add: level_ok_def skeys_kv_insert length_kv_insert_new)
  have us: "used_levels s' = (if used_levels s = min_level then min_level + 1 else used_levels s)"
    and ls': "levels s' = kv_insert k v ?l0 # ls" and ps: "pgms s' = pgms s"
    using s' ls by (simp_all, metis list_update_code(2))
  have lev: "level s' i = level s i" if "min_level < i" for i
    using that ls ls' by (metis level_def nth_Cons_pos zero_less_diff)
  have lok: "level_ok (used_levels s') (min_level + i) (levels s' ! i)" if "i < length (levels s')" for i
  proof (cases i)
    case 0
    then show ?thesis using l0 ls' by simp
  next
    case (Suc m)
    then have "level_ok (used_levels s) (min_level + i) (levels s ! i)" using ok that ls ls' by (metis length_Cons)
    moreover have "levels s' ! i = levels s ! i" using Suc ls ls' by (metis nth_Cons_Suc)
    ultimately show ?thesis using u us by (auto simp: level_ok_def)
  qed
  have mi: "min_level < MinIndexedLevel pm" "length (pgms s) = used_levels s - MinIndexedLevel pm"
    "used_levels s \<le> min_level + length (levels s)"
    and pg: "\<forall>i. MinIndexedLevel pm \<le> i \<and> i < used_levels s \<and> level s i \<noteq> []
      \<longrightarrow> pgms s ! (i - MinIndexedLevel pm) = pgm_build pm (level s i)"
    using inv by (auto simp: dp_inv_def)
  have "length (levels s') = length (levels s)" using ls ls' by (metis length_Cons)
  then have "dp_inv pm s'"
    using lok mi pg lev ps us u ls' by (auto simp: dp_inv_def)
  moreover have "dp_raw s' = (dp_raw s)(k \<mapsto> v)"
  proof -
    have "concat (levels s) = ?l0 @ concat ls" using ls by (metis concat.simps(2))
    then show ?thesis using map_of_kv_insert_new [OF sk new] ls' by (simp add: dp_raw_def)
  qed
  ultimately show ?thesis by blast
qed

lemma insert_item_spec:
  assumes inv: "dp_inv pm s"
  shows "if k \<in> fst ` set (levels s ! 0) then insert_item pm junk (k, v) s = Some (s, False)
    else \<exists>s'. insert_item pm junk (k, v) s = Some (s', True) \<and> dp_inv pm s' \<and> dp_raw s' = (dp_raw s)(k \<mapsto> v)"
proof -
  let ?l0 = "levels s ! 0"
  define idx where "idx = rank_less k (map fst ?l0)"
  have ne: "levels s \<noteq> []" using inv by (simp add: dp_inv_def)
  then have l0: "level_ok (used_levels s) min_level ?l0" using inv by (simp add: dp_inv_def) (metis add_0_right length_greater_0_conv)
  then have sk: "skeys ?l0" by (simp add: level_ok_def)
  note found = rank_less_found [OF sk idx_def]
  show ?thesis
  proof (cases "k \<in> fst ` set ?l0")
    case True
    then show ?thesis using found by (simp add: insert_item_def idx_def)
  next
    case new: False
    note at = kv_insert_at_rank [OF new idx_def, of v]
    show ?thesis
    proof (cases "length ?l0 < buffer_max_size")
      case True
      let ?s = "s\<lparr>levels := (levels s)[0 := kv_insert k v ?l0],
        used_levels := (if used_levels s = min_level then min_level + 1 else used_levels s)\<rparr>"
      have "insert_item pm junk (k, v) s = Some (?s, True)"
        using new found True unfolding insert_item_def Let_def fst_conv idx_def [symmetric] at by simp
      with new insert_buffer [OF inv new True refl, of v] show ?thesis by simp
    next
      case False
      then have full: "length ?l0 = buffer_max_size" using l0 by (simp add: level_ok_def)
      have "?l0 \<noteq> []" using full by (auto simp: buffer_max_size_def min_level_def)
      then have u: "min_level + 1 \<le> used_levels s" using l0 by (auto simp: level_ok_def)
      obtain j where j: "find_slots s (min_level + 1) (buffer_max_size + 1)
          = (j, buffer_max_size + 1 + length (concat (take (j - 1 - min_level) (drop 1 (levels s)))))"
        "min_level + 1 \<le> j" "j \<le> used_levels s" "j < used_levels s \<longrightarrow> level s j = []"
        "buffer_max_size + 1 + length (concat (take (j - 1 - min_level) (drop 1 (levels s)))) \<le> 2 ^ j"
        using find_slots_spec [OF inv, of "min_level + 1" "buffer_max_size + 1"] u
        by (auto simp: buffer_max_size_def)
      define s1 where "s1 = (if j = used_levels s then add_level pm s else s)"
      let ?sl = "buffer_max_size + 1 + length (concat (take (j - 1 - min_level) (drop 1 (levels s))))"
      have unf: "insert_item pm junk (k, v) s = map_option (\<lambda>t. (t, True)) (pairwise_merge pm junk (k, v) (j - 1) ?sl idx s1)"
      proof -
        have c: "(idx < length ?l0 \<and> fst (?l0 ! idx) = k) = False" "(length ?l0 < buffer_max_size) = False"
          using new found False by blast+
        show ?thesis
          by (cases "j = used_levels s")
            (simp_all only: insert_item_def Let_def fst_conv idx_def [symmetric] c if_False if_True j(1) prod.case
              s1_def add_level_def simp_thms)
      qed
      have "dp_inv pm s1" "level s1 j = []" "levels s1 ! 0 = ?l0" "dp_raw s1 = dp_raw s" "j < used_levels s1"
        "take (j - 1 - min_level) (drop 1 (levels s1)) = take (j - 1 - min_level) (drop 1 (levels s))"
        using add_level_spec [OF inv] j(3,4) inv by (auto simp: s1_def)
      with merge_step [of pm s1 j k idx ?sl junk v] j(2,5) full new idx_def
      show ?thesis by (auto simp: unf)
    qed
  qed
qed

section \<open>Searches\<close>

text \<open>
  What the container relies on of its static index type: the range returned for a key contains
  the position of the lower bound of the key in the items the index was built on.
\<close>

definition pgm_ok :: "('k::linorder, 'p) pgm_type \<Rightarrow> bool" where
  "pgm_ok pm \<longleftrightarrow> (\<forall>xs k. skeys xs \<and> xs \<noteq> [] \<longrightarrow>
     (let (lo, hi) = pgm_search pm (pgm_build pm xs) k
      in lo \<le> rank_less k (map fst xs) \<and> rank_less k (map fst xs) \<le> hi \<and> hi \<le> length xs))"

lemma pgm_okD:
  assumes "pgm_ok pm" and "skeys xs" and "xs \<noteq> []" and "pgm_search pm (pgm_build pm xs) k = (lo, hi)"
  shows "lo \<le> rank_less k (map fst xs) \<and> rank_less k (map fst xs) \<le> hi \<and> hi \<le> length xs"
proof -
  have "let (lo, hi) = pgm_search pm (pgm_build pm xs) k
    in lo \<le> rank_less k (map fst xs) \<and> rank_less k (map fst xs) \<le> hi \<and> hi \<le> length xs"
    using assms(1-3) unfolding pgm_ok_def by blast
  with assms(4) show ?thesis by simp
qed

lemma rank_less_slice:
  assumes "lo \<le> rank_less k xs" and "rank_less k xs \<le> hi" and "hi \<le> length xs"
  shows "lo + rank_less k (take (hi - lo) (drop lo xs)) = rank_less k xs"
proof -
  have "rank_less k (take (hi - lo) (drop lo xs)) = rank_less k xs - lo"
  proof (rule rank_less_eqI)
    show "\<forall>i<rank_less k xs - lo. take (hi - lo) (drop lo xs) ! i < k"
      using rank_less_below [of _ k xs] assms by simp
    show "rank_less k xs - lo < length (take (hi - lo) (drop lo xs)) \<longrightarrow> k \<le> take (hi - lo) (drop lo xs) ! (rank_less k xs - lo)"
      using rank_less_at [of k xs] assms by auto
  qed (use assms in auto)
  with assms show ?thesis by simp
qed

lemma level_lower_bound_rank:
  assumes "dp_inv pm s" and "pgm_ok pm" and "min_level \<le> i" and "i < used_levels s" and "level s i \<noteq> []"
  shows "level_lower_bound pm s i k = rank_less k (map fst (level s i))"
proof (cases "MinIndexedLevel pm \<le> i")
  case False
  then show ?thesis by (simp add: level_lower_bound_def search_range_def)
next
  case True
  let ?l = "level s i"
  have sk: "skeys ?l" using dp_inv_level(1) [OF assms(1,3,4)] by (simp add: level_ok_def)
  have pg: "pgms s ! (i - MinIndexedLevel pm) = pgm_build pm ?l" using assms True by (simp add: dp_inv_def)
  obtain lo hi where r: "pgm_search pm (pgm_build pm ?l) k = (lo, hi)" by (metis surj_pair)
  then have "lo \<le> rank_less k (map fst ?l)" "rank_less k (map fst ?l) \<le> hi" "hi \<le> length ?l"
    using pgm_okD [OF assms(2) sk assms(5) r] by simp_all
  then show ?thesis using rank_less_slice [of lo k "map fst ?l" hi] True
    by (simp add: level_lower_bound_def search_range_def pg r take_map drop_map)
qed

lemma find_loop_spec:
  assumes inv: "dp_inv pm s" and pm: "pgm_ok pm" and i: "min_level \<le> i" "i \<le> used_levels s"
  shows "find_loop pm s k i = None \<and> (\<forall>v. map_of (concat (drop (i - min_level) (levels s))) k = Some v \<longrightarrow> v = tombstone)
    \<or> (\<exists>p. find_loop pm s k i = Some p \<and> fst (item_at s p) = k \<and> snd (item_at s p) \<noteq> tombstone
         \<and> map_of (concat (drop (i - min_level) (levels s))) k = Some (snd (item_at s p)))"
  using i
proof (induction "used_levels s - i" arbitrary: i)
  case 0
  have "l = []" if l: "l \<in> set (drop (i - min_level) (levels s))" for l
  proof -
    obtain j where j: "j < length (drop (i - min_level) (levels s))" "l = drop (i - min_level) (levels s) ! j"
      using l unfolding in_set_conv_nth by blast
    have "i - min_level + j < length (levels s)" "l = levels s ! (i - min_level + j)"
      using j by (simp_all add: less_diff_conv add.commute)
    then have "level_ok (used_levels s) (min_level + (i - min_level + j)) l" using inv unfolding dp_inv_def by blast
    then show ?thesis using 0 by (auto simp: level_ok_def)
  qed
  then have "concat (drop (i - min_level) (levels s)) = []" by (simp add: concat_eq_Nil_conv)
  then have "map_of (concat (drop (i - min_level) (levels s))) k = None" by (metis map_of.simps(1))
  moreover have "find_loop pm s k i = None" using 0 by (subst find_loop.simps) simp
  ultimately show ?case by simp
next
  case (Suc n)
  have iu: "i < used_levels s" using Suc.hyps(2) by simp
  note lv = dp_inv_level [OF inv Suc.prems(1) iu]
  let ?l = "level s i"
  have sk: "skeys ?l" using lv(1) by (simp add: level_ok_def)
  have dr: "drop (i - min_level) (levels s) = ?l # drop (Suc i - min_level) (levels s)"
    using lv(2) Suc.prems(1) by (simp add: level_def Cons_nth_drop_Suc [symmetric] Suc_diff_le)
  have "n = used_levels s - Suc i" "min_level \<le> Suc i" "Suc i \<le> used_levels s" using Suc iu by auto
  note IH = Suc.hyps(1) [OF this]
  define r where "r = rank_less k (map fst ?l)"
  note found = rank_less_found [OF sk r_def]
  show ?case
  proof (cases "k \<in> fst ` set ?l")
    case False
    then have "find_loop pm s k i = find_loop pm s k (Suc i)"
      using iu found level_lower_bound_rank [OF inv pm Suc.prems(1) iu, of k, folded r_def]
      by (subst find_loop.simps) (auto simp: Let_def)
    moreover have "map_of ?l k = None" using False by (simp add: map_of_eq_None_iff)
    ultimately show ?thesis using IH by (simp add: dr map_add_def)
  next
    case True
    then have r: "r < length ?l" "fst (?l ! r) = k" "?l \<noteq> []" using found by auto
    then have m: "map_of ?l k = Some (snd (?l ! r))" using sk by (subst map_of_skeys_iff) (auto simp: in_set_conv_nth prod_eq_iff)
    have "find_loop pm s k i = (if deleted (?l ! r) then None else Some (i, r))"
      using iu r level_lower_bound_rank [OF inv pm Suc.prems(1) iu r(3), of k, folded r_def]
      by (subst find_loop.simps) simp
    with m r show ?thesis by (auto simp: dr deleted_def item_at_def)
  qed
qed

lemma concat_used_levels:
  assumes inv: "dp_inv pm s"
  shows "concat (take (used_levels s - min_level) (levels s)) = concat (levels s)"
proof -
  let ?n = "used_levels s - min_level"
  have "l = []" if l: "l \<in> set (drop ?n (levels s))" for l
  proof -
    obtain j where j: "j < length (drop ?n (levels s))" "l = drop ?n (levels s) ! j"
      using l unfolding in_set_conv_nth by blast
    have "?n + j < length (levels s)" "l = levels s ! (?n + j)"
      using j by (simp_all add: less_diff_conv add.commute)
    then have "level_ok (used_levels s) (min_level + (?n + j)) l" using inv unfolding dp_inv_def by blast
    then show ?thesis by (auto simp: level_ok_def)
  qed
  then have "concat (drop ?n (levels s)) = []" by (simp add: concat_eq_Nil_conv)
  then show ?thesis by (metis append_Nil2 append_take_drop_id concat_append)
qed

lemma dpgm_find_spec:
  assumes "dp_inv pm s" and "pgm_ok pm"
  shows "map_option (\<lambda>p. snd (item_at s p)) (dpgm_find pm s k) = dp_map s k"
    and "dpgm_find pm s k = Some p \<Longrightarrow> fst (item_at s p) = k"
proof -
  have "min_level \<le> used_levels s" using assms(1) by (simp add: dp_inv_def)
  note f = find_loop_spec [OF assms order_refl this, of k, folded dpgm_find_def]
  then show "map_option (\<lambda>p. snd (item_at s p)) (dpgm_find pm s k) = dp_map s k"
    by (auto simp: dp_map_def dp_raw_def split: option.split)
  show "dpgm_find pm s k = Some p \<Longrightarrow> fst (item_at s p) = k" using f by auto
qed

section \<open>Constructors\<close>

lemma dpgm_new_spec: "min_level < MinIndexedLevel pm \<Longrightarrow> dp_inv pm dpgm_new \<and> dp_map (dpgm_new :: ('k::linorder, 'p) dpgm) = Map.empty"
  by (auto simp: dp_inv_def dpgm_new_def level_ok_def dp_map_def dp_raw_def min_level_def concat_replicate_trivial level_def)

lemma copy_unique_sorted:
  assumes "skeys (out @ xs)" and "out \<noteq> []" and "\<forall>x\<in>set xs. snd x \<noteq> tombstone"
  shows "copy_unique out xs = Inr (out @ xs)"
  using assms
proof (induction xs arbitrary: out)
  case (Cons x xs)
  have "fst (last out) < fst x" using Cons.prems(1,2) by (auto simp: sorted_wrt_append)
  moreover have "copy_unique (out @ [x]) xs = Inr ((out @ [x]) @ xs)"
    using Cons.prems by (intro Cons.IH) auto
  ultimately show ?case using Cons.prems(3) by (auto simp: Item_def)
qed simp

lemma dpgm_range_spec:
  assumes mi: "min_level < MinIndexedLevel pm" and sk: "skeys xs" and nt: "\<forall>x\<in>set xs. snd x \<noteq> tombstone"
  shows "\<exists>s. dpgm_range pm xs = Inr s \<and> dp_inv pm s \<and> dp_map s = map_of xs \<and> dp_raw s = map_of xs"
proof (cases xs)
  case Nil
  have "\<exists>m. max (max (ceil_log2 0) min_level + 1) 32 - min_level + 1 = Suc m" by auto
  then show ?thesis using mi Nil
    by (auto simp: dpgm_range_def dp_inv_def level_ok_def dp_map_def dp_raw_def concat_replicate_trivial level_def)
next
  case (Cons x ys)
  define used where "used = max (ceil_log2 (length xs)) min_level + 1"
  define n where "n = max used 32 - min_level + 1"
  define j where "j = used - 1 - min_level"
  define s where "s = \<lparr>used_levels = used, levels = (replicate n [])[j := xs],
    pgms = (if MinIndexedLevel pm \<le> used - 1
      then (replicate (used - MinIndexedLevel pm) (pgm_none pm))[used - 1 - MinIndexedLevel pm := pgm_build pm xs] else [])\<rparr>"
  have cu: "copy_unique [x] ys = Inr xs" using copy_unique_sorted [of "[x]" ys] sk nt Cons by simp
  have it: "Item (fst x) (snd x) = Inr x" using nt Cons by (simp add: Item_def)
  have r: "dpgm_range pm xs = Inr s"
    using cu it Cons unfolding dpgm_range_def Let_def by (simp add: s_def used_def n_def j_def)
  have u: "min_level + j = used - 1" "j < n" "min_level < used" by (auto simp: used_def j_def n_def)
  have "concat ((replicate n [])[j := xs]) = xs"
    using u(2) by (simp add: upd_conv_take_nth_drop concat_replicate_trivial)
  then have raw: "dp_raw s = map_of xs" by (simp add: dp_raw_def s_def)
  have "v \<noteq> tombstone" if "map_of xs k = Some v" for k v using map_of_SomeD [OF that] nt by fastforce
  then have "dp_map s = map_of xs" by (auto simp: fun_eq_iff dp_map_def raw split: option.split)
  moreover have top: "level_ok used (used - 1) xs"
  proof (cases "ceil_log2 (length xs) \<le> min_level")
    case True
    have "length xs \<le> 2 ^ min_level"
    proof (cases "1 < length xs")
      case True
      have "length xs \<le> 2 ^ ceil_log2 (length xs)" using ceil_log2_bounds [OF True] by simp
      also have "\<dots> \<le> 2 ^ min_level" using \<open>ceil_log2 (length xs) \<le> min_level\<close> by (intro power_increasing) auto
      finally show ?thesis .
    qed (simp add: min_level_def)
    moreover have "used - 1 = min_level" using True by (simp add: used_def)
    ultimately show ?thesis using sk u(3) by (simp add: level_ok_def buffer_max_size_def min_level_def)
  next
    case False
    then have "used - 1 = max (ceil_log2 (length xs)) (min_level + 1)" by (simp add: used_def)
    from level_ok_target [OF sk this] u(3) show ?thesis by simp
  qed
  have "dp_inv pm s"
    using mi u top unfolding dp_inv_def
    by (auto simp: s_def nth_list_update level_def level_ok_def split: if_splits)
  ultimately show ?thesis using r raw by blast
qed

section \<open>The lower bound\<close>

text \<open>What the loop of \<open>lower_bound\<close> has found in the first \<open>n\<close> levels.\<close>

definition lb_ok :: "('k::linorder, 'p) dpgm \<Rightarrow> 'k \<Rightarrow> nat \<Rightarrow> iter \<Rightarrow> bool" where
  "lb_ok s k n lb = (case lb of
      None \<Rightarrow> \<forall>x\<in>set (concat (take n (levels s))). fst x < k
    | Some p \<Rightarrow> k \<le> fst (item_at s p)
        \<and> map_of (concat (take n (levels s))) (fst (item_at s p)) = Some (snd (item_at s p))
        \<and> (\<forall>x\<in>set (concat (take n (levels s))). k \<le> fst x \<longrightarrow> fst (item_at s p) \<le> fst x))"

lemma lb_ok_step:
  assumes ok: "lb_ok s k n lb" and n: "n < length (levels s)" and l: "l = levels s ! n" "skeys l"
    and r: "r = rank_less k (map fst l)"
    and lb': "lb' = (if r < length l \<and> better s lb {} (l ! r) then Some (min_level + n, r) else lb)"
  shows "lb_ok s k (Suc n) lb'"
proof -
  let ?c = "concat (take n (levels s))"
  have tk: "concat (take (Suc n) (levels s)) = ?c @ l" using n l(1) by (simp add: take_Suc_conv_app_nth)
  have srt: "sorted (map fst l)" using l(2) strict_sorted_imp_sorted by blast
  have idx: "fst (l ! i) < k" if "i < r" for i
    using rank_less_below [of i k "map fst l"] that r rank_less_le_length [of k "map fst l"] by simp
  have above: "k \<le> fst (l ! i) \<Longrightarrow> i < length l \<Longrightarrow> r < length l \<and> k \<le> fst (l ! r) \<and> fst (l ! r) \<le> fst (l ! i)" for i
    using idx [of i] sorted_nth_mono [OF srt, of r i] rank_less_at [of k "map fst l"] r by (cases "i < r") auto
  then have mem: "r < length l \<and> k \<le> fst (l ! r) \<and> fst (l ! r) \<le> fst x" if "x \<in> set l" "k \<le> fst x" for x
    using that by (metis in_set_conv_nth)
  show ?thesis
  proof (cases "r < length l \<and> better s lb {} (l ! r)")
    case True
    let ?x = "l ! r"
    have it: "item_at s (min_level + n, r) = ?x" by (simp add: item_at_def level_def l(1))
    have kx: "k \<le> fst ?x" using rank_less_at [of k "map fst l"] True r by simp
    have new: "fst ?x < fst y" if "y \<in> set ?c" "k \<le> fst y" for y
    proof (cases lb)
      case None
      with ok have "\<forall>x\<in>set ?c. fst x < k" by (simp only: lb_ok_def option.case)
      with that show ?thesis by (metis leD)
    next
      case (Some p)
      with ok have "\<forall>x\<in>set ?c. k \<le> fst x \<longrightarrow> fst (item_at s p) \<le> fst x" by (simp add: lb_ok_def)
      with that True Some show ?thesis by (metis better_def less_le_trans option.case(2))
    qed
    then have "map_of ?c (fst ?x) = None" using kx by (metis (no_types, lifting) imageE less_irrefl map_of_eq_None_iff)
    moreover have "map_of l (fst ?x) = Some (snd ?x)"
      using l(2) True by (subst map_of_skeys_iff) auto
    moreover have "\<forall>y\<in>set (?c @ l). k \<le> fst y \<longrightarrow> fst ?x \<le> fst y"
      using new mem unfolding set_append by (blast intro: less_imp_le)
    ultimately show ?thesis using True lb' kx unfolding lb_ok_def tk
      by (simp add: it map_add_def)
  next
    case False
    then have "lb' = lb" using lb' by (simp only: if_False)
    moreover have "fst (item_at s p) \<le> fst x" if "lb = Some p" "x \<in> set l" "k \<le> fst x" for p x
      using False that(1) mem [OF that(2,3)] by (auto simp: better_def)
    moreover have "\<forall>x\<in>set l. fst x < k" if "lb = None"
      using False that mem by (force simp: better_def)
    ultimately show ?thesis using ok by (auto simp: lb_ok_def tk split: option.splits)
  qed
qed

lemma lower_bound_loop_spec:
  assumes inv: "dp_inv pm s" and pm: "pgm_ok pm" and nd: "\<forall>l\<in>set (levels s). \<forall>x\<in>set l. \<not> deleted x"
    and i: "min_level \<le> i" "i \<le> used_levels s" and "lb_ok s k (i - min_level) lb"
  shows "lb_ok s k (used_levels s - min_level) (lower_bound_loop pm s k i {} lb)"
  using i assms(6)
proof (induction "used_levels s - i" arbitrary: i lb)
  case 0
  then show ?case by (subst lower_bound_loop.simps) simp
next
  case (Suc n)
  have iu: "i < used_levels s" using Suc.hyps(2) by simp
  note lv = dp_inv_level [OF inv Suc.prems(1) iu]
  let ?l = "level s i"
  have sk: "skeys ?l" using lv(1) by (simp add: level_ok_def)
  define r where "r = rank_less k (map fst ?l)"
  define lb' where "lb' = (if r < length ?l \<and> better s lb {} (?l ! r) then Some (i, r) else lb)"
  have "lb_ok s k (Suc (i - min_level)) lb'"
    by (rule lb_ok_step [OF Suc.prems(3) lv(2) _ sk r_def]) (use Suc.prems(1) in \<open>simp_all add: level_def lb'_def\<close>)
  moreover have "lower_bound_loop pm s k i {} lb = lower_bound_loop pm s k (Suc i) {} lb'"
  proof (cases "?l = []")
    case True
    then show ?thesis using iu by (subst lower_bound_loop.simps) (simp add: lb'_def)
  next
    case False
    have nd': "\<forall>x\<in>set ?l. \<not> deleted x" using nd nth_mem [OF lv(2)] by (simp add: level_def)
    then have "\<forall>x\<in>set (drop r ?l). \<not> deleted x" by (meson in_set_dropD)
    then have dl: "takeWhile deleted (drop r ?l) = []" by (cases "drop r ?l") auto
    have srt: "sorted (map fst ?l)" using sk strict_sorted_imp_sorted by blast
    have sk': "takeWhile (\<lambda>x. \<not> better s lb {} x) (drop r ?l) =
        (if r < length ?l \<and> better s lb {} (?l ! r) then [] else drop r ?l)"
    proof (cases "r < length ?l")
      case True
      have "\<not> better s lb {} x" if nb: "\<not> better s lb {} (?l ! r)" and xm: "x \<in> set (drop r ?l)" for x
      proof -
        obtain j where "j < length (drop r ?l)" "x = drop r ?l ! j" using xm by (metis in_set_conv_nth)
        then have "fst (?l ! r) \<le> fst x" using sorted_nth_mono [OF srt, of r "r + j"] by simp
        with nb show ?thesis by (auto simp: better_def split: option.splits)
      qed
      then show ?thesis using True by (auto simp: Cons_nth_drop_Suc [symmetric] intro!: takeWhile_eq_all_conv [THEN iffD2])
    qed simp
    show ?thesis
      using iu False dl sk' level_lower_bound_rank [OF inv pm Suc.prems(1) iu False, of k, folded r_def]
      by (subst lower_bound_loop.simps) (auto simp: Let_def lb'_def)
  qed
  moreover have "n = used_levels s - Suc i" "min_level \<le> Suc i" "Suc i \<le> used_levels s" using Suc iu by auto
  ultimately show ?case using Suc.hyps(1) [of "Suc i" lb'] Suc.prems(1) by (simp add: Suc_diff_le)
qed

section \<open>Properties\<close>

text \<open>
  C5: inserting an item whose key is not in the buffer succeeds: no write leaves its temporary
  array, the invariant of the levels and of the static indexes is kept, and the map the levels
  stand for is updated at the key. Nothing else changes, so markers of deleted keys stay too.
\<close>

theorem pgm_insert_updates:
  assumes "dp_inv pm s" and "k \<notin> fst ` set (levels s ! 0)"
  shows "\<exists>s'. insert_item pm junk (k, v) s = Some (s', True) \<and> dp_inv pm s' \<and> dp_raw s' = (dp_raw s)(k \<mapsto> v)"
  using insert_item_spec [OF assms(1), of k junk v] assms(2) by simp

text \<open>A static index that searches the whole level.\<close>

definition pgm_whole :: "(nat, nat item list) pgm_type" where
  "pgm_whole = \<lparr>pgm_none = [], pgm_build = (\<lambda>xs. xs), pgm_search = (\<lambda>xs k. (0, length xs)), MinIndexedLevel = 18\<rparr>"

lemma pgm_whole_ok: "pgm_ok pgm_whole" "min_level < MinIndexedLevel pgm_whole"
  by (auto simp: pgm_ok_def pgm_whole_def min_level_def intro: rank_less_le_length [THEN order_trans])

lemmas pgm_new_ok = dpgm_new_spec [OF pgm_whole_ok(2)]

theorem pgm_insert_updates_witness:
  "\<exists>s'. insert_item pgm_whole (0, 0) (5, 50) dpgm_new = Some (s', True) \<and> dp_raw s' 5 = Some 50"
proof -
  have "dp_inv pgm_whole dpgm_new" using pgm_new_ok by blast
  moreover have "(5::nat) \<notin> fst ` set (levels (dpgm_new :: (nat, nat item list) dpgm) ! 0)"
    by (simp add: dpgm_new_def min_level_def)
  ultimately show ?thesis using pgm_insert_updates [of pgm_whole dpgm_new 5 "(0, 0)" 50] by auto
qed

text \<open>
  C35: an insert or erase of a key that is in the buffer changes nothing and returns false, although
  the comments promise an update and a removal: after inserting 5 and erasing it, 5 is found.
\<close>

theorem pgm_buffered_ignored:
  assumes "dp_inv pm s" and "k \<in> fst ` set (levels s ! 0)"
  shows "insert_item pm junk (k, v) s = Some (s, False) \<and> dpgm_erase pm junk k s = Some s"
  using insert_item_spec [OF assms(1), of k junk] assms(2) by (simp add: dpgm_erase_def Item_erase_def)

theorem pgm_buffered_ignored_witness:
  "\<exists>s. dpgm_insert pgm_whole (0, 0) 5 50 dpgm_new = Inr (Some (s, True)) \<and> dpgm_erase pgm_whole (0, 0) 5 s = Some s
    \<and> insert_item pgm_whole (0, 0) (5, 60) s = Some (s, False) \<and> dpgm_find pgm_whole s 5 = Some (6, 0)"
proof -
  have new: "(5::nat) \<notin> fst ` set (levels (dpgm_new :: (nat, nat item list) dpgm) ! 0)"
    by (simp add: dpgm_new_def min_level_def)
  have ok: "dp_inv pgm_whole dpgm_new" using pgm_new_ok by blast
  from insert_item_spec [OF ok, of 5 "(0, 0)" 50] new obtain s where
    s: "insert_item pgm_whole (0, 0) (5, 50) dpgm_new = Some (s, True)" "dp_inv pgm_whole s" by auto
  have "case insert_item pgm_whole (0, 0) (5, 50) dpgm_new of Some (s, b) \<Rightarrow>
      5 \<in> fst ` set (levels s ! 0) \<and> dpgm_find pgm_whole s 5 = Some (6, 0) | None \<Rightarrow> False" by code_simp
  then have b: "5 \<in> fst ` set (levels s ! 0)" "dpgm_find pgm_whole s 5 = Some (6, 0)" using s(1) by simp_all
  from pgm_buffered_ignored [OF s(2) b(1), of "(0, 0)" 60] s(1) b show ?thesis
    by (auto simp: dpgm_insert_def Item_def tombstone_def)
qed

text \<open>
  C24: \<open>find\<close> on a well-formed container, with a static index that keeps its promise, gives an
  iterator to an item with the key and the value the map holds, and the end if the map holds none.
\<close>

theorem pgm_find_correct:
  assumes "dp_inv pm s" and "pgm_ok pm"
  shows "case dpgm_find pm s k of None \<Rightarrow> dp_map s k = None
    | Some p \<Rightarrow> fst (item_at s p) = k \<and> dp_map s k = Some (snd (item_at s p))"
  using dpgm_find_spec [OF assms, of k] by (auto split: option.split)

theorem pgm_find_correct_witness:
  "dpgm_find pgm_whole dpgm_new 5 = None"
  using pgm_find_correct [of pgm_whole dpgm_new 5] pgm_new_ok pgm_whole_ok(1)
  by (auto simp: dpgm_find_def find_loop.simps dpgm_new_def)

text \<open>
  C20: round trip. A value inserted under a key that is not in the buffer is found under it, and
  an erase of such a key removes it; other keys are found as before.
\<close>

theorem pgm_insert_find:
  assumes "dp_inv pm s" and "pgm_ok pm" and "k \<notin> fst ` set (levels s ! 0)" and "v \<noteq> tombstone"
  shows "(\<exists>s'. dpgm_insert pm junk k v s = Inr (Some (s', True)) \<and> dp_map s' = (dp_map s)(k \<mapsto> v)
        \<and> map_option (item_at s') (dpgm_find pm s' k) = Some (k, v))
    \<and> (\<exists>s'. dpgm_erase pm junk k s = Some s' \<and> dp_map s' = (dp_map s)(k := None) \<and> dpgm_find pm s' k = None)"
proof
  obtain s' where s': "insert_item pm junk (k, v) s = Some (s', True)" "dp_inv pm s'" "dp_raw s' = (dp_raw s)(k \<mapsto> v)"
    using insert_item_spec [OF assms(1), of k junk v] assms(3) by auto
  have m: "dp_map s' = (dp_map s)(k \<mapsto> v)" using s'(3) assms(4) by (simp add: dp_map_def fun_eq_iff)
  with dpgm_find_spec [OF s'(2) assms(2), of k] have "map_option (item_at s') (dpgm_find pm s' k) = Some (k, v)"
    by (cases "dpgm_find pm s' k") (auto simp: prod_eq_iff)
  with m s'(1) assms(4) show "\<exists>s'. dpgm_insert pm junk k v s = Inr (Some (s', True)) \<and> dp_map s' = (dp_map s)(k \<mapsto> v)
        \<and> map_option (item_at s') (dpgm_find pm s' k) = Some (k, v)"
    by (simp add: dpgm_insert_def Item_def)
next
  obtain s' where s': "insert_item pm junk (k, tombstone) s = Some (s', True)" "dp_inv pm s'"
    "dp_raw s' = (dp_raw s)(k \<mapsto> tombstone)"
    using insert_item_spec [OF assms(1), of k junk tombstone] assms(3) by auto
  then have m: "dp_map s' = (dp_map s)(k := None)" by (simp add: dp_map_def fun_eq_iff)
  with dpgm_find_spec [OF s'(2) assms(2), of k] have "dpgm_find pm s' k = None" by simp
  with m s'(1) show "\<exists>s'. dpgm_erase pm junk k s = Some s' \<and> dp_map s' = (dp_map s)(k := None) \<and> dpgm_find pm s' k = None"
    by (simp add: dpgm_erase_def Item_erase_def)
qed

theorem pgm_insert_find_witness:
  "\<exists>s'. dpgm_insert pgm_whole (0, 0) 5 50 dpgm_new = Inr (Some (s', True)) \<and> dpgm_find pgm_whole s' 5 \<noteq> None"
proof -
  have "(5::nat) \<notin> fst ` set (levels (dpgm_new :: (nat, nat item list) dpgm) ! 0)" "(50::u64) \<noteq> tombstone"
    by (simp_all add: dpgm_new_def min_level_def tombstone_def)
  with pgm_insert_find [of pgm_whole dpgm_new 5 50 "(0, 0)"] pgm_new_ok pgm_whole_ok(1) show ?thesis by auto
qed

text \<open>
  C26: the range constructor on ascending keys, none with the reserved value, builds a well-formed
  container that holds exactly the given pairs.
\<close>

theorem pgm_range_correct:
  assumes "min_level < MinIndexedLevel pm" and "skeys xs" and "\<forall>x\<in>set xs. snd x \<noteq> tombstone"
  shows "\<exists>s. dpgm_range pm xs = Inr s \<and> dp_inv pm s \<and> dp_map s = map_of xs"
  using dpgm_range_spec [OF assms] by blast

theorem pgm_range_correct_witness:
  "\<exists>s. dpgm_range pgm_whole [(1, 10), (4, 40)] = Inr s \<and> dp_map s 4 = Some 40"
  using pgm_range_correct [OF pgm_whole_ok(2), of "[(1, 10), (4, 40)]"] by (force simp: tombstone_def)



text \<open>
  C25: \<open>lower_bound\<close> on a well-formed container without markers of deleted keys gives the item with
  the least key that is not below the given one, with the value the map holds for it, and the end
  if all keys are below.
\<close>

theorem pgm_lower_bound_correct:
  assumes "dp_inv pm s" and "pgm_ok pm" and "\<forall>l\<in>set (levels s). \<forall>x\<in>set l. \<not> deleted x"
  shows "case dpgm_lower_bound pm s k of None \<Rightarrow> \<forall>k'\<in>dom (dp_map s). k' < k
    | Some p \<Rightarrow> k \<le> fst (item_at s p) \<and> dp_map s (fst (item_at s p)) = Some (snd (item_at s p))
        \<and> (\<forall>k'\<in>dom (dp_map s). k \<le> k' \<longrightarrow> fst (item_at s p) \<le> k')"
proof -
  have u: "min_level \<le> used_levels s" using assms(1) by (simp add: dp_inv_def)
  have "lb_ok s k (min_level - min_level) None" by (simp add: lb_ok_def)
  from lower_bound_loop_spec [OF assms order_refl u this]
  have ok: "lb_ok s k (used_levels s - min_level) (dpgm_lower_bound pm s k)" by (simp add: dpgm_lower_bound_def)
  have all: "concat (take (used_levels s - min_level) (levels s)) = concat (levels s)"
    by (rule concat_used_levels [OF assms(1)])
  have dom: "\<exists>x\<in>set (concat (levels s)). fst x = k'" if "k' \<in> dom (dp_map s)" for k'
    using that by (auto simp: dp_map_def dp_raw_def dest!: map_of_SomeD split: option.splits) force+
  have nd: "v \<noteq> tombstone" if "dp_raw s k' = Some v" for k' v
    using that assms(3) map_of_SomeD [of "concat (levels s)" k' v] by (fastforce simp: dp_raw_def deleted_def)
  show ?thesis
  proof (cases "dpgm_lower_bound pm s k")
    case None
    with ok all dom show ?thesis by (fastforce simp: lb_ok_def)
  next
    case (Some p)
    with ok all have p: "k \<le> fst (item_at s p)" "dp_raw s (fst (item_at s p)) = Some (snd (item_at s p))"
      "\<forall>x\<in>set (concat (levels s)). k \<le> fst x \<longrightarrow> fst (item_at s p) \<le> fst x"
      by (simp_all add: lb_ok_def dp_raw_def)
    then show ?thesis using Some dom nd by (fastforce simp: dp_map_def)
  qed
qed

theorem pgm_lower_bound_correct_witness:
  "\<exists>s. dpgm_range pgm_whole [(1, 10), (4, 40)] = Inr s \<and> map_option (item_at s) (dpgm_lower_bound pgm_whole s 2) = Some (4, 40)"
proof -
  obtain s where s: "dpgm_range pgm_whole [(1, 10), (4, 40)] = Inr s" "dp_inv pgm_whole s" "dp_map s = map_of [(1, 10), (4, 40)]"
    using dpgm_range_spec [OF pgm_whole_ok(2), of "[(1, 10), (4, 40)]"] by (force simp: tombstone_def)
  have "case dpgm_range pgm_whole [(1, 10), (4, 40)] of Inr s \<Rightarrow> \<forall>l\<in>set (levels s). \<forall>x\<in>set l. \<not> deleted x | _ \<Rightarrow> False"
    by code_simp
  with s(1) have "\<forall>l\<in>set (levels s). \<forall>x\<in>set l. \<not> deleted x" by simp
  from pgm_lower_bound_correct [OF s(2) pgm_whole_ok(1) this, of 2] s(1,3) show ?thesis
    by (auto simp: prod_eq_iff split: option.splits if_splits)
qed

definition pgm_marked :: "(nat, nat item list) dpgm" where
  "pgm_marked = \<lparr>used_levels = 8, levels = [[(5, tombstone)], [(5, 1), (6, tombstone)]], pgms = []\<rparr>"

text \<open>
  With markers of deleted keys, \<open>lower_bound\<close> can return a deleted item. In a well-formed
  container whose buffer marks 5 as deleted and whose first level holds 5 and a marker for 6,
  the lower bound of 5 is the marker for 6, where the end is due.
\<close>

theorem pgm_lower_bound_deleted:
  "dp_inv pgm_whole pgm_marked \<and> dp_map pgm_marked = Map.empty
    \<and> dpgm_lower_bound pgm_whole pgm_marked 5 = Some (7, 1) \<and> deleted (item_at pgm_marked (7, 1))"
proof (intro conjI)
  have "\<forall>j\<in>set [0..<2]. level_ok 8 (min_level + j) (levels pgm_marked ! j)" by code_simp
  then have "\<forall>j<2. level_ok 8 (min_level + j) (levels pgm_marked ! j)" by simp
  then show "dp_inv pgm_whole pgm_marked"
    by (auto simp: dp_inv_def pgm_marked_def pgm_whole_def min_level_def)
  show "dp_map pgm_marked = Map.empty" by (auto simp: dp_map_def dp_raw_def pgm_marked_def)
  show "dpgm_lower_bound pgm_whole pgm_marked 5 = Some (7, 1)" by code_simp
  show "deleted (item_at pgm_marked (7, 1))" by code_simp
qed

end
