(* ===== verification/STX_BTree.thy ===== *)
theory STX_BTree
  imports Prelude
begin

text \<open>
  The B+-tree of \<open>competitor/btree/src/include/stx/btree.h\<close>: node sizes, searches, iterators,
  insertion with node splits, the bulk loader, copying and the self-check \<open>verify\<close>.

  A node is owned by its parent, so the nodes form a tree of values; the leaves are also
  linked to each other by \<open>prevleaf\<close> and \<open>nextleaf\<close>, so a leaf carries its address and the links
  are maps on addresses kept with the other data members of the tree. The arrays
  \<open>slotkey\<close>, \<open>slotdata\<close> and \<open>childid\<close> are lists of their used parts, of length \<open>slotuse\<close>
  (\<open>slotuse + 1\<close> for \<open>childid\<close>).
\<close>

section \<open>Sizes\<close>

text \<open>The template parameters: the sizes of key and data type in bytes, and \<open>_Duplicates\<close>.\<close>

record scfg =
  key_size :: nat
  data_size :: nat
  allow_duplicates :: bool

definition leafslotmax :: "scfg \<Rightarrow> nat" where
  "leafslotmax c = max 8 (256 div (key_size c + data_size c))"

definition innerslotmax :: "scfg \<Rightarrow> nat" where
  "innerslotmax c = max 8 (256 div (key_size c + 8))"

definition minleafslots :: "scfg \<Rightarrow> nat" where
  "minleafslots c = leafslotmax c div 2"

definition mininnerslots :: "scfg \<Rightarrow> nat" where
  "mininnerslots c = innerslotmax c div 2"

section \<open>Nodes and the tree object\<close>

datatype ('k, 'v) snode =
    SLeaf nat "('k, 'v) kvs"
  | SInner nat "'k list" "('k, 'v) snode list"

fun slevel :: "('k, 'v) snode \<Rightarrow> nat" where
  "slevel (SLeaf a d) = 0"
| "slevel (SInner l ks cs) = l"

fun slotuse :: "('k, 'v) snode \<Rightarrow> nat" where
  "slotuse (SLeaf a d) = length d"
| "slotuse (SInner l ks cs) = length ks"

fun isfull :: "scfg \<Rightarrow> ('k, 'v) snode \<Rightarrow> bool" where
  "isfull c (SLeaf a d) = (length d = leafslotmax c)"
| "isfull c (SInner l ks cs) = (length ks = innerslotmax c)"

fun isfew :: "scfg \<Rightarrow> ('k, 'v) snode \<Rightarrow> bool" where
  "isfew c (SLeaf a d) = (length d \<le> minleafslots c)"
| "isfew c (SInner l ks cs) = (length ks \<le> mininnerslots c)"

fun isunderflow :: "scfg \<Rightarrow> ('k, 'v) snode \<Rightarrow> bool" where
  "isunderflow c (SLeaf a d) = (length d < minleafslots c)"
| "isunderflow c (SInner l ks cs) = (length ks < mininnerslots c)"

text \<open>The leaves below a node, in order, with their addresses.\<close>

fun sleaves :: "('k, 'v) snode \<Rightarrow> (nat \<times> ('k, 'v) kvs) list" where
  "sleaves (SLeaf a d) = [(a, d)]"
| "sleaves (SInner l ks cs) = concat (map sleaves cs)"

text \<open>
  The data members that are not nodes: the links of the leaf chain, its two ends, the
  statistics, and the next address the allocator hands out.
\<close>

record smem =
  prevleaf :: "nat \<Rightarrow> nat option"
  nextleaf :: "nat \<Rightarrow> nat option"
  m_headleaf :: "nat option"
  m_tailleaf :: "nat option"
  st_leaves :: nat
  st_innernodes :: nat
  s_fresh :: nat

record ('k, 'v) stx =
  m_root :: "('k, 'v) snode option"
  m_mem :: smem
  itemcount :: nat

definition smem_empty :: smem where
  "smem_empty = \<lparr>prevleaf = (\<lambda>_. None), nextleaf = (\<lambda>_. None), m_headleaf = None,
     m_tailleaf = None, st_leaves = 0, st_innernodes = 0, s_fresh = 0\<rparr>"

definition stx_new :: "('k, 'v) stx" where
  "stx_new = \<lparr>m_root = None, m_mem = smem_empty, itemcount = 0\<rparr>"

definition allocate_leaf :: "smem \<Rightarrow> smem \<times> nat" where
  "allocate_leaf m = (let a = s_fresh m in
     (m\<lparr>prevleaf := (prevleaf m)(a := None), nextleaf := (nextleaf m)(a := None),
        st_leaves := st_leaves m + 1, s_fresh := a + 1\<rparr>, a))"

definition allocate_inner :: "smem \<Rightarrow> smem" where
  "allocate_inner m = m\<lparr>st_innernodes := st_innernodes m + 1\<rparr>"

definition free_node :: "('k, 'v) snode \<Rightarrow> smem \<Rightarrow> smem" where
  "free_node n m = (case n of
     SLeaf a d \<Rightarrow> m\<lparr>st_leaves := st_leaves m - 1\<rparr>
   | SInner l ks cs \<Rightarrow> m\<lparr>st_innernodes := st_innernodes m - 1\<rparr>)"

fun clear_recursive :: "('k, 'v) snode \<Rightarrow> smem \<Rightarrow> smem" where
  "clear_recursive (SLeaf a d) m = m"
| "clear_recursive (SInner l ks cs) m = fold (\<lambda>n m. free_node n (clear_recursive n m)) cs m"

definition clear :: "('k, 'v) stx \<Rightarrow> ('k, 'v) stx" where
  "clear s = (case m_root s of None \<Rightarrow> s
   | Some r \<Rightarrow> (let m = free_node r (clear_recursive r (m_mem s)) in
       s\<lparr>m_root := None, itemcount := 0,
         m_mem := m\<lparr>m_headleaf := None, m_tailleaf := None, st_leaves := 0, st_innernodes := 0\<rparr>\<rparr>))"

section \<open>Key comparison and the searches of a node\<close>

definition key_less :: "'k::linorder \<Rightarrow> 'k \<Rightarrow> bool" where
  "key_less a b = (a < b)"

definition key_lessequal :: "'k::linorder \<Rightarrow> 'k \<Rightarrow> bool" where
  "key_lessequal a b = (\<not> b < a)"

definition key_greaterequal :: "'k::linorder \<Rightarrow> 'k \<Rightarrow> bool" where
  "key_greaterequal a b = (\<not> a < b)"

definition key_equal :: "'k::linorder \<Rightarrow> 'k \<Rightarrow> bool" where
  "key_equal a b = (\<not> a < b \<and> \<not> b < a)"

text \<open>The linear search that is compiled in, from position \<open>lo\<close> on.\<close>

function find_lower_from :: "'k::linorder list \<Rightarrow> 'k \<Rightarrow> nat \<Rightarrow> nat" where
  "find_lower_from ks key lo =
     (if lo < length ks \<and> key_less (ks ! lo) key then find_lower_from ks key (lo + 1) else lo)"
  by auto
termination by (relation "measure (\<lambda>(ks, key, lo). length ks - lo)") auto

definition find_lower :: "'k::linorder list \<Rightarrow> 'k \<Rightarrow> nat" where
  "find_lower ks key = find_lower_from ks key 0"

function find_upper_from :: "'k::linorder list \<Rightarrow> 'k \<Rightarrow> nat \<Rightarrow> nat" where
  "find_upper_from ks key lo =
     (if lo < length ks \<and> key_lessequal (ks ! lo) key then find_upper_from ks key (lo + 1) else lo)"
  by auto
termination by (relation "measure (\<lambda>(ks, key, lo). length ks - lo)") auto

definition find_upper :: "'k::linorder list \<Rightarrow> 'k \<Rightarrow> nat" where
  "find_upper ks key = find_upper_from ks key 0"

text \<open>The binary searches, which the condition \<open>0 && ...\<close> disables.\<close>

function bin_lower_loop :: "'k::linorder list \<Rightarrow> 'k \<Rightarrow> nat \<Rightarrow> nat \<Rightarrow> nat" where
  "bin_lower_loop ks key lo hi = (if lo < hi then
     (let mid = (lo + hi) div 2 in
      if key_lessequal key (ks ! mid) then bin_lower_loop ks key lo mid
      else bin_lower_loop ks key (mid + 1) hi) else lo)"
  by auto
termination by (relation "measure (\<lambda>(ks, key, lo, hi). hi - lo)") auto

definition bin_lower :: "'k::linorder list \<Rightarrow> 'k \<Rightarrow> nat" where
  "bin_lower ks key = (if length ks = 0 then 0 else bin_lower_loop ks key 0 (length ks))"

function bin_upper_loop :: "'k::linorder list \<Rightarrow> 'k \<Rightarrow> nat \<Rightarrow> nat \<Rightarrow> nat" where
  "bin_upper_loop ks key lo hi = (if lo < hi then
     (let mid = (lo + hi) div 2 in
      if key_less key (ks ! mid) then bin_upper_loop ks key lo mid
      else bin_upper_loop ks key (mid + 1) hi) else lo)"
  by auto
termination by (relation "measure (\<lambda>(ks, key, lo, hi). hi - lo)") auto

definition bin_upper :: "'k::linorder list \<Rightarrow> 'k \<Rightarrow> nat" where
  "bin_upper ks key = (if length ks = 0 then 0 else bin_upper_loop ks key 0 (length ks))"

declare find_lower_from.simps [simp del] find_upper_from.simps [simp del]
  bin_lower_loop.simps [simp del] bin_upper_loop.simps [simp del]

section \<open>Iterators\<close>

text \<open>
  An iterator is a leaf pointer (\<open>None\<close> for \<open>NULL\<close>) and a slot. The operations read the leaf
  behind the pointer; \<open>None\<close> as a result is a read through \<open>NULL\<close> or a freed leaf.
\<close>

type_synonym iter = "nat option \<times> nat"

definition leaf_at :: "('k, 'v) stx \<Rightarrow> nat \<Rightarrow> ('k, 'v) kvs option" where
  "leaf_at s a = (case m_root s of None \<Rightarrow> None | Some r \<Rightarrow> map_of (sleaves r) a)"

definition it_begin :: "('k, 'v) stx \<Rightarrow> iter" where
  "it_begin s = (m_headleaf (m_mem s), 0)"

definition it_end :: "('k, 'v) stx \<Rightarrow> iter" where
  "it_end s = (case m_tailleaf (m_mem s) of None \<Rightarrow> (None, 0)
     | Some a \<Rightarrow> (Some a, case leaf_at s a of None \<Rightarrow> 0 | Some d \<Rightarrow> length d))"

definition it_deref :: "('k, 'v) stx \<Rightarrow> iter \<Rightarrow> ('k \<times> 'v) option" where
  "it_deref s it = (case it of (None, _) \<Rightarrow> None
     | (Some a, slot) \<Rightarrow> (case leaf_at s a of None \<Rightarrow> None
         | Some d \<Rightarrow> if slot < length d then Some (d ! slot) else None))"

definition it_inc :: "('k, 'v) stx \<Rightarrow> iter \<Rightarrow> iter option" where
  "it_inc s it = (case it of (None, _) \<Rightarrow> None
     | (Some a, slot) \<Rightarrow> (case leaf_at s a of None \<Rightarrow> None
         | Some d \<Rightarrow>
             if slot + 1 < length d then Some (Some a, slot + 1)
             else (case nextleaf (m_mem s) a of
                 Some b \<Rightarrow> Some (Some b, 0)
               | None \<Rightarrow> Some (Some a, length d))))"

definition it_dec :: "('k, 'v) stx \<Rightarrow> iter \<Rightarrow> iter option" where
  "it_dec s it = (case it of (None, _) \<Rightarrow> None
     | (Some a, slot) \<Rightarrow>
         if 0 < slot then Some (Some a, slot - 1)
         else (case prevleaf (m_mem s) a of
             Some b \<Rightarrow> (case leaf_at s b of None \<Rightarrow> None | Some d \<Rightarrow> Some (Some b, length d - 1))
           | None \<Rightarrow> Some (Some a, 0)))"

section \<open>Descending\<close>

text \<open>
  The descent shared by the queries. A node has one child more than keys, so \<open>childid[slot]\<close>
  exists; the branch for a missing child keeps the recursion well-founded.
\<close>

lemma snode_child_size [termination_simp]:
  "i < length cs \<Longrightarrow> size (cs ! i) \<le> n + size_list size cs"
  by (rule trans_le_add2 [OF size_list_estimation' [OF nth_mem order_refl]])

function sdescend :: "('k list \<Rightarrow> 'k \<Rightarrow> nat) \<Rightarrow> 'k::linorder \<Rightarrow> ('k, 'v) snode \<Rightarrow> nat \<times> ('k, 'v) kvs" where
  "sdescend fnd key (SLeaf a d) = (a, d)"
| "sdescend fnd key (SInner l ks cs) =
     (if fnd ks key < length cs then sdescend fnd key (cs ! fnd ks key) else (0, []))"
  by pat_completeness auto
termination
  by (relation "measure (\<lambda>(fnd, key, n). size n)") (auto simp: less_Suc_eq_le snode_child_size)

section \<open>Queries\<close>

definition stx_size :: "('k, 'v) stx \<Rightarrow> nat" where
  "stx_size s = itemcount s"

definition stx_empty :: "('k, 'v) stx \<Rightarrow> bool" where
  "stx_empty s = (stx_size s = 0)"

definition stx_exists :: "('k::linorder, 'v) stx \<Rightarrow> 'k \<Rightarrow> bool" where
  "stx_exists s key = (case m_root s of None \<Rightarrow> False
   | Some n \<Rightarrow> (case sdescend find_lower key n of (a, d) \<Rightarrow>
       let slot = find_lower (map fst d) key in
       slot < length d \<and> key_equal key (fst (d ! slot))))"

definition stx_find :: "('k::linorder, 'v) stx \<Rightarrow> 'k \<Rightarrow> iter" where
  "stx_find s key = (case m_root s of None \<Rightarrow> it_end s
   | Some n \<Rightarrow> (case sdescend find_lower key n of (a, d) \<Rightarrow>
       let slot = find_lower (map fst d) key in
       if slot < length d \<and> key_equal key (fst (d ! slot)) then (Some a, slot) else it_end s))"

text \<open>
  The counting loop of \<open>count\<close>. Each step counts one item, so one step more than there are items
  is enough fuel.
\<close>

fun count_loop :: "nat \<Rightarrow> ('k::linorder, 'v) stx \<Rightarrow> 'k \<Rightarrow> nat option \<Rightarrow> nat \<Rightarrow> nat \<Rightarrow> nat option" where
  "count_loop 0 s key leaf slot num = None"
| "count_loop (Suc fuel) s key leaf slot num = (case leaf of None \<Rightarrow> Some num
   | Some a \<Rightarrow> (case leaf_at s a of None \<Rightarrow> None
     | Some d \<Rightarrow>
         if slot < length d \<and> key_equal key (fst (d ! slot)) then
           if length d \<le> slot + 1 then count_loop fuel s key (nextleaf (m_mem s) a) 0 (num + 1)
           else count_loop fuel s key (Some a) (slot + 1) (num + 1)
         else Some num))"

definition stx_count :: "('k::linorder, 'v) stx \<Rightarrow> 'k \<Rightarrow> nat option" where
  "stx_count s key = (case m_root s of None \<Rightarrow> Some 0
   | Some n \<Rightarrow> (case sdescend find_lower key n of (a, d) \<Rightarrow>
       count_loop (stx_size s + 1) s key (Some a) (find_lower (map fst d) key) 0))"

definition stx_lower_bound :: "('k::linorder, 'v) stx \<Rightarrow> 'k \<Rightarrow> iter" where
  "stx_lower_bound s key = (case m_root s of None \<Rightarrow> it_end s
   | Some n \<Rightarrow> (case sdescend find_lower key n of (a, d) \<Rightarrow> (Some a, find_lower (map fst d) key)))"

definition stx_upper_bound :: "('k::linorder, 'v) stx \<Rightarrow> 'k \<Rightarrow> iter" where
  "stx_upper_bound s key = (case m_root s of None \<Rightarrow> it_end s
   | Some n \<Rightarrow> (case sdescend find_upper key n of (a, d) \<Rightarrow> (Some a, find_upper (map fst d) key)))"

definition stx_equal_range :: "('k::linorder, 'v) stx \<Rightarrow> 'k \<Rightarrow> iter \<times> iter" where
  "stx_equal_range s key = (stx_lower_bound s key, stx_upper_bound s key)"

section \<open>Insertion\<close>

text \<open>\<open>copy_backward\<close> from a slot on, the write of the slot and \<open>slotuse++\<close>.\<close>

definition put_slot :: "nat \<Rightarrow> 'a \<Rightarrow> 'a list \<Rightarrow> 'a list" where
  "put_slot slot x xs = take slot xs @ x # drop slot xs"

definition split_leaf_node ::
  "smem \<Rightarrow> nat \<Rightarrow> ('k, 'v) kvs \<Rightarrow> smem \<times> ('k, 'v) kvs \<times> 'k \<times> nat \<times> ('k, 'v) kvs" where
  "split_leaf_node m a d = (let
     mid = length d div 2;
     (m, newleaf) = allocate_leaf m;
     m = m\<lparr>nextleaf := (nextleaf m)(newleaf := nextleaf m a)\<rparr>;
     m = (case nextleaf m newleaf of
            None \<Rightarrow> m\<lparr>m_tailleaf := Some newleaf\<rparr>
          | Some x \<Rightarrow> m\<lparr>prevleaf := (prevleaf m)(x := Some newleaf)\<rparr>);
     right = drop mid d;
     left = take mid d;
     m = m\<lparr>nextleaf := (nextleaf m)(a := Some newleaf)\<rparr>;
     m = m\<lparr>prevleaf := (prevleaf m)(newleaf := Some a)\<rparr>
   in (m, left, fst (left ! (length left - 1)), newleaf, right))"

text \<open>
  Where an inner node of \<open>n\<close> keys is split: in the middle, one to the left if the split is uneven
  and the overflowing item goes into the larger node.
\<close>

definition split_mid :: "nat \<Rightarrow> nat \<Rightarrow> nat" where
  "split_mid n addslot = (let mid = n div 2 in
     if addslot \<le> mid \<and> mid > n - (mid + 1) then mid - 1 else mid)"

definition split_inner_node ::
  "smem \<Rightarrow> 'k list \<Rightarrow> 'n list \<Rightarrow> nat \<Rightarrow> smem \<times> 'k list \<times> 'n list \<times> 'k \<times> 'k list \<times> 'n list" where
  "split_inner_node m ks cs addslot = (let
     mid = split_mid (length ks) addslot;
     m = allocate_inner m
   in (m, take mid ks, take (mid + 1) cs, ks ! mid, drop (mid + 1) ks, drop (mid + 1) cs))"

text \<open>
  What an insertion into a subtree yields: the node, the members, the iterator to the slot,
  whether the item was inserted, and \<open>*splitkey\<close> with \<open>*splitnode\<close> if the latter was set.
  (\<open>*splitkey\<close> is read only then.)
\<close>

type_synonym ('k, 'v) sins = "('k, 'v) snode \<times> smem \<times> iter \<times> bool \<times> ('k \<times> ('k, 'v) snode) option"

definition insert_leaf ::
  "scfg \<Rightarrow> 'k::linorder \<Rightarrow> 'v \<Rightarrow> smem \<Rightarrow> nat \<Rightarrow> ('k, 'v) kvs \<Rightarrow> ('k, 'v) sins" where
  "insert_leaf c key value m a d = (let slot = find_lower (map fst d) key in
     if \<not> allow_duplicates c \<and> slot < length d \<and> key_equal key (fst (d ! slot))
     then (SLeaf a d, m, (Some a, slot), False, None)
     else if isfull c (SLeaf a d) then
       (case split_leaf_node m a d of (m, left, splitkey, b, right) \<Rightarrow>
          if length left \<le> slot then
            (let slot = slot - length left in
             (SLeaf a left, m, (Some b, slot), True,
              Some (splitkey, SLeaf b (put_slot slot (key, value) right))))
          else
            (let left = put_slot slot (key, value) left;
                 splitkey = (if slot = length left - 1 then key else splitkey) in
             (SLeaf a left, m, (Some a, slot), True, Some (splitkey, SLeaf b right))))
     else (SLeaf a (put_slot slot (key, value) d), m, (Some a, slot), True, None))"

text \<open>The part of an inner node that takes in the new child at \<open>slot\<close>, splitting if it is full.\<close>

definition insert_child ::
  "scfg \<Rightarrow> smem \<Rightarrow> nat \<Rightarrow> 'k list \<Rightarrow> ('k, 'v) snode list \<Rightarrow> nat \<Rightarrow> 'k \<Rightarrow> ('k, 'v) snode \<Rightarrow>
   ('k, 'v) snode \<times> smem \<times> ('k \<times> ('k, 'v) snode) option" where
  "insert_child c m l ks cs slot newkey newchild =
     (if isfull c (SInner l ks cs) then
       (case split_inner_node m ks cs slot of (m, lks, lcs, splitkey, rks, rcs) \<Rightarrow>
          if slot = length lks + 1 \<and> length lks < length rks then
            (SInner l (lks @ [splitkey]) (lcs @ [rcs ! 0]), m,
             Some (newkey, SInner l rks (rcs[0 := newchild])))
          else if length lks + 1 \<le> slot then
            (let slot = slot - (length lks + 1) in
             (SInner l lks lcs, m,
              Some (splitkey, SInner l (put_slot slot newkey rks) (put_slot (slot + 1) newchild rcs))))
          else
            (SInner l (put_slot slot newkey lks) (put_slot (slot + 1) newchild lcs), m,
             Some (splitkey, SInner l rks rcs)))
     else (SInner l (put_slot slot newkey ks) (put_slot (slot + 1) newchild cs), m, None))"

function insert_descend ::
  "scfg \<Rightarrow> 'k::linorder \<Rightarrow> 'v \<Rightarrow> smem \<Rightarrow> ('k, 'v) snode \<Rightarrow> ('k, 'v) sins" where
  "insert_descend c key value m (SLeaf a d) = insert_leaf c key value m a d"
| "insert_descend c key value m (SInner l ks cs) =
     (let slot = find_lower ks key in
      if slot < length cs then
        (case insert_descend c key value m (cs ! slot) of (child, m, it, ins, newchild) \<Rightarrow>
           let cs = cs[slot := child] in
           (case newchild of
              None \<Rightarrow> (SInner l ks cs, m, it, ins, None)
            | Some (newkey, new) \<Rightarrow>
                (case insert_child c m l ks cs slot newkey new of (n, m, split) \<Rightarrow>
                   (n, m, it, ins, split))))
      else (SInner l ks cs, m, (None, 0), False, None))"
  by pat_completeness auto
termination
  by (relation "measure (\<lambda>(c, key, value, m, n). size n)") (auto simp: less_Suc_eq_le snode_child_size)

definition insert_start ::
  "scfg \<Rightarrow> ('k::linorder, 'v) stx \<Rightarrow> 'k \<Rightarrow> 'v \<Rightarrow> ('k, 'v) stx \<times> iter \<times> bool" where
  "insert_start c s key value = (let
     (root, m) = (case m_root s of
        Some r \<Rightarrow> (r, m_mem s)
      | None \<Rightarrow> (case allocate_leaf (m_mem s) of (m, a) \<Rightarrow>
          (SLeaf a [], m\<lparr>m_headleaf := Some a, m_tailleaf := Some a\<rparr>)));
     (root, m, it, ins, newchild) = insert_descend c key value m root;
     (root, m) = (case newchild of
        None \<Rightarrow> (root, m)
      | Some (newkey, new) \<Rightarrow> (SInner (slevel root + 1) [newkey] [root, new], allocate_inner m))
   in (s\<lparr>m_root := Some root, m_mem := m, itemcount := (if ins then itemcount s + 1 else itemcount s)\<rparr>,
       it, ins))"

definition stx_insert :: "scfg \<Rightarrow> ('k::linorder, 'v) stx \<Rightarrow> 'k \<times> 'v \<Rightarrow> ('k, 'v) stx \<times> iter \<times> bool" where
  "stx_insert c s x = insert_start c s (fst x) (snd x)"

text \<open>Insertion of the range \<open>[first,last)\<close>.\<close>

fun stx_insert_range :: "scfg \<Rightarrow> ('k::linorder, 'v) stx \<Rightarrow> ('k, 'v) kvs \<Rightarrow> ('k, 'v) stx" where
  "stx_insert_range c s [] = s"
| "stx_insert_range c s (x # xs) = stx_insert_range c (fst (stx_insert c s x)) xs"

section \<open>Bulk loading\<close>

text \<open>A new leaf at the end of the chain.\<close>

definition bulk_link :: "nat \<Rightarrow> smem \<Rightarrow> smem" where
  "bulk_link leaf m = (let
     m = (case m_tailleaf m of
            Some t \<Rightarrow> m\<lparr>nextleaf := (nextleaf m)(t := Some leaf), prevleaf := (prevleaf m)(leaf := Some t)\<rparr>
          | None \<Rightarrow> m\<lparr>m_headleaf := Some leaf\<rparr>)
   in m\<lparr>m_tailleaf := Some leaf\<rparr>)"

text \<open>
  The loop over the leaves, with \<open>r = num_leaves - i\<close> leaves still to fill and \<open>xs\<close> the items
  from \<open>it\<close> on, so \<open>num_items\<close> is their number.
\<close>

fun bulk_leaves :: "nat \<Rightarrow> smem \<Rightarrow> ('k, 'v) kvs \<Rightarrow> smem \<times> (nat \<times> ('k, 'v) kvs) list" where
  "bulk_leaves 0 m xs = (m, [])"
| "bulk_leaves (Suc r) m xs = (let
     (m, leaf) = allocate_leaf m;
     n = length xs div Suc r;
     (m, ls) = bulk_leaves r (bulk_link leaf m) (drop n xs)
   in (m, (leaf, take n xs) # ls))"

text \<open>
  One level of inner nodes over the nodes of the level below, each with the largest key under
  it (\<open>nextlevel\<close>); \<open>r = num_parents - i\<close> nodes are still to be built.
\<close>

fun bulk_level :: "nat \<Rightarrow> nat \<Rightarrow> smem \<Rightarrow> (('k, 'v) snode \<times> 'k) list \<Rightarrow>
    smem \<times> (('k, 'v) snode \<times> 'k) list" where
  "bulk_level l 0 m next = (m, [])"
| "bulk_level l (Suc r) m next = (let
     m = allocate_inner m;
     n = length next div Suc r;
     slots = take (n - 1) next;
     top = next ! (n - 1);
     (m, ns) = bulk_level l r m (drop n next)
   in (m, (SInner l (map snd slots) (map fst slots @ [fst top]), snd top) # ns))"

lemma bulk_level_length: "length (snd (bulk_level l r m next)) = r"
  by (induction r arbitrary: m "next") (simp_all add: Let_def split_beta)

lemma bulk_parents_less:
  assumes "2 \<le> n"
  shows "(n + (innerslotmax c + 1) - 1) div (innerslotmax c + 1) < n"
proof -
  let ?w = "innerslotmax c"
  have "1 * 8 \<le> (n - 1) * ?w" using assms by (intro mult_le_mono) (auto simp: innerslotmax_def)
  moreover have "n * ?w = (n - 1) * ?w + ?w" using assms by (cases n) auto
  ultimately have "n + ?w < n * (?w + 1)" unfolding distrib_left by linarith
  then show ?thesis by (simp add: less_mult_imp_div_less)
qed

function bulk_levels :: "scfg \<Rightarrow> nat \<Rightarrow> smem \<Rightarrow> (('k, 'v) snode \<times> 'k) list \<Rightarrow>
    smem \<times> (('k, 'v) snode \<times> 'k) list" where
  "bulk_levels c l m next =
     (if length next \<le> 1 then (m, next)
      else (let num_parents = (length next + (innerslotmax c + 1) - 1) div (innerslotmax c + 1) in
            case bulk_level l num_parents m next of (m, next) \<Rightarrow> bulk_levels c (l + 1) m next))"
  by pat_completeness auto
termination
proof (relation "measure (\<lambda>(c, l, m, next). length next)")
  fix c l m and "next" :: "(('a, 'b) snode \<times> 'a) list" and p m' next'
  assume n: "\<not> length next \<le> 1" and p: "p = (length next + (innerslotmax c + 1) - 1) div (innerslotmax c + 1)"
    and r: "(m', next') = bulk_level l p m next"
  have "length next' = p" using bulk_level_length [of l p m "next"] r by (metis snd_conv)
  moreover have "p < length next" using n unfolding p by (intro bulk_parents_less) auto
  ultimately show "((c, l + 1, m', next'), c, l, m, next) \<in> measure (\<lambda>(c, l, m, next). length next)"
    by simp
qed simp

declare bulk_levels.simps [simp del]

text \<open>The loader; the tree must be empty.\<close>

definition stx_bulk_load :: "scfg \<Rightarrow> ('k, 'v) stx \<Rightarrow> ('k, 'v) kvs \<Rightarrow> ('k, 'v) stx" where
  "stx_bulk_load c s xs = (let
     num_leaves = (length xs + leafslotmax c - 1) div leafslotmax c;
     (m, ls) = bulk_leaves num_leaves (m_mem s) xs
   in if m_headleaf m = m_tailleaf m
      then s\<lparr>itemcount := length xs, m_mem := m, m_root := (case ls of [] \<Rightarrow> None | (a, d) # _ \<Rightarrow> Some (SLeaf a d))\<rparr>
      else (let
        num_parents = (num_leaves + (innerslotmax c + 1) - 1) div (innerslotmax c + 1);
        lastkeys = map (\<lambda>(a, d). (SLeaf a d, fst (d ! (length d - 1)))) ls;
        (m, next) = bulk_level 1 num_parents m lastkeys;
        (m, next) = bulk_levels c 2 m next
      in s\<lparr>itemcount := length xs, m_mem := m, m_root := Some (fst (next ! 0))\<rparr>))"

section \<open>Copying\<close>

fun copy_recursive :: "('k, 'v) snode \<Rightarrow> smem \<Rightarrow> ('k, 'v) snode \<times> smem"
  and copy_children :: "('k, 'v) snode list \<Rightarrow> smem \<Rightarrow> ('k, 'v) snode list \<times> smem" where
  "copy_recursive (SLeaf a d) m = (let
     (m, newleaf) = allocate_leaf m;
     m = (case m_headleaf m of
            None \<Rightarrow> m\<lparr>m_headleaf := Some newleaf, m_tailleaf := Some newleaf,
                       prevleaf := (prevleaf m)(newleaf := None), nextleaf := (nextleaf m)(newleaf := None)\<rparr>
          | Some _ \<Rightarrow> (let m = m\<lparr>prevleaf := (prevleaf m)(newleaf := m_tailleaf m)\<rparr> in
              (case m_tailleaf m of
                 Some t \<Rightarrow> m\<lparr>nextleaf := (nextleaf m)(t := Some newleaf), m_tailleaf := Some newleaf\<rparr>
               | None \<Rightarrow> m)))
   in (SLeaf newleaf d, m))"
| "copy_recursive (SInner l ks cs) m = (let
     m = allocate_inner m;
     (cs, m) = copy_children cs m
   in (SInner l ks cs, m))"
| "copy_children [] m = ([], m)"
| "copy_children (n # ns) m = (let
     (n, m) = copy_recursive n m;
     (ns, m) = copy_children ns m
   in (n # ns, m))"

text \<open>Assignment from another tree.\<close>

definition stx_assign :: "('k, 'v) stx \<Rightarrow> ('k, 'v) stx \<Rightarrow> ('k, 'v) stx" where
  "stx_assign s other = (let s = clear s in
     if stx_size other \<noteq> 0 then
       (let m = (m_mem s)\<lparr>st_leaves := 0, st_innernodes := 0\<rparr>;
            (root, m) = (case m_root other of
               None \<Rightarrow> (m_root s, m)
             | Some r \<Rightarrow> (case copy_recursive r m of (r, m) \<Rightarrow> (Some r, m)))
        in \<lparr>m_root = root,
            m_mem = m\<lparr>st_leaves := st_leaves (m_mem other), st_innernodes := st_innernodes (m_mem other)\<rparr>,
            itemcount = itemcount other\<rparr>)
     else s)"

section \<open>The self-check\<close>

text \<open>
  \<open>verify_node\<close> returns the smallest and the largest key below the node with the number of
  items, leaves and inner nodes, or \<open>None\<close> where an assertion fails.
\<close>

definition leaf_linked :: "smem \<Rightarrow> ('k, 'v) snode \<Rightarrow> ('k, 'v) snode \<Rightarrow> bool" where
  "leaf_linked m n n' = (case (n, n') of
     (SLeaf a d, SLeaf b e) \<Rightarrow> nextleaf m a = Some b \<and> prevleaf m b = Some a
   | _ \<Rightarrow> False)"

fun lastchild :: "('k, 'v) snode \<Rightarrow> ('k, 'v) snode" where
  "lastchild (SInner l ks cs) = cs ! length ks"
| "lastchild n = n"

fun firstchild :: "('k, 'v) snode \<Rightarrow> ('k, 'v) snode" where
  "firstchild (SInner l ks cs) = cs ! 0"
| "firstchild n = n"

definition slots_ordered :: "'k::linorder list \<Rightarrow> bool" where
  "slots_ordered ks = (\<forall>slot < length ks - 1. key_lessequal (ks ! slot) (ks ! (slot + 1)))"

text \<open>The checks of the loop over the children that look at \<open>childid[slot]\<close> and its neighbour.\<close>

definition verify_links :: "smem \<Rightarrow> nat \<Rightarrow> ('k, 'v) snode \<Rightarrow> ('k, 'v) snode \<Rightarrow> bool" where
  "verify_links m l n n' =
     ((l = 1 \<longrightarrow> leaf_linked m n n') \<and> (l = 2 \<longrightarrow> leaf_linked m (lastchild n) (firstchild n')))"

type_synonym 'k svstats = "'k \<times> 'k \<times> nat \<times> nat \<times> nat"

fun verify_node :: "scfg \<Rightarrow> smem \<Rightarrow> bool \<Rightarrow> ('k::linorder, 'v) snode \<Rightarrow> 'k svstats option"
  and verify_children :: "scfg \<Rightarrow> smem \<Rightarrow> nat \<Rightarrow> 'k::linorder option \<Rightarrow> 'k list \<Rightarrow> ('k, 'v) snode list \<Rightarrow>
    'k svstats option" where
  "verify_node c m isroot (SLeaf a d) =
     (if (isroot \<or> \<not> isunderflow c (SLeaf a d)) \<and> 0 < length d \<and> slots_ordered (map fst d)
      then Some (fst (d ! 0), fst (d ! (length d - 1)), length d, 1, 0) else None)"
| "verify_node c m isroot (SInner l ks cs) =
     (if (isroot \<or> \<not> isunderflow c (SInner l ks cs)) \<and> 0 < length ks \<and> slots_ordered ks
      then (case verify_children c m l None ks cs of
          None \<Rightarrow> None
        | Some (mn, mx, items, leaves, inners) \<Rightarrow> Some (mn, mx, items, leaves, inners + 1))
      else None)"
| "verify_children c m l prevkey ks [] = None"
| "verify_children c m l prevkey ks (n # ns) =
     (if slevel n + 1 = l then
       (case verify_node c m False n of
          None \<Rightarrow> None
        | Some (mn, mx, items, leaves, inners) \<Rightarrow>
            if (case prevkey of None \<Rightarrow> True | Some k \<Rightarrow> key_greaterequal mn k) then
              (case ks of
                 [] \<Rightarrow> if ns = [] then Some (mn, mx, items, leaves, inners) else None
               | k # ks' \<Rightarrow>
                   if key_equal k mx \<and> ns \<noteq> [] \<and> verify_links m l n (hd ns) then
                     (case verify_children c m l (Some k) ks' ns of
                        None \<Rightarrow> None
                      | Some (_, mx', items', leaves', inners') \<Rightarrow>
                          Some (mn, mx', items + items', leaves + leaves', inners + inners'))
                   else None)
            else None)
      else None)"

text \<open>The walk of \<open>verify_leaflinks\<close>; the number of leaves bounds it.\<close>

fun verify_chain :: "nat \<Rightarrow> ('k::linorder, 'v) stx \<Rightarrow> nat option \<Rightarrow> nat option" where
  "verify_chain fuel s None = Some 0"
| "verify_chain 0 s (Some a) = None"
| "verify_chain (Suc fuel) s (Some a) = (case leaf_at s a of None \<Rightarrow> None
   | Some d \<Rightarrow>
       if 0 < length d \<and> slots_ordered (map fst d)
          \<and> (case nextleaf (m_mem s) a of
               None \<Rightarrow> m_tailleaf (m_mem s) = Some a
             | Some b \<Rightarrow> (case leaf_at s b of None \<Rightarrow> False
                 | Some e \<Rightarrow> e \<noteq> [] \<and> key_lessequal (fst (d ! (length d - 1))) (fst (e ! 0)))
                 \<and> prevleaf (m_mem s) b = Some a)
       then (case verify_chain fuel s (nextleaf (m_mem s) a) of
           None \<Rightarrow> None | Some n \<Rightarrow> Some (length d + n))
       else None)"

definition verify_leaflinks :: "('k::linorder, 'v) stx \<Rightarrow> bool" where
  "verify_leaflinks s = (case m_headleaf (m_mem s) of
     None \<Rightarrow> False
   | Some a \<Rightarrow> prevleaf (m_mem s) a = None
       \<and> verify_chain (st_leaves (m_mem s)) s (Some a) = Some (stx_size s))"

definition verify :: "scfg \<Rightarrow> ('k::linorder, 'v) stx \<Rightarrow> bool" where
  "verify c s = (case m_root s of None \<Rightarrow> True
   | Some r \<Rightarrow> (case verify_node c (m_mem s) True r of
       None \<Rightarrow> False
     | Some (mn, mx, items, leaves, inners) \<Rightarrow>
         items = itemcount s \<and> leaves = st_leaves (m_mem s) \<and> inners = st_innernodes (m_mem s)
         \<and> verify_leaflinks s))"

end
