(* ===== verification/STX_Correct.thy ===== *)
theory STX_Correct
  imports STX_BTree
begin

text \<open>
  Correctness of the STX B+-tree: the searches find the bounds, insertion keeps the invariant
  (every separator is the largest key below the child to its left, nodes between half full and
  full, all leaves at one depth, the leaf chain in order) and acts on the ordered list of
  entries as \<open>kv_insert\<close>, and the queries read that list.
\<close>

section \<open>The searches of a node\<close>

lemma key_cmp [simp]:
  "key_less a b \<longleftrightarrow> a < b" "key_lessequal a b \<longleftrightarrow> a \<le> b"
  "key_greaterequal a b \<longleftrightarrow> b \<le> a" "key_equal a b \<longleftrightarrow> a = b"
  by (auto simp: key_less_def key_lessequal_def key_greaterequal_def key_equal_def)

lemma find_lower_from_rank:
  "lo \<le> length ks \<Longrightarrow> \<forall>i<lo. ks ! i < key \<Longrightarrow> find_lower_from ks key lo = rank_less key ks"
proof (induction ks key lo rule: find_lower_from.induct)
  case (1 ks key lo)
  show ?case
  proof (cases "lo < length ks \<and> ks ! lo < key")
    case True
    with 1 show ?thesis by (subst find_lower_from.simps) (auto simp: less_Suc_eq)
  next
    case False
    with 1 have "rank_less key ks = lo" by (intro rank_less_eqI) (auto simp: not_less)
    with False show ?thesis by (subst find_lower_from.simps) auto
  qed
qed

lemma find_lower_rank [simp]: "find_lower ks key = rank_less key ks"
  by (simp add: find_lower_def find_lower_from_rank)

lemma find_upper_from_rank:
  "lo \<le> length ks \<Longrightarrow> \<forall>i<lo. ks ! i \<le> key \<Longrightarrow> find_upper_from ks key lo = rank_le key ks"
proof (induction ks key lo rule: find_upper_from.induct)
  case (1 ks key lo)
  show ?case
  proof (cases "lo < length ks \<and> ks ! lo \<le> key")
    case True
    with 1 show ?thesis by (subst find_upper_from.simps) (auto simp: less_Suc_eq)
  next
    case False
    with 1 have "rank_le key ks = lo" by (intro rank_le_eqI) (auto simp: not_le)
    with False show ?thesis by (subst find_upper_from.simps) auto
  qed
qed

lemma find_upper_rank [simp]: "find_upper ks key = rank_le key ks"
  by (simp add: find_upper_def find_upper_from_rank)

lemma bin_lower_loop_rank:
  assumes "sorted ks" and "lo \<le> hi" and "hi \<le> length ks"
    and "\<forall>i<lo. ks ! i < key" and "\<forall>i. hi \<le> i \<and> i < length ks \<longrightarrow> key \<le> ks ! i"
  shows "bin_lower_loop ks key lo hi = rank_less key ks"
  using assms
proof (induction ks key lo hi rule: bin_lower_loop.induct)
  case (1 ks key lo hi)
  show ?case
  proof (cases "lo < hi")
    case False
    with "1.prems" have "rank_less key ks = lo" by (intro rank_less_eqI) auto
    with False show ?thesis by (subst bin_lower_loop.simps) simp
  next
    case True
    define mid where "mid = (lo + hi) div 2"
    have mid: "lo \<le> mid" "mid < hi" using True by (auto simp: mid_def)
    show ?thesis
    proof (cases "key \<le> ks ! mid")
      case le: True
      have "\<forall>i. mid \<le> i \<and> i < length ks \<longrightarrow> key \<le> ks ! i"
        using le sorted_nth_mono [OF "1.prems"(1)] by (meson order_trans)
      with "1.IH"(1) [OF True mid_def] le mid "1.prems" have "bin_lower_loop ks key lo mid = rank_less key ks"
        by simp
      with True le show ?thesis by (subst bin_lower_loop.simps) (simp add: mid_def [symmetric] Let_def)
    next
      case gt: False
      have "\<forall>i<mid + 1. ks ! i < key"
        using gt sorted_nth_mono [OF "1.prems"(1), of _ mid] mid "1.prems"(3)
        by (metis Suc_eq_plus1 le_less_trans less_Suc_eq_le not_le order_less_le_trans)
      with "1.IH"(2) [OF True mid_def] gt mid "1.prems"
      have "bin_lower_loop ks key (mid + 1) hi = rank_less key ks" by simp
      with True gt show ?thesis by (subst bin_lower_loop.simps) (simp add: mid_def [symmetric] Let_def)
    qed
  qed
qed

lemma bin_upper_loop_rank:
  assumes "sorted ks" and "lo \<le> hi" and "hi \<le> length ks"
    and "\<forall>i<lo. ks ! i \<le> key" and "\<forall>i. hi \<le> i \<and> i < length ks \<longrightarrow> key < ks ! i"
  shows "bin_upper_loop ks key lo hi = rank_le key ks"
  using assms
proof (induction ks key lo hi rule: bin_upper_loop.induct)
  case (1 ks key lo hi)
  show ?case
  proof (cases "lo < hi")
    case False
    with "1.prems" have "rank_le key ks = lo" by (intro rank_le_eqI) auto
    with False show ?thesis by (subst bin_upper_loop.simps) simp
  next
    case True
    define mid where "mid = (lo + hi) div 2"
    have mid: "lo \<le> mid" "mid < hi" using True by (auto simp: mid_def)
    show ?thesis
    proof (cases "key < ks ! mid")
      case lt: True
      have "\<forall>i. mid \<le> i \<and> i < length ks \<longrightarrow> key < ks ! i"
        using lt sorted_nth_mono [OF "1.prems"(1)] by (meson order_less_le_trans)
      with "1.IH"(1) [OF True mid_def] lt mid "1.prems" have "bin_upper_loop ks key lo mid = rank_le key ks"
        by simp
      with True lt show ?thesis by (subst bin_upper_loop.simps) (simp add: mid_def [symmetric] Let_def)
    next
      case ge: False
      have "\<forall>i<mid + 1. ks ! i \<le> key"
        using ge sorted_nth_mono [OF "1.prems"(1), of _ mid] mid "1.prems"(3)
        by (metis Suc_eq_plus1 less_Suc_eq_le not_less order_trans order_less_le_trans)
      with "1.IH"(2) [OF True mid_def] ge mid "1.prems"
      have "bin_upper_loop ks key (mid + 1) hi = rank_le key ks" by simp
      with True ge show ?thesis by (subst bin_upper_loop.simps) (simp add: mid_def [symmetric] Let_def)
    qed
  qed
qed

lemma bin_lower_rank: "sorted ks \<Longrightarrow> bin_lower ks key = rank_less key ks"
proof (cases "ks = []")
  case False
  assume "sorted ks"
  then have "bin_lower_loop ks key 0 (length ks) = rank_less key ks"
    by (rule bin_lower_loop_rank) auto
  with False show ?thesis by (simp add: bin_lower_def)
qed (simp add: bin_lower_def rank_less_def)

lemma bin_upper_rank: "sorted ks \<Longrightarrow> bin_upper ks key = rank_le key ks"
proof (cases "ks = []")
  case False
  assume "sorted ks"
  then have "bin_upper_loop ks key 0 (length ks) = rank_le key ks"
    by (rule bin_upper_loop_rank) auto
  with False show ?thesis by (simp add: bin_upper_def)
qed (simp add: bin_upper_def rank_le_def)

section \<open>Array steps\<close>

lemma length_put_slot [simp]: "slot \<le> length xs \<Longrightarrow> length (put_slot slot x xs) = Suc (length xs)"
  by (simp add: put_slot_def)

lemma put_slot_take:
  "slot \<le> length xs \<Longrightarrow> n \<le> slot \<Longrightarrow> take n (put_slot slot x xs) = take n xs"
  "slot < n \<Longrightarrow> n \<le> Suc (length xs) \<Longrightarrow> take n (put_slot slot x xs) = put_slot slot x (take (n - 1) xs)"
  by (simp_all add: put_slot_def min_def take_Cons' drop_take)

lemma put_slot_drop:
  "slot \<le> length xs \<Longrightarrow> n \<le> slot \<Longrightarrow> drop n (put_slot slot x xs) = put_slot (slot - n) x (drop n xs)"
  "slot < n \<Longrightarrow> slot \<le> length xs \<Longrightarrow> drop n (put_slot slot x xs) = drop (n - 1) xs"
  by (auto simp: put_slot_def drop_Cons' drop_take min_def)

lemma put_slot_nth:
  "slot \<le> length xs \<Longrightarrow> put_slot slot x xs ! i = (if i < slot then xs ! i else if i = slot then x else xs ! (i - 1))"
  by (auto simp: put_slot_def nth_append min_def nth_Cons')

lemma set_put_slot: "set (put_slot slot x xs) = insert x (set xs)"
  unfolding put_slot_def by (metis append_take_drop_id list.set(2) set_append Un_insert_right)

lemma map_put_slot: "map f (put_slot slot x xs) = put_slot slot (f x) (map f xs)"
  by (simp add: put_slot_def take_map drop_map)

lemma butlast_put_slot: "slot < length xs \<Longrightarrow> butlast (put_slot slot x xs) = put_slot slot x (butlast xs)"
  by (simp add: put_slot_def butlast_append take_butlast drop_butlast)

lemma butlast_take_Suc: "j < length xs \<Longrightarrow> butlast (take (Suc j) xs) = take j xs"
  by (simp add: butlast_take)

section \<open>Entries and invariant of a subtree\<close>

fun sentries :: "('k, 'v) snode \<Rightarrow> ('k, 'v) kvs" where
  "sentries (SLeaf a d) = d"
| "sentries (SInner l ks cs) = concat (map sentries cs)"

lemma sentries_leaves: "sentries n = concat (map snd (sleaves n))"
proof (induction n rule: sentries.induct)
  case (2 l ks cs)
  have "\<forall>n\<in>set cs. sentries n = concat (map snd (sleaves n)) \<Longrightarrow>
      concat (map sentries cs) = concat (map snd (concat (map sleaves cs)))" for cs :: "('a, 'b) snode list"
    by (induction cs) auto
  with 2 show ?case by simp
qed simp

definition maxkey :: "('k, 'v) snode \<Rightarrow> 'k" where
  "maxkey n = fst (last (sentries n))"

fun sshape :: "scfg \<Rightarrow> ('k, 'v) snode \<Rightarrow> bool" where
  "sshape c (SLeaf a d) = (d \<noteq> [] \<and> length d \<le> leafslotmax c)"
| "sshape c (SInner l ks cs) =
     (ks \<noteq> [] \<and> length ks \<le> innerslotmax c \<and> length cs = Suc (length ks)
      \<and> ks = map maxkey (butlast cs)
      \<and> (\<forall>n\<in>set cs. sshape c n \<and> Suc (slevel n) = l \<and> \<not> isunderflow c n))"

lemma sshape_nonempty: "sshape c n \<Longrightarrow> sentries n \<noteq> []"
proof (induction n rule: sentries.induct)
  case (2 l ks cs)
  then have "cs \<noteq> []" by auto
  then obtain n where "n \<in> set cs" by (cases cs) auto
  with 2 show ?case by auto
qed simp

lemma maxkey_in: "sentries n \<noteq> [] \<Longrightarrow> maxkey n \<in> fst ` set (sentries n)"
  by (simp add: maxkey_def)

lemma maxkey_ge: "skeys (sentries n) \<Longrightarrow> x \<in> set (sentries n) \<Longrightarrow> fst x \<le> maxkey n"
  by (cases "sentries n" rule: rev_cases) (auto simp: maxkey_def sorted_wrt_append less_imp_le)

lemma maxkey_inner:
  "cs \<noteq> [] \<Longrightarrow> sentries (last cs) \<noteq> [] \<Longrightarrow> maxkey (SInner l ks cs) = maxkey (last cs)"
  by (cases cs rule: rev_cases) (auto simp: maxkey_def)

declare sshape.simps(2) [simp del]

section \<open>Splitting an overfull inner node\<close>

lemma split_mid_sizes:
  assumes "n = innerslotmax c" and "mid = split_mid n slot"
  shows "mid < n"
    and "slot \<le> mid \<or> slot = mid + 1 \<and> mid < n - Suc mid \<Longrightarrow> mininnerslots c \<le> Suc mid \<and> mininnerslots c + mid < n"
    and "slot > mid \<Longrightarrow> \<not> (slot = mid + 1 \<and> mid < n - Suc mid) \<Longrightarrow>
      mininnerslots c \<le> mid \<and> mininnerslots c + mid \<le> n"
proof -
  define h where "h = n div 2"
  have h: "n = 2 * h \<or> n = 2 * h + 1" "4 \<le> h" "mininnerslots c = h"
    using assms by (auto simp: h_def mininnerslots_def innerslotmax_def)
  have mid: "mid = (if slot \<le> h \<and> h > n - (h + 1) then h - 1 else h)"
    using assms(2) by (simp add: split_mid_def Let_def h_def)
  show "mid < n" using h mid by (auto split: if_splits)
  show "mininnerslots c \<le> Suc mid \<and> mininnerslots c + mid < n"
    if "slot \<le> mid \<or> slot = mid + 1 \<and> mid < n - Suc mid"
    using h mid that by (auto split: if_splits)
  show "mininnerslots c \<le> mid \<and> mininnerslots c + mid \<le> n"
    if "slot > mid" "\<not> (slot = mid + 1 \<and> mid < n - Suc mid)"
    using h mid that by (auto split: if_splits)
qed

text \<open>
  A full node that takes in a child is cut, whatever the slot, out of the node with one key too
  many that the insertion would give.
\<close>

lemma insert_child_full:
  fixes cs :: "('k, 'v) snode list" and newkey :: 'k and new :: "('k, 'v) snode"
  assumes full: "length ks = innerslotmax c" and cs: "length cs = Suc (length ks)" and slot: "slot \<le> length ks"
  defines "K \<equiv> put_slot slot newkey ks" and "C \<equiv> put_slot (slot + 1) new cs"
  shows "\<exists>j. mininnerslots c \<le> j \<and> mininnerslots c + Suc j \<le> length K \<and>
    insert_child c m l ks cs slot newkey new =
      (SInner l (take j K) (take (Suc j) C), allocate_inner m,
       Some (K ! j, SInner l (drop (Suc j) K) (drop (Suc j) C)))"
proof -
  define mid where "mid = split_mid (length ks) slot"
  note sizes = split_mid_sizes [OF full mid_def]
  have lens: "length K = Suc (length ks)" "length C = Suc (length cs)"
    using slot cs by (simp_all add: K_def C_def)
  have split: "split_inner_node m ks cs slot = (allocate_inner m, take mid ks, take (mid + 1) cs, ks ! mid,
      drop (mid + 1) ks, drop (mid + 1) cs)"
    by (simp add: split_inner_node_def mid_def Let_def)
  have "isfull c (SInner l ks cs)" "length (take mid ks) = mid" "drop (mid + 1) cs ! 0 = cs ! (mid + 1)"
    using full sizes(1) cs by simp_all
  then have eq: "insert_child c m l ks cs slot newkey new =
     (if slot = mid + 1 \<and> mid < length ks - Suc mid then
        (SInner l (take mid ks @ [ks ! mid]) (take (mid + 1) cs @ [cs ! (mid + 1)]), allocate_inner m,
         Some (newkey, SInner l (drop (mid + 1) ks) ((drop (mid + 1) cs)[0 := new])))
      else if mid + 1 \<le> slot then
        (SInner l (take mid ks) (take (mid + 1) cs), allocate_inner m,
         Some (ks ! mid, SInner l (put_slot (slot - (mid + 1)) newkey (drop (mid + 1) ks))
           (put_slot (slot - (mid + 1) + 1) new (drop (mid + 1) cs))))
      else
        (SInner l (put_slot slot newkey (take mid ks)) (put_slot (slot + 1) new (take (mid + 1) cs)),
         allocate_inner m, Some (ks ! mid, SInner l (drop (mid + 1) ks) (drop (mid + 1) cs))))"
    unfolding insert_child_def split by (simp only: Let_def prod.case if_True length_drop Suc_eq_plus1)
  consider (special) "slot = mid + 1 \<and> mid < length ks - Suc mid"
    | (right) "\<not> (slot = mid + 1 \<and> mid < length ks - Suc mid)" "mid + 1 \<le> slot"
    | (left) "slot \<le> mid" by linarith
  then show ?thesis
  proof cases
    case special
    have "take (mid + 1) K = take mid ks @ [ks ! mid]" "K ! (mid + 1) = newkey"
      "drop (Suc (mid + 1)) K = drop (mid + 1) ks"
      using special slot sizes(1)
      by (simp_all add: K_def put_slot_take put_slot_nth put_slot_drop take_Suc_conv_app_nth)
    moreover have "take (Suc (mid + 1)) C = take (mid + 1) cs @ [cs ! (mid + 1)]"
      using special slot sizes(1) cs by (simp add: C_def put_slot_take take_Suc_conv_app_nth)
    moreover have "drop (Suc (mid + 1)) C = (drop (mid + 1) cs)[0 := new]"
      using special slot sizes(1) cs
      by (simp add: C_def put_slot_drop put_slot_def Cons_nth_drop_Suc [symmetric])
    ultimately show ?thesis using sizes(2) special lens unfolding eq
      by (intro exI [of _ "mid + 1"]) simp
  next
    case right
    then have "slot - mid = Suc (slot - Suc mid)" by simp
    with right have "take mid K = take mid ks" "K ! mid = ks ! mid"
      "drop (Suc mid) K = put_slot (slot - (mid + 1)) newkey (drop (mid + 1) ks)"
      "take (Suc mid) C = take (mid + 1) cs"
      "drop (Suc mid) C = put_slot (slot - (mid + 1) + 1) new (drop (mid + 1) cs)"
      using slot cs by (simp_all add: K_def C_def put_slot_take put_slot_nth put_slot_drop)
    with sizes(3) right lens show ?thesis unfolding eq by (intro exI [of _ mid]) simp
  next
    case left
    then have "take (mid + 1) K = put_slot slot newkey (take mid ks)" "K ! (mid + 1) = ks ! mid"
      "drop (Suc (mid + 1)) K = drop (mid + 1) ks"
      "take (Suc (mid + 1)) C = put_slot (slot + 1) new (take (mid + 1) cs)"
      "drop (Suc (mid + 1)) C = drop (mid + 1) cs"
      using slot cs sizes(1) by (simp_all add: K_def C_def put_slot_take put_slot_nth put_slot_drop)
    with sizes(2) left lens show ?thesis unfolding eq by (intro exI [of _ "mid + 1"]) simp
  qed
qed

section \<open>Insertion into a leaf\<close>

text \<open>The members after the links of a split are set; \<open>b\<close> is the new leaf.\<close>

definition split_links :: "smem \<Rightarrow> nat \<Rightarrow> smem" where
  "split_links m a = fst (split_leaf_node m a ([] :: (nat, nat) kvs))"

lemma split_leaf_node_links:
  "split_leaf_node m a d = (let mid = length d div 2 in
     (split_links m a, take mid d, fst (take mid d ! (length (take mid d) - 1)), s_fresh m, drop mid d))"
  by (simp add: split_leaf_node_def split_links_def allocate_leaf_def Let_def)

lemma put_slot_take_append:
  "mid \<le> slot \<Longrightarrow> slot \<le> length xs \<Longrightarrow> take mid xs @ put_slot (slot - mid) x (drop mid xs) = put_slot slot x xs"
  by (metis append_take_drop_id put_slot_drop(1) put_slot_take(1))

lemma put_slot_append_drop:
  assumes "slot < mid" "mid \<le> length xs"
  shows "put_slot slot x (take mid xs) @ drop mid xs = put_slot slot x xs"
proof -
  have "take (Suc mid) (put_slot slot x xs) = put_slot slot x (take mid xs)"
    "drop (Suc mid) (put_slot slot x xs) = drop mid xs"
    using assms put_slot_take(2) [of slot "Suc mid" xs x] put_slot_drop(2) [of slot "Suc mid" xs x] by auto
  then show ?thesis by (metis append_take_drop_id)
qed

text \<open>The outcomes of an insertion into a leaf.\<close>

definition leaf_put :: "('k \<times> 'v) \<Rightarrow> nat \<Rightarrow> ('k, 'v) kvs \<Rightarrow> bool" where
  "leaf_put x slot d = (slot < length d \<and> d ! slot = x)"

lemma leaf_put_put_slot: "slot \<le> length d \<Longrightarrow> leaf_put x slot (put_slot slot x d)"
  by (simp add: leaf_put_def put_slot_nth)

lemma insert_leaf_cases:
  assumes d: "skeys d" "length d \<le> leafslotmax c" and uniq: "\<not> allow_duplicates c"
  obtains (found) slot where "key \<in> fst ` set d" "slot < length d" "fst (d ! slot) = key"
      "insert_leaf c key v m a d = (SLeaf a d, m, (Some a, slot), False, None)"
    | (room) slot where "key \<notin> fst ` set d" "length d < leafslotmax c"
        "leaf_put (key, v) slot (kv_insert key v d)"
        "insert_leaf c key v m a d = (SLeaf a (kv_insert key v d), m, (Some a, slot), True, None)"
    | (halves) left right x slot where "key \<notin> fst ` set d" "length d = leafslotmax c"
        "left @ right = kv_insert key v d"
        "minleafslots c \<le> length left" "length left < leafslotmax c"
        "minleafslots c \<le> length right" "length right < leafslotmax c"
        "x = a \<and> leaf_put (key, v) slot left \<or> x = s_fresh m \<and> leaf_put (key, v) slot right"
        "insert_leaf c key v m a d =
           (SLeaf a left, split_links m a, (Some x, slot), True, Some (fst (last left), SLeaf (s_fresh m) right))"
proof -
  define slot where "slot = rank_less key (map fst d)"
  note look = rank_less_found [OF d(1) slot_def]
  have slot: "slot \<le> length d" using rank_less_le_length [of key "map fst d"] by (simp add: slot_def)
  show thesis
  proof (cases "key \<in> fst ` set d")
    case True
    with look uniq show thesis by (intro found) (auto simp: insert_leaf_def slot_def [symmetric])
  next
    case new: False
    have ins: "put_slot slot (key, v) d = kv_insert key v d"
      using kv_insert_at_rank [OF new slot_def, of v] by (simp add: put_slot_def)
    have nofind: "\<not> (slot < length d \<and> key = fst (d ! slot))" using new look by auto
    show thesis
    proof (cases "length d = leafslotmax c")
      case False
      with nofind new d slot leaf_put_put_slot [OF slot, of "(key, v)"] show thesis
        by (intro room) (auto simp: insert_leaf_def slot_def [symmetric] ins)
    next
      case full: True
      define mid where "mid = length d div 2"
      have mid: "0 < mid" "mid < length d" "minleafslots c = mid" "length d - mid < leafslotmax c"
        "mid \<le> length d - mid" "Suc mid < leafslotmax c" "Suc (length d - mid) < leafslotmax c"
        using full by (auto simp: mid_def minleafslots_def leafslotmax_def)
      have sp: "split_leaf_node m a d =
          (split_links m a, take mid d, fst (last (take mid d)), s_fresh m, drop mid d)"
      proof -
        have "take mid d \<noteq> []" using mid by auto
        then show ?thesis using mid
          by (simp add: split_leaf_node_links Let_def mid_def [symmetric] last_conv_nth)
      qed
      have eq: "insert_leaf c key v m a d =
        (if mid \<le> slot then (SLeaf a (take mid d), split_links m a, (Some (s_fresh m), slot - mid), True,
           Some (fst (last (take mid d)), SLeaf (s_fresh m) (put_slot (slot - mid) (key, v) (drop mid d))))
         else (SLeaf a (put_slot slot (key, v) (take mid d)), split_links m a, (Some a, slot), True,
           Some (fst (last (take mid d)), SLeaf (s_fresh m) (drop mid d))))"
        using nofind full mid by (auto simp: insert_leaf_def slot_def [symmetric] sp Let_def)
      show thesis
      proof (cases "mid \<le> slot")
        case True
        have "leaf_put (key, v) (slot - mid) (put_slot (slot - mid) (key, v) (drop mid d))"
          using slot by (intro leaf_put_put_slot) auto
        with True new full mid slot show thesis
          by (intro halves [of "take mid d" "put_slot (slot - mid) (key, v) (drop mid d)" "s_fresh m" "slot - mid"])
            (simp_all add: put_slot_take_append ins eq)
      next
        case False
        let ?left = "put_slot slot (key, v) (take mid d)"
        have "leaf_put (key, v) slot ?left" using False mid by (intro leaf_put_put_slot) auto
        moreover have "last ?left = last (take mid d)" using False mid by (simp add: put_slot_def)
        ultimately show thesis using False new full mid slot
          by (intro halves [of ?left "drop mid d" a slot]) (simp_all add: put_slot_append_drop ins eq)
      qed
    qed
  qed
qed

section \<open>Insertion into a subtree\<close>

text \<open>What an insertion makes of a subtree, whether it was split or not.\<close>

definition grown :: "scfg \<Rightarrow> 'k::linorder \<Rightarrow> 'v \<Rightarrow> ('k, 'v) snode \<Rightarrow> ('k, 'v) snode \<Rightarrow>
    ('k \<times> ('k, 'v) snode) option \<Rightarrow> bool" where
  "grown c key v n n' sp =
     (sshape c n' \<and> slevel n' = slevel n \<and>
      (case sp of
         None \<Rightarrow> sentries n' = kv_insert key v (sentries n) \<and> slotuse n \<le> slotuse n'
       | Some (k, new) \<Rightarrow> sshape c new \<and> slevel new = slevel n \<and> k = maxkey n'
           \<and> \<not> isunderflow c n' \<and> \<not> isunderflow c new
           \<and> sentries n' @ sentries new = kv_insert key v (sentries n)))"

lemma kv_insert_nonempty: "kv_insert k v xs \<noteq> []"
  using kv_insert_keys [of k v xs] by auto

lemma insert_leaf_grown:
  assumes d: "skeys d" "length d \<le> leafslotmax c" and uniq: "\<not> allow_duplicates c"
    and r: "insert_leaf c key v m a d = (n', m', it, ins, sp)"
  shows "grown c key v (SLeaf a d) n' sp \<and> ins = (key \<notin> fst ` set d)"
  using d uniq
proof (cases rule: insert_leaf_cases [where key = key and v = v and m = m and a = a])
  case (found slot)
  with r d show ?thesis by (auto simp: grown_def kv_insert_def)
next
  case (room slot)
  with r length_kv_insert_new [OF room(1), of v] show ?thesis
    by (auto simp: grown_def kv_insert_nonempty)
next
  case (halves left right x slot)
  moreover have "0 < minleafslots c" by (simp add: minleafslots_def leafslotmax_def)
  ultimately show ?thesis using r by (auto simp: grown_def maxkey_def)
qed

text \<open>The child an insertion descends into, and what lies to its sides.\<close>

lemma sorted_child:
  assumes "skeys (concat (map sentries cs))" and "i < length cs"
  shows "skeys (sentries (cs ! i))"
    and "concat (map sentries cs) =
      concat (map sentries (take i cs)) @ sentries (cs ! i) @ concat (map sentries (drop (Suc i) cs))"
proof -
  show eq: "concat (map sentries cs) =
      concat (map sentries (take i cs)) @ sentries (cs ! i) @ concat (map sentries (drop (Suc i) cs))"
    by (subst id_take_nth_drop [OF assms(2)]) simp
  show "skeys (sentries (cs ! i))" using assms(1) unfolding eq by (simp add: sorted_wrt_append)
qed

lemma child_bounds:
  assumes s: "skeys (concat (map sentries cs))" and ne: "\<forall>n\<in>set cs. sentries n \<noteq> []"
    and ks: "ks = map maxkey (butlast cs)" and cs: "length cs = Suc (length ks)"
    and slot: "slot = rank_less key ks"
  shows "slot < length cs"
    and "\<forall>x\<in>set (concat (map sentries (take slot cs))). fst x < key"
    and "\<forall>x\<in>set (concat (map sentries (drop (Suc slot) cs))). key < fst x"
    and "slot < length ks \<Longrightarrow> key \<le> maxkey (cs ! slot)"
proof -
  show len: "slot < length cs" using cs slot rank_less_le_length [of key ks] by simp
  have key: "ks ! i = maxkey (cs ! i)" if "i < length ks" for i
    using that unfolding ks by (simp add: nth_butlast)
  show "\<forall>x\<in>set (concat (map sentries (take slot cs))). fst x < key"
  proof
    fix x assume "x \<in> set (concat (map sentries (take slot cs)))"
    then obtain n where n: "n \<in> set (take slot cs)" "x \<in> set (sentries n)" by auto
    then obtain i where i: "i < slot" "x \<in> set (sentries (cs ! i))"
      by (metis in_set_conv_nth length_take min_less_iff_conj nth_take)
    have "fst x \<le> maxkey (cs ! i)"
      by (rule maxkey_ge [OF sorted_child(1) [OF s] i(2)]) (use i len in simp)
    also have "\<dots> < key" using i(1) key [of i] rank_less_below [of i key ks] cs len slot by simp
    finally show "fst x < key" .
  qed
  show le: "key \<le> maxkey (cs ! slot)" if "slot < length ks"
    using that key [of slot] rank_less_at [of key ks] by (simp add: slot)
  show "\<forall>x\<in>set (concat (map sentries (drop (Suc slot) cs))). key < fst x"
  proof (cases "slot < length ks")
    case False
    with len cs have "drop (Suc slot) cs = []" by simp
    then show ?thesis by (simp only: list.map concat.simps) simp
  next
    case True
    have "maxkey (cs ! slot) \<in> fst ` set (sentries (cs ! slot))" using ne len by (intro maxkey_in) auto
    moreover have "\<forall>x\<in>set (sentries (cs ! slot)).
        \<forall>y\<in>set (concat (map sentries (drop (Suc slot) cs))). fst x < fst y"
      using s unfolding sorted_child(2) [OF s len] skeys_append by blast
    ultimately show ?thesis using le [OF True] by (metis imageE order_le_less_trans)
  qed
qed

lemma kv_insert_child:
  assumes "skeys (concat (map sentries cs))" and "\<forall>n\<in>set cs. sentries n \<noteq> []"
    and "ks = map maxkey (butlast cs)" and "length cs = Suc (length ks)"
    and "slot = rank_less key ks"
  shows "kv_insert key v (concat (map sentries cs)) =
    concat (map sentries (take slot cs)) @ kv_insert key v (sentries (cs ! slot))
      @ concat (map sentries (drop (Suc slot) cs))"
  unfolding sorted_child(2) [OF assms(1) child_bounds(1) [OF assms]]
  using child_bounds(2,3) [OF assms] by (rule kv_insert_middle)

lemma kv_insert_last:
  assumes "skeys xs" "xs \<noteq> []" "key \<le> fst (last xs)"
  shows "last (kv_insert key v xs) = last xs"
proof (cases "key \<in> fst ` set xs")
  case False
  then have "\<not> fst (last xs) < key" using assms by auto
  then have "dropWhile (\<lambda>x. fst x < key) xs \<noteq> []" using assms by (auto simp: dropWhile_eq_Nil_conv)
  moreover from this have "last (dropWhile (\<lambda>x. fst x < key) xs) = last xs"
    by (metis last_appendR takeWhile_dropWhile_id)
  ultimately show ?thesis using False by (simp add: kv_insert_def del: dropWhile_eq_Nil_conv)
qed (simp add: kv_insert_def)

text \<open>A cut of a run of well-formed siblings and their separators.\<close>

lemma sshape_innerI:
  assumes "ks \<noteq> []" and "length ks \<le> innerslotmax c" and "length cs = Suc (length ks)"
    and "ks = map maxkey (butlast cs)" and "\<forall>n\<in>set cs. sshape c n \<and> Suc (slevel n) = l \<and> \<not> isunderflow c n"
  shows "sshape c (SInner l ks cs)"
  unfolding sshape.simps using assms by blast

lemma sshape_cut:
  assumes C: "\<forall>n\<in>set C. sshape c n \<and> Suc (slevel n) = l \<and> \<not> isunderflow c n"
    and K: "K = map maxkey (butlast C)" and C2: "length C = Suc (length K)"
    and j: "0 < j" "j \<le> innerslotmax c" "j + 1 < length K" "length K - Suc j \<le> innerslotmax c"
  shows "sshape c (SInner l (take j K) (take (Suc j) C))"
    and "sshape c (SInner l (drop (Suc j) K) (drop (Suc j) C))"
    and "K ! j = maxkey (SInner l (take j K) (take (Suc j) C))"
proof -
  have jC: "Suc j < length C" using j C2 by simp
  have sub: "set (take (Suc j) C) \<subseteq> set C" "set (drop (Suc j) C) \<subseteq> set C"
    by (simp_all add: set_take_subset set_drop_subset)
  have "take j K = map maxkey (butlast (take (Suc j) C))"
    using jC by (simp add: K take_map butlast_take take_butlast)
  with C sub(1) j C2 show "sshape c (SInner l (take j K) (take (Suc j) C))"
    by (intro sshape_innerI) (auto simp del: butlast_take)
  have "drop (Suc j) K = map maxkey (butlast (drop (Suc j) C))"
    by (simp add: K drop_map drop_butlast)
  with C sub(2) j C2 show "sshape c (SInner l (drop (Suc j) K) (drop (Suc j) C))"
    by (intro sshape_innerI) auto
  have last: "last (take (Suc j) C) = C ! j" using jC by (simp add: take_Suc_conv_app_nth)
  have "sentries (C ! j) \<noteq> []" using C jC sshape_nonempty by (meson Suc_lessD nth_mem)
  then have "maxkey (SInner l (take j K) (take (Suc j) C)) = maxkey (C ! j)"
    using jC last by (subst maxkey_inner) auto
  moreover have "K ! j = maxkey (C ! j)" using j(3) unfolding K by (simp add: nth_butlast)
  ultimately show "K ! j = maxkey (SInner l (take j K) (take (Suc j) C))" by simp
qed

lemma insert_child_grown:
  fixes newkey :: "'k::linorder" and new :: "('k, 'v) snode"
  assumes ks: "ks \<noteq> []" "length ks \<le> innerslotmax c" and cs: "length cs = Suc (length ks)" and slot: "slot \<le> length ks"
  defines "K \<equiv> put_slot slot newkey ks" and "C \<equiv> put_slot (slot + 1) new cs"
  assumes C: "\<forall>n\<in>set C. sshape c n \<and> Suc (slevel n) = l \<and> \<not> isunderflow c n"
    and K: "K = map maxkey (butlast C)"
    and r: "insert_child c m l ks cs slot newkey new = (n', m', sp)"
  shows "sshape c n' \<and> slevel n' = l \<and>
     (case sp of
        None \<Rightarrow> sentries n' = concat (map sentries C) \<and> slotuse n' = Suc (length ks)
      | Some (k, nn) \<Rightarrow> sshape c nn \<and> slevel nn = l \<and> k = maxkey n' \<and> \<not> isunderflow c n' \<and> \<not> isunderflow c nn
          \<and> sentries n' @ sentries nn = concat (map sentries C))"
proof -
  have lens: "length K = Suc (length ks)" "length C = Suc (length K)"
    using slot cs by (simp_all add: K_def C_def)
  show ?thesis
  proof (cases "length ks = innerslotmax c")
    case False
    with r have "n' = SInner l K C" "sp = None" by (auto simp: insert_child_def K_def C_def)
    moreover have "sshape c (SInner l K C)"
      by (rule sshape_innerI [OF _ _ lens(2) K C]) (use False ks lens in auto)
    ultimately show ?thesis using lens by simp
  next
    case True
    obtain j where j: "mininnerslots c \<le> j" "mininnerslots c + Suc j \<le> length K"
      and eq: "insert_child c m l ks cs slot newkey new =
        (SInner l (take j K) (take (Suc j) C), allocate_inner m,
         Some (K ! j, SInner l (drop (Suc j) K) (drop (Suc j) C)))"
      using insert_child_full [OF True cs slot, where newkey = newkey and new = new and m = m and l = l] unfolding K_def C_def by blast
    have min: "4 \<le> mininnerslots c" "mininnerslots c \<le> innerslotmax c"
      by (auto simp: mininnerslots_def innerslotmax_def)
    have "0 < j" "j \<le> innerslotmax c" "j + 1 < length K" "length K - Suc j \<le> innerslotmax c"
      using j min lens True by auto
    note cut = sshape_cut [OF C K lens(2) this]
    have "concat (map sentries (take (Suc j) C)) @ concat (map sentries (drop (Suc j) C)) = concat (map sentries C)"
      by (metis append_take_drop_id concat_append map_append)
    with cut j lens r show ?thesis unfolding eq by auto
  qed
qed

lemma concat_update:
  "i < length cs \<Longrightarrow> concat (map f (cs[i := n])) = concat (map f (take i cs)) @ f n @ concat (map f (drop (Suc i) cs))"
  by (simp add: upd_conv_take_nth_drop)

lemma concat_put_child:
  "i < length cs \<Longrightarrow> concat (map f (put_slot (Suc i) new (cs[i := n]))) =
     concat (map f (take i cs)) @ f n @ f new @ concat (map f (drop (Suc i) cs))"
  by (simp add: put_slot_def take_Suc_conv_app_nth)

lemma all_update: "P n \<Longrightarrow> \<forall>x\<in>set cs. P x \<Longrightarrow> \<forall>x\<in>set (cs[i := n]). P x"
  by (auto dest!: set_update_subset_insert [THEN subsetD])

lemma seps_update:
  assumes "ks = map maxkey (butlast cs)" and "i < length cs" and "i < length ks \<longrightarrow> maxkey n = maxkey (cs ! i)"
  shows "ks = map maxkey (butlast (cs[i := n]))"
proof -
  have "map maxkey (butlast (cs[i := n])) = (map maxkey (butlast cs))[i := maxkey n]"
    using assms(2) by (auto simp: butlast_list_update map_update list_update_beyond)
  also have "\<dots> = map maxkey (butlast cs)"
    using assms by (cases "i < length ks") (auto simp: list_update_same_conv nth_butlast list_update_beyond)
  finally show ?thesis using assms(1) by simp
qed

lemma seps_put:
  assumes ks: "ks = map maxkey (butlast cs)" and i: "i < length cs" and new: "i < length ks \<longrightarrow> maxkey new = maxkey (cs ! i)"
  shows "put_slot i (maxkey n) ks = map maxkey (butlast (put_slot (Suc i) new (cs[i := n])))"
proof (cases "Suc i < length cs")
  case False
  then have len: "length cs = Suc i" using i by simp
  then have "put_slot (Suc i) new (cs[i := n]) = butlast cs @ [n, new]"
    by (cases cs rule: rev_cases) (auto simp: put_slot_def)
  moreover have "put_slot i (maxkey n) ks = ks @ [maxkey n]" using len unfolding ks by (simp add: put_slot_def)
  ultimately show ?thesis using ks by (simp add: butlast_append)
next
  case True
  let ?n = "cs ! i"
  have 1: "butlast (put_slot (Suc i) new (cs[i := n])) = take i cs @ n # new # drop (Suc i) (butlast cs)"
    using True by (simp add: put_slot_def take_Suc_conv_app_nth butlast_append drop_butlast)
  have 2: "drop i ks = maxkey ?n # drop (Suc i) ks"
    using True i unfolding ks by (subst Cons_nth_drop_Suc [symmetric]) (auto simp: nth_butlast)
  have "take i ks = map maxkey (take i cs)" using True unfolding ks by (simp add: take_map take_butlast)
  moreover have "maxkey new = maxkey ?n" using new True unfolding ks by simp
  ultimately show ?thesis unfolding 1 unfolding put_slot_def 2 unfolding ks by (simp add: drop_map)
qed

lemma sshape_level:
  assumes "sshape c (SInner l ks cs)"
  shows "0 < l"
proof -
  from assms obtain n where "n \<in> set cs" unfolding sshape.simps by (metis Zero_not_Suc length_0_conv list.set_intros(1) neq_Nil_conv)
  with assms have "Suc (slevel n) = l" unfolding sshape.simps by blast
  then show ?thesis by simp
qed

lemma grown_keeps_fill:
  "grown c key v n n' None \<Longrightarrow> sshape c n \<Longrightarrow> \<not> isunderflow c n \<Longrightarrow> \<not> isunderflow c n'"
  by (cases n; cases n') (auto simp: grown_def dest: sshape_level)

lemma grown_max:
  assumes g: "grown c key v n n' sp" and s: "skeys (sentries n)" "sentries n \<noteq> []" and k: "key \<le> maxkey n"
  shows "case sp of None \<Rightarrow> maxkey n' = maxkey n | Some (k, new) \<Rightarrow> maxkey new = maxkey n"
proof -
  have l: "last (kv_insert key v (sentries n)) = last (sentries n)"
    using s k by (intro kv_insert_last) (simp_all add: maxkey_def)
  show ?thesis
  proof (cases sp)
    case None
    with g l show ?thesis by (simp add: grown_def maxkey_def)
  next
    case (Some p)
    then obtain k new where p: "sp = Some (k, new)" by (cases p) auto
    with g have "sentries new \<noteq> []" "sentries n' @ sentries new = kv_insert key v (sentries n)"
      using sshape_nonempty by (auto simp: grown_def)
    then have "last (sentries new) = last (sentries n)" using l by (metis last_appendR)
    with p show ?thesis by (simp add: maxkey_def)
  qed
qed

lemma insert_descend_grown:
  assumes "sshape c n" and "skeys (sentries n)" and uniq: "\<not> allow_duplicates c"
    and "insert_descend c key v m n = (n', m', it, ins, sp)"
  shows "grown c key v n n' sp \<and> ins = (key \<notin> fst ` set (sentries n))"
  using assms
proof (induction c key v m n arbitrary: n' m' it ins sp rule: insert_descend.induct)
  case (1 c key v m a d)
  then show ?case using insert_leaf_grown [of d c key v m a n' m' it ins sp] by simp
next
  case (2 c key v m l ks cs)
  define slot where "slot = rank_less key ks"
  have cs: "ks \<noteq> []" "length ks \<le> innerslotmax c" "length cs = Suc (length ks)" "ks = map maxkey (butlast cs)"
    and ch: "\<forall>n\<in>set cs. sshape c n \<and> Suc (slevel n) = l \<and> \<not> isunderflow c n"
    using "2.prems"(1) unfolding sshape.simps by blast+
  have ne: "\<forall>n\<in>set cs. sentries n \<noteq> []" using ch sshape_nonempty by blast
  have sk: "skeys (concat (map sentries cs))" using "2.prems"(2) by simp
  note bounds = child_bounds [OF sk ne cs(4,3) slot_def]
  note parts = sorted_child(2) [OF sk bounds(1)] kv_insert_child [OF sk ne cs(4,3) slot_def]
  have child: "cs ! slot \<in> set cs" using bounds(1) by simp
  obtain n1 m1 it1 ins1 sp1 where r1: "insert_descend c key v m (cs ! slot) = (n1, m1, it1, ins1, sp1)"
    by (metis prod_cases5)
  have IH: "grown c key v (cs ! slot) n1 sp1" "ins1 = (key \<notin> fst ` set (sentries (cs ! slot)))"
    using "2.IH" [of slot n1 m1 it1 ins1 sp1] "2.prems"(3) bounds(1) ch child sorted_child(1) [OF sk bounds(1)] r1
    by (auto simp: slot_def)
  note res = "2.prems"(4) [unfolded insert_descend.simps find_lower_rank slot_def [symmetric] Let_def r1 prod.case]
  have found: "ins1 = (key \<notin> fst ` set (concat (map sentries cs)))"
    unfolding IH(2) parts(1) using bounds(2,3) by (auto simp: image_Un)
  have max: "slot < length ks \<longrightarrow> (case sp1 of None \<Rightarrow> maxkey n1 = maxkey (cs ! slot)
      | Some (k, new) \<Rightarrow> maxkey new = maxkey (cs ! slot))"
  proof
    assume "slot < length ks"
    from bounds(4) [OF this] show "case sp1 of None \<Rightarrow> maxkey n1 = maxkey (cs ! slot)
        | Some (k, new) \<Rightarrow> maxkey new = maxkey (cs ! slot)"
      by (rule grown_max [OF IH(1) sorted_child(1) [OF sk bounds(1)] ne [rule_format, OF child]])
  qed
  show ?case
  proof (cases sp1)
    case None
    have "sshape c (SInner l ks (cs[slot := n1]))"
    proof (rule sshape_innerI [OF cs(1,2)])
      show "ks = map maxkey (butlast (cs[slot := n1]))"
        by (rule seps_update [OF cs(4) bounds(1)]) (use max None in simp)
      have "\<not> isunderflow c n1" using grown_keeps_fill [of c key v "cs ! slot" n1] IH(1) None ch child by simp
      moreover have "sshape c n1" "slevel n1 = slevel (cs ! slot)" using IH(1) by (simp_all add: grown_def)
      ultimately show "\<forall>n\<in>set (cs[slot := n1]). sshape c n \<and> Suc (slevel n) = l \<and> \<not> isunderflow c n"
        using ch child by (intro all_update) simp_all
    qed (simp add: cs(3))
    moreover have "concat (map sentries (cs[slot := n1])) = kv_insert key v (concat (map sentries cs))"
      using IH(1) None by (simp add: concat_update [OF bounds(1)] parts(2) grown_def)
    ultimately show ?thesis using res found None bounds(1) by (auto simp: grown_def)
  next
    case (Some p)
    then obtain k new where p: "sp1 = Some (k, new)" by (cases p) auto
    then have g: "sshape c n1" "slevel n1 = slevel (cs ! slot)" "sshape c new" "slevel new = slevel (cs ! slot)"
      "k = maxkey n1" "\<not> isunderflow c n1" "\<not> isunderflow c new"
      "sentries n1 @ sentries new = kv_insert key v (sentries (cs ! slot))"
      using IH(1) by (auto simp: grown_def)
    obtain n2 m2 sp2 where r2: "insert_child c m1 l ks (cs[slot := n1]) slot k new = (n2, m2, sp2)"
      by (metis prod_cases3)
    let ?C = "put_slot (slot + 1) new (cs[slot := n1])"
    have C: "\<forall>n\<in>set ?C. sshape c n \<and> Suc (slevel n) = l \<and> \<not> isunderflow c n"
      using g ch child unfolding set_put_slot by (intro ball_simps(7) [THEN iffD2] conjI all_update) simp_all
    have K: "put_slot slot k ks = map maxkey (butlast ?C)"
      unfolding g(5) Suc_eq_plus1 [symmetric] by (rule seps_put [OF cs(4) bounds(1)]) (use max p in simp)
    have "length (cs[slot := n1]) = Suc (length ks)" "slot \<le> length ks" using cs(3) bounds(1) by simp_all
    note i = insert_child_grown [OF cs(1,2) this C K r2]
    have e: "concat (map sentries ?C) = kv_insert key v (concat (map sentries cs))"
      using g(8) by (simp add: concat_put_child [OF bounds(1)] parts(2))
    from res have "n' = n2" "sp = sp2" "ins = ins1" using bounds(1) p r2 by (auto simp: p)
    with i e found show ?thesis by (auto simp: grown_def split: option.splits)
  qed
qed

end
