(* ===== verification/STX_Links.thy ===== *)
theory STX_Links
  imports STX_Correct
begin

text \<open>
  The doubly linked leaf chain of the STX B+-tree: in every state the links run through the
  leaves in the order of the tree, the ends are the first and the last leaf, and the statistics
  count the nodes. Insertion keeps this, so iterators enumerate the entries in order.
\<close>

section \<open>The chain\<close>

fun seg :: "smem \<Rightarrow> nat option \<Rightarrow> nat list \<Rightarrow> nat option \<Rightarrow> bool" where
  "seg m p [] q = True"
| "seg m p (a # as) q =
     (prevleaf m a = p \<and> nextleaf m a = (case as of [] \<Rightarrow> q | b # _ \<Rightarrow> Some b) \<and> seg m (Some a) as q)"

definition dll :: "smem \<Rightarrow> nat list \<Rightarrow> bool" where
  "dll m as = (distinct as \<and> (\<forall>a\<in>set as. a < s_fresh m) \<and> seg m None as None \<and> st_leaves m = length as
     \<and> m_headleaf m = (if as = [] then None else Some (hd as))
     \<and> m_tailleaf m = (if as = [] then None else Some (last as)))"

lemma seg_cong:
  "\<forall>a\<in>set as. prevleaf m a = prevleaf m' a \<and> nextleaf m a = nextleaf m' a \<Longrightarrow> seg m p as q = seg m' p as q"
  by (induction as arbitrary: p) auto

lemma seg_append:
  "seg m p (xs @ a # ys) q \<longleftrightarrow>
     seg m p xs (Some a) \<and> seg m (if xs = [] then p else Some (last xs)) (a # ys) q"
  by (induction xs arbitrary: p) (auto split: list.splits)

abbreviation saddrs :: "('k, 'v) snode \<Rightarrow> nat list" where
  "saddrs n \<equiv> map fst (sleaves n)"

lemma dll_allocate_inner [simp]: "dll (allocate_inner m) as = dll m as"
proof -
  have "seg (allocate_inner m) None as None = seg m None as None"
    by (rule seg_cong) (simp add: allocate_inner_def)
  then show ?thesis by (simp add: dll_def allocate_inner_def)
qed

lemma allocate_inner_count [simp]: "st_innernodes (allocate_inner m) = Suc (st_innernodes m)"
  by (simp add: allocate_inner_def)

lemma split_links_sel:
  assumes "a < s_fresh m"
  shows "prevleaf (split_links m a) x =
      (if x = s_fresh m then Some a else if nextleaf m a = Some x then Some (s_fresh m) else prevleaf m x)"
    and "nextleaf (split_links m a) x =
      (if x = a then Some (s_fresh m) else if x = s_fresh m then nextleaf m a else nextleaf m x)"
    and "m_headleaf (split_links m a) = m_headleaf m"
    and "m_tailleaf (split_links m a) = (if nextleaf m a = None then Some (s_fresh m) else m_tailleaf m)"
    and "st_leaves (split_links m a) = st_leaves m + 1"
    and "st_innernodes (split_links m a) = st_innernodes m"
    and "s_fresh (split_links m a) = s_fresh m + 1"
  using assms
  by (auto simp: split_links_def split_leaf_node_def allocate_leaf_def Let_def split: option.split)

lemma dll_split_links:
  assumes "dll m (xs @ a # ys)"
  shows "dll (split_links m a) (xs @ a # s_fresh m # ys)"
proof -
  let ?b = "s_fresh m" and ?m = "split_links m a"
  have d: "distinct (xs @ a # ys)" "\<forall>x\<in>set (xs @ a # ys). x < ?b" "seg m None xs (Some a)"
    "prevleaf m a = (if xs = [] then None else Some (last xs))"
    "nextleaf m a = (case ys of [] \<Rightarrow> None | y # _ \<Rightarrow> Some y)" "seg m (Some a) ys None"
    and ends: "st_leaves m = length (xs @ a # ys)" "m_headleaf m = Some (hd (xs @ a # ys))"
      "m_tailleaf m = Some (last (xs @ a # ys))"
    using assms by (auto simp: dll_def seg_append)
  have fresh: "a < ?b" "a \<noteq> ?b" "?b \<notin> set xs" "?b \<notin> set ys" "a \<notin> set xs" "a \<notin> set ys" "set xs \<inter> set ys = {}"
    using d(1,2) by auto
  note sel = split_links_sel [OF fresh(1)]
  have "seg ?m None xs (Some a)"
  proof -
    have "\<forall>x\<in>set xs. nextleaf m a \<noteq> Some x" using d(5) fresh by (auto split: list.splits)
    then have "\<forall>x\<in>set xs. prevleaf ?m x = prevleaf m x \<and> nextleaf ?m x = nextleaf m x"
      using fresh by (auto simp: sel)
    with d(3) show ?thesis using seg_cong [of xs ?m m None "Some a"] by simp
  qed
  moreover have "seg ?m (Some ?b) ys None"
  proof (cases ys)
    case (Cons y ys')
    have "y \<notin> set ys'" using d(1) Cons by simp
    with fresh Cons d(5) have "\<forall>x\<in>set ys'. prevleaf ?m x = prevleaf m x \<and> nextleaf ?m x = nextleaf m x"
      by (auto simp: sel)
    then have "seg ?m (Some y) ys' None = seg m (Some y) ys' None" by (rule seg_cong)
    then show ?thesis using d(5,6) Cons fresh by (auto simp: sel)
  qed simp
  moreover have "nextleaf ?m ?b = (case ys of [] \<Rightarrow> None | y # _ \<Rightarrow> Some y)" "prevleaf ?m ?b = Some a"
    "nextleaf ?m a = Some ?b" "prevleaf ?m a = (if xs = [] then None else Some (last xs))"
    using d(4,5) fresh by (auto simp: sel split: list.splits)
  ultimately have "seg ?m None (xs @ a # ?b # ys) None" by (simp add: seg_append)
  moreover have "m_tailleaf ?m = Some (last (xs @ a # ?b # ys))"
    using d(5) ends(3) by (auto simp: sel split: list.splits)
  moreover have "hd (xs @ a # ?b # ys) = hd (xs @ a # ys)" by (cases xs) auto
  ultimately show ?thesis using d(1,2) fresh ends(1,2) by (auto simp: dll_def sel less_SucI)
qed

section \<open>Insertion and the chain\<close>

text \<open>The nodes an insertion leaves in the place of a subtree.\<close>

definition ins_nodes :: "('k, 'v) snode \<Rightarrow> ('k \<times> ('k, 'v) snode) option \<Rightarrow> ('k, 'v) snode list" where
  "ins_nodes n sp = n # (case sp of None \<Rightarrow> [] | Some (k, new) \<Rightarrow> [new])"

lemma ins_nodes_simps [simp]:
  "ins_nodes n None = [n]" "ins_nodes n (Some (k, new)) = [n, new]"
  by (simp_all add: ins_nodes_def)

fun ninner :: "('k, 'v) snode \<Rightarrow> nat" where
  "ninner (SLeaf a d) = 0"
| "ninner (SInner l ks cs) = Suc (sum_list (map ninner cs))"

abbreviation leaves_of :: "('k, 'v) snode list \<Rightarrow> (nat \<times> ('k, 'v) kvs) list" where
  "leaves_of ns \<equiv> concat (map sleaves ns)"

text \<open>An iterator to a key of the given leaves.\<close>

definition it_at :: "iter \<Rightarrow> 'k \<Rightarrow> (nat \<times> ('k, 'v) kvs) list \<Rightarrow> bool" where
  "it_at it key ls = (\<exists>a slot d. it = (Some a, slot) \<and> (a, d) \<in> set ls \<and> slot < length d \<and> fst (d ! slot) = key)"

lemma it_at_mono: "it_at it key ls \<Longrightarrow> set ls \<subseteq> set ls' \<Longrightarrow> it_at it key ls'"
  by (auto simp: it_at_def)

lemma insert_child_links:
  fixes newkey :: "'k::linorder" and new :: "('k, 'v) snode"
  assumes "length ks \<le> innerslotmax c" and cs: "length cs = Suc (length ks)" and slot: "slot \<le> length ks"
    and r: "insert_child c m l ks cs slot newkey new = (n', m', sp)"
  shows "leaves_of (ins_nodes n' sp) = leaves_of (put_slot (slot + 1) new cs)"
    and "m' = m \<and> sum_list (map ninner (ins_nodes n' sp)) = Suc (sum_list (map ninner (put_slot (slot + 1) new cs)))
      \<or> m' = allocate_inner m
        \<and> sum_list (map ninner (ins_nodes n' sp)) = Suc (Suc (sum_list (map ninner (put_slot (slot + 1) new cs))))"
proof -
  let ?C = "put_slot (slot + 1) new cs" and ?K = "put_slot slot newkey ks"
  have "leaves_of (ins_nodes n' sp) = leaves_of ?C \<and> (m' = m \<and> sum_list (map ninner (ins_nodes n' sp)) = Suc (sum_list (map ninner ?C))
      \<or> m' = allocate_inner m \<and> sum_list (map ninner (ins_nodes n' sp)) = Suc (Suc (sum_list (map ninner ?C))))"
  proof (cases "length ks = innerslotmax c")
    case False
    with r have "n' = SInner l ?K ?C" "sp = None" "m' = m" by (auto simp: insert_child_def)
    then show ?thesis by simp
  next
    case True
    obtain j where eq: "insert_child c m l ks cs slot newkey new =
        (SInner l (take j ?K) (take (Suc j) ?C), allocate_inner m,
         Some (?K ! j, SInner l (drop (Suc j) ?K) (drop (Suc j) ?C)))"
      using insert_child_full [OF True cs slot, where newkey = newkey and new = new and m = m and l = l] by blast
    have "leaves_of (take (Suc j) ?C) @ leaves_of (drop (Suc j) ?C) = leaves_of ?C"
      "sum_list (map ninner (take (Suc j) ?C)) + sum_list (map ninner (drop (Suc j) ?C)) = sum_list (map ninner ?C)"
      by (metis append_take_drop_id concat_append map_append) (metis append_take_drop_id map_append sum_list_append)
    with r show ?thesis unfolding eq by auto
  qed
  then show "leaves_of (ins_nodes n' sp) = leaves_of ?C"
    and "m' = m \<and> sum_list (map ninner (ins_nodes n' sp)) = Suc (sum_list (map ninner ?C))
      \<or> m' = allocate_inner m \<and> sum_list (map ninner (ins_nodes n' sp)) = Suc (Suc (sum_list (map ninner ?C)))"
    by blast+
qed

text \<open>What an insertion does to the chain, whatever lies around the subtree.\<close>

definition chain_grown :: "'k \<Rightarrow> smem \<Rightarrow> ('k, 'v) snode \<Rightarrow> smem \<Rightarrow> ('k, 'v) snode list \<Rightarrow> iter \<Rightarrow> bool" where
  "chain_grown key m n m' ns it =
     ((\<forall>xs ys. dll m (xs @ saddrs n @ ys) \<longrightarrow> dll m' (xs @ map fst (leaves_of ns) @ ys))
      \<and> st_innernodes m' + ninner n = st_innernodes m + sum_list (map ninner ns)
      \<and> it_at it key (leaves_of ns))"

lemma insert_leaf_chain:
  assumes d: "skeys d" "length d \<le> leafslotmax c" and uniq: "\<not> allow_duplicates c"
    and r: "insert_leaf c key v m a d = (n', m', it, ins, sp)" and a: "a < s_fresh m"
  shows "chain_grown key m (SLeaf a d) m' (ins_nodes n' sp) it"
  using d uniq
proof (cases rule: insert_leaf_cases [where key = key and v = v and m = m and a = a])
  case (found slot)
  with r show ?thesis by (auto simp: chain_grown_def it_at_def)
next
  case (room slot)
  with r show ?thesis by (auto simp: chain_grown_def it_at_def leaf_put_def)
next
  case (halves left right x slot)
  have "it_at (Some x, slot) key [(a, left), (s_fresh m, right)]"
    using halves(8) by (auto simp: it_at_def leaf_put_def)
  with halves(9) r show ?thesis
    by (auto simp: chain_grown_def split_links_sel [OF a] intro: dll_split_links)
qed

lemma sum_list_update_nth:
  "i < length cs \<Longrightarrow> sum_list (map f cs) = f (cs ! i) + (sum_list (map f (take i cs)) + sum_list (map f (drop (Suc i) cs)) :: nat)"
  by (subst id_take_nth_drop, assumption) simp

lemma insert_descend_chain:
  assumes "sshape c n" and "skeys (sentries n)" and "\<not> allow_duplicates c"
    and "insert_descend c key v m n = (n', m', it, ins, sp)" and "\<forall>a\<in>set (saddrs n). a < s_fresh m"
  shows "chain_grown key m n m' (ins_nodes n' sp) it"
  using assms
proof (induction c key v m n arbitrary: n' m' it ins sp rule: insert_descend.induct)
  case (1 c key v m a d)
  then show ?case using insert_leaf_chain [of d c key v m a n' m' it ins sp] by simp
next
  case (2 c key v m l ks cs)
  define slot where "slot = rank_less key ks"
  have cs: "ks \<noteq> []" "length ks \<le> innerslotmax c" "length cs = Suc (length ks)" "ks = map maxkey (butlast cs)"
    and ch: "\<forall>n\<in>set cs. sshape c n \<and> Suc (slevel n) = l \<and> \<not> isunderflow c n"
    using "2.prems"(1) unfolding sshape.simps by blast+
  have ne: "\<forall>n\<in>set cs. sentries n \<noteq> []" using ch sshape_nonempty by blast
  have sk: "skeys (concat (map sentries cs))" using "2.prems"(2) by simp
  note bounds = child_bounds [OF sk ne cs(4,3) slot_def]
  have child: "cs ! slot \<in> set cs" using bounds(1) by simp
  obtain n1 m1 it1 ins1 sp1 where r1: "insert_descend c key v m (cs ! slot) = (n1, m1, it1, ins1, sp1)"
    by (metis prod_cases5)
  have fresh: "\<forall>a\<in>set (saddrs (cs ! slot)). a < s_fresh m" using "2.prems"(5) child by auto
  have IH: "chain_grown key m (cs ! slot) m1 (ins_nodes n1 sp1) it1"
    using "2.IH" [of slot n1 m1 it1 ins1 sp1] "2.prems"(3) bounds(1) ch child sorted_child(1) [OF sk bounds(1)] r1 fresh
    by (simp add: slot_def)
  note res = "2.prems"(4) [unfolded insert_descend.simps find_lower_rank slot_def [symmetric] Let_def r1 prod.case]
  define L R where "L = take slot cs" and "R = drop (Suc slot) cs"
  have all: "leaves_of cs = leaves_of L @ sleaves (cs ! slot) @ leaves_of R"
    unfolding L_def R_def by (subst id_take_nth_drop [OF bounds(1)]) simp
  have cnt: "sum_list (map ninner cs) = ninner (cs ! slot) + (sum_list (map ninner L) + sum_list (map ninner R))"
    unfolding L_def R_def by (rule sum_list_update_nth [OF bounds(1)])
  let ?C = "L @ ins_nodes n1 sp1 @ R"
  have grown: "chain_grown key m (SInner l ks cs) m1 [SInner l ks ?C] it1"
  proof -
    have "dll m1 (xs @ map fst (leaves_of ?C) @ ys)" if "dll m (xs @ map fst (leaves_of cs) @ ys)" for xs ys
      using IH that unfolding chain_grown_def all
      by (metis (no_types, lifting) append.assoc concat_append map_append)
    moreover have "it_at it1 key (leaves_of ?C)"
      using IH unfolding chain_grown_def by (rule_tac it_at_mono [where ls = "leaves_of (ins_nodes n1 sp1)"]) auto
    ultimately show ?thesis using IH cnt by (simp add: chain_grown_def)
  qed
  show ?case
  proof (cases sp1)
    case None
    then have "?C = cs[slot := n1]" using bounds(1) by (simp add: L_def R_def upd_conv_take_nth_drop)
    moreover have "n' = SInner l ks (cs[slot := n1])" "m' = m1" "it = it1" "sp = None" using res bounds(1) None by auto
    ultimately show ?thesis using grown by simp
  next
    case (Some p)
    then obtain k new where p: "sp1 = Some (k, new)" by (cases p) auto
    obtain n2 m2 sp2 where r2: "insert_child c m1 l ks (cs[slot := n1]) slot k new = (n2, m2, sp2)"
      by (metis prod_cases3)
    have C: "put_slot (slot + 1) new (cs[slot := n1]) = ?C"
      using bounds(1) p by (simp add: put_slot_def take_Suc_conv_app_nth L_def R_def)
    have len: "length (cs[slot := n1]) = Suc (length ks)" "slot \<le> length ks" using cs(3) bounds(1) by simp_all
    note lnk = insert_child_links [OF cs(2) len r2, unfolded C]
    have "n' = n2" "m' = m2" "it = it1" "sp = sp2" using res bounds(1) p r2 by auto
    with lnk grown show ?thesis by (auto simp: chain_grown_def)
  qed
qed

section \<open>The invariant of a tree object\<close>

definition stx_list :: "('k, 'v) stx \<Rightarrow> ('k, 'v) kvs" where
  "stx_list s = (case m_root s of None \<Rightarrow> [] | Some r \<Rightarrow> sentries r)"

definition stx_ok :: "scfg \<Rightarrow> ('k::linorder, 'v) stx \<Rightarrow> bool" where
  "stx_ok c s = (itemcount s = length (stx_list s) \<and>
     (case m_root s of
        None \<Rightarrow> dll (m_mem s) [] \<and> st_innernodes (m_mem s) = 0
      | Some r \<Rightarrow> sshape c r \<and> skeys (sentries r) \<and> dll (m_mem s) (saddrs r)
          \<and> st_innernodes (m_mem s) = ninner r))"

lemma stx_new_ok: "stx_ok c stx_new"
  by (simp add: stx_ok_def stx_new_def stx_list_def smem_empty_def dll_def)

lemma stx_ok_sorted: "stx_ok c s \<Longrightarrow> skeys (stx_list s)"
  by (auto simp: stx_ok_def stx_list_def split: option.splits)

text \<open>The root an insertion starts from: the old one or a new empty leaf.\<close>

lemma insert_start_descend:
  assumes ok: "stx_ok c s" and uniq: "\<not> allow_duplicates c"
  obtains r m where
    "insert_start c s key v = (case insert_descend c key v m r of (n, m, it, ins, sp) \<Rightarrow>
       (s\<lparr>m_root := Some (case sp of None \<Rightarrow> n | Some (k, new) \<Rightarrow> SInner (slevel n + 1) [k] [n, new]),
          m_mem := (case sp of None \<Rightarrow> m | Some _ \<Rightarrow> allocate_inner m),
          itemcount := (if ins then itemcount s + 1 else itemcount s)\<rparr>, it, ins))"
    and "sentries r = stx_list s" and "dll m (saddrs r)" and "st_innernodes m = ninner r"
    and "\<And>n' m' it ins sp. insert_descend c key v m r = (n', m', it, ins, sp) \<Longrightarrow>
      grown c key v r n' sp \<and> ins = (key \<notin> fst ` set (sentries r)) \<and> chain_grown key m r m' (ins_nodes n' sp) it"
proof (cases "m_root s")
  case (Some r)
  let ?m = "m_mem s"
  have r: "sshape c r" "skeys (sentries r)" "dll ?m (saddrs r)" "st_innernodes ?m = ninner r"
    using ok Some by (auto simp: stx_ok_def)
  then have fresh: "\<forall>a\<in>set (saddrs r). a < s_fresh ?m" by (auto simp: dll_def)
  show thesis
  proof (rule that [of ?m r])
    show "insert_start c s key v = (case insert_descend c key v ?m r of (n, m, it, ins, sp) \<Rightarrow>
       (s\<lparr>m_root := Some (case sp of None \<Rightarrow> n | Some (k, new) \<Rightarrow> SInner (slevel n + 1) [k] [n, new]),
          m_mem := (case sp of None \<Rightarrow> m | Some _ \<Rightarrow> allocate_inner m),
          itemcount := (if ins then itemcount s + 1 else itemcount s)\<rparr>, it, ins))"
      by (auto simp: insert_start_def Some split: prod.split option.split)
    show "sentries r = stx_list s" by (simp add: stx_list_def Some)
  qed (use r insert_descend_grown [OF r(1,2) uniq] insert_descend_chain [OF r(1,2) uniq _ fresh] in blast)+
next
  case None
  let ?a = "s_fresh (m_mem s)"
  define ma where "ma = fst (allocate_leaf (m_mem s))"
  define m where "m = ma\<lparr>m_headleaf := Some ?a, m_tailleaf := Some ?a\<rparr>"
  have al: "allocate_leaf (m_mem s) = (ma, ?a)" by (simp add: ma_def allocate_leaf_def Let_def)
  have m: "dll m [?a]" "st_innernodes m = 0" "?a < s_fresh m"
    using ok None by (auto simp: m_def ma_def allocate_leaf_def Let_def dll_def stx_ok_def)
  show thesis
  proof (rule that [of m "SLeaf ?a []"])
    show "insert_start c s key v = (case insert_descend c key v m (SLeaf ?a []) of (n, m, it, ins, sp) \<Rightarrow>
       (s\<lparr>m_root := Some (case sp of None \<Rightarrow> n | Some (k, new) \<Rightarrow> SInner (slevel n + 1) [k] [n, new]),
          m_mem := (case sp of None \<Rightarrow> m | Some _ \<Rightarrow> allocate_inner m),
          itemcount := (if ins then itemcount s + 1 else itemcount s)\<rparr>, it, ins))"
      unfolding insert_start_def None option.case al prod.case m_def [symmetric] Let_def
      by (auto split: prod.split option.split)
  next
    fix n' m' it ins sp
    assume "insert_descend c key v m (SLeaf ?a []) = (n', m', it, ins, sp)"
    then show "grown c key v (SLeaf ?a []) n' sp \<and> ins = (key \<notin> fst ` set (sentries (SLeaf ?a [] :: ('a, 'b) snode)))
        \<and> chain_grown key m (SLeaf ?a []) m' (ins_nodes n' sp) it"
      using insert_leaf_grown [of "[]" c key v m ?a n' m' it ins sp]
        insert_leaf_chain [of "[]" c key v m ?a n' m' it ins sp] uniq m(3) by simp
  qed (use m None in \<open>simp_all add: stx_list_def\<close>)
qed

lemma insert_start_correct:
  assumes ok: "stx_ok c s" and uniq: "\<not> allow_duplicates c"
    and r: "insert_start c s key v = (s', it, ins)"
  shows "stx_ok c s'" and "stx_list s' = kv_insert key v (stx_list s)"
    and "ins = (key \<notin> fst ` set (stx_list s))"
    and "\<exists>root. m_root s' = Some root \<and> it_at it key (sleaves root)"
proof -
  obtain n0 m0 where st: "insert_start c s key v = (case insert_descend c key v m0 n0 of (n, m, it, ins, sp) \<Rightarrow>
       (s\<lparr>m_root := Some (case sp of None \<Rightarrow> n | Some (k, new) \<Rightarrow> SInner (slevel n + 1) [k] [n, new]),
          m_mem := (case sp of None \<Rightarrow> m | Some _ \<Rightarrow> allocate_inner m),
          itemcount := (if ins then itemcount s + 1 else itemcount s)\<rparr>, it, ins))"
    and n0: "sentries n0 = stx_list s" "dll m0 (saddrs n0)" "st_innernodes m0 = ninner n0"
    and D: "\<And>n' m' it ins sp. insert_descend c key v m0 n0 = (n', m', it, ins, sp) \<Longrightarrow>
      grown c key v n0 n' sp \<and> ins = (key \<notin> fst ` set (sentries n0)) \<and> chain_grown key m0 n0 m' (ins_nodes n' sp) it"
    by (rule insert_start_descend [OF ok uniq, where key = key and v = v]) (rule that)
  obtain n m it1 ins1 sp where d: "insert_descend c key v m0 n0 = (n, m, it1, ins1, sp)" by (metis prod_cases5)
  from D [OF d] have g: "grown c key v n0 n sp" and i: "ins1 = (key \<notin> fst ` set (stx_list s))"
    and ch: "chain_grown key m0 n0 m (ins_nodes n sp) it1" using n0(1) by auto
  have chain: "dll m (map fst (leaves_of (ins_nodes n sp)))" "it_at it1 key (leaves_of (ins_nodes n sp))"
    "st_innernodes m = sum_list (map ninner (ins_nodes n sp))"
  proof -
    have "dll m ([] @ map fst (leaves_of (ins_nodes n sp)) @ [])" using ch n0(2) unfolding chain_grown_def by (metis append_Nil append_Nil2)
    then show "dll m (map fst (leaves_of (ins_nodes n sp)))" by simp
  qed (use ch n0(3) in \<open>auto simp: chain_grown_def\<close>)
  define root where "root = (case sp of None \<Rightarrow> n | Some (k, new) \<Rightarrow> SInner (slevel n + 1) [k] [n, new])"
  define mm where "mm = (case sp of None \<Rightarrow> m | Some _ \<Rightarrow> allocate_inner m)"
  have s': "s' = s\<lparr>m_root := Some root, m_mem := mm, itemcount := (if ins1 then itemcount s + 1 else itemcount s)\<rparr>"
    "it = it1" "ins = ins1"
    using r st unfolding d root_def mm_def by auto
  have root: "sshape c root" "sentries root = kv_insert key v (stx_list s)"
    "sleaves root = leaves_of (ins_nodes n sp)"
    "dll mm (map fst (leaves_of (ins_nodes n sp)))" "st_innernodes mm = ninner root"
    using g n0(1) chain
    by (cases sp; force simp: root_def mm_def grown_def sshape.simps innerslotmax_def)+
  have "skeys (sentries root)" using stx_ok_sorted [OF ok] root(2) by (simp add: skeys_kv_insert)
  moreover have "length (sentries root) = (if ins1 then itemcount s + 1 else itemcount s)"
    using ok i length_kv_insert_new [of key "stx_list s" v] by (auto simp: root(2) stx_ok_def kv_insert_def)
  ultimately show "stx_ok c s'" using root s' by (simp add: stx_ok_def stx_list_def)
  show "stx_list s' = kv_insert key v (stx_list s)" using root(2) s' by (simp add: stx_list_def)
  show "ins = (key \<notin> fst ` set (stx_list s))" using s' i by simp
  show "\<exists>root. m_root s' = Some root \<and> it_at it key (sleaves root)" using s' chain(2) root(3) by simp
qed

section \<open>Iterators and positions\<close>

text \<open>The iterator that stands at position \<open>p\<close> of the ordered entries; the last position is \<open>end()\<close>.\<close>

definition it_is :: "('k, 'v) stx \<Rightarrow> iter \<Rightarrow> nat \<Rightarrow> bool" where
  "it_is s it p = (\<exists>r xs a d ys slot. m_root s = Some r \<and> sleaves r = xs @ (a, d) # ys \<and> it = (Some a, slot)
     \<and> p = length (concat (map snd xs)) + slot \<and> (slot < length d \<or> slot = length d \<and> ys = []))"

lemma it_isI:
  assumes "m_root s = Some r" and "sleaves r = xs @ (a, d) # ys" and "p = length (concat (map snd xs)) + slot"
    and "slot < length d \<or> slot = length d \<and> ys = []"
  shows "it_is s (Some a, slot) p"
  unfolding it_is_def using assms by blast

lemma it_isE:
  assumes "it_is s it p"
  obtains r xs a d ys slot where "m_root s = Some r" "sleaves r = xs @ (a, d) # ys" "it = (Some a, slot)"
    "p = length (concat (map snd xs)) + slot" "slot < length d \<or> slot = length d \<and> ys = []"
  using assms unfolding it_is_def by blast

lemma leaf_at_mem:
  assumes "stx_ok c s" and "m_root s = Some r" and "(a, d) \<in> set (sleaves r)"
  shows "leaf_at s a = Some d"
  using assms by (auto simp: leaf_at_def stx_ok_def dll_def)

lemma stx_list_leaves: "m_root s = Some r \<Longrightarrow> stx_list s = concat (map snd (sleaves r))"
  by (simp add: stx_list_def sentries_leaves)

lemma sleaves_nonempty: "sshape c n \<Longrightarrow> sleaves n \<noteq> []"
  using sshape_nonempty [of c n] sentries_leaves [of n] by auto

lemma leaves_filled: "sshape c n \<Longrightarrow> (a, d) \<in> set (sleaves n) \<Longrightarrow> d \<noteq> []"
  by (induction n rule: sentries.induct) (auto simp: sshape.simps)

lemma chain_at:
  assumes "stx_ok c s" and "m_root s = Some r" and "sleaves r = xs @ (a, d) # ys"
  shows "nextleaf (m_mem s) a = (case ys of [] \<Rightarrow> None | y # _ \<Rightarrow> Some (fst y))"
    and "prevleaf (m_mem s) a = (if xs = [] then None else Some (fst (last xs)))"
    and "m_headleaf (m_mem s) = Some (fst (hd (sleaves r)))"
    and "m_tailleaf (m_mem s) = Some (fst (last (sleaves r)))"
proof -
  have d: "dll (m_mem s) (map fst xs @ a # map fst ys)" using assms by (simp add: stx_ok_def)
  then show "nextleaf (m_mem s) a = (case ys of [] \<Rightarrow> None | y # _ \<Rightarrow> Some (fst y))"
    by (auto simp: dll_def seg_append split: list.splits)
  show "prevleaf (m_mem s) a = (if xs = [] then None else Some (fst (last xs)))"
    using d by (auto simp: dll_def seg_append last_map)
  show "m_headleaf (m_mem s) = Some (fst (hd (sleaves r)))" "m_tailleaf (m_mem s) = Some (fst (last (sleaves r)))"
    using d by (auto simp: dll_def assms(3) hd_append hd_map last_map)
qed

lemma it_begin_is: "stx_ok c s \<Longrightarrow> m_root s = Some r \<Longrightarrow> it_is s (it_begin s) 0"
proof -
  assume ok: "stx_ok c s" and r: "m_root s = Some r"
  then have sh: "sshape c r" by (simp add: stx_ok_def)
  then obtain a d ys where l: "sleaves r = (a, d) # ys" using sleaves_nonempty by (metis neq_Nil_conv surj_pair)
  then have "d \<noteq> []" using leaves_filled [OF sh, of a d] by simp
  then have "it_is s (Some a, 0) 0" by (intro it_isI [OF r, of "[]" a d ys]) (simp_all add: l)
  then show ?thesis using chain_at(3) [OF ok r, of "[]" a d ys] l by (simp add: it_begin_def)
qed

lemma it_end_is: "stx_ok c s \<Longrightarrow> m_root s = Some r \<Longrightarrow> it_is s (it_end s) (length (stx_list s))"
proof -
  assume ok: "stx_ok c s" and r: "m_root s = Some r"
  then have sh: "sshape c r" by (simp add: stx_ok_def)
  then obtain a d xs where l: "sleaves r = xs @ [(a, d)]" using sleaves_nonempty by (metis rev_exhaust surj_pair)
  have "leaf_at s a = Some d" by (rule leaf_at_mem [OF ok r]) (simp add: l)
  with l show ?thesis using chain_at(4) [OF ok r l] r
    by (auto simp: it_is_def it_end_def stx_list_leaves)
qed

lemma it_is_le: "it_is s it p \<Longrightarrow> p \<le> length (stx_list s)"
  by (auto simp: it_is_def stx_list_leaves)

lemma it_deref_is:
  assumes ok: "stx_ok c s" and p: "it_is s it p"
  shows "it_deref s it = (if p < length (stx_list s) then Some (stx_list s ! p) else None)"
proof -
  from p obtain r xs a d ys slot where r: "m_root s = Some r" "sleaves r = xs @ (a, d) # ys" "it = (Some a, slot)"
    "p = length (concat (map snd xs)) + slot" "slot < length d \<or> slot = length d \<and> ys = []"
    by (rule it_isE)
  have "leaf_at s a = Some d" by (rule leaf_at_mem [OF ok r(1)]) (simp add: r(2))
  with r show ?thesis by (auto simp: it_deref_def stx_list_leaves nth_append)
qed

lemma it_inc_is:
  assumes ok: "stx_ok c s" and p: "it_is s it p"
  shows "\<exists>it'. it_inc s it = Some it' \<and> it_is s it' (min (Suc p) (length (stx_list s)))"
proof -
  from p obtain r xs a d ys slot where r: "m_root s = Some r" "sleaves r = xs @ (a, d) # ys" "it = (Some a, slot)"
    "p = length (concat (map snd xs)) + slot" "slot < length d \<or> slot = length d \<and> ys = []"
    by (rule it_isE)
  have sh: "sshape c r" using ok r(1) by (simp add: stx_ok_def)
  have la: "leaf_at s a = Some d" by (rule leaf_at_mem [OF ok r(1)]) (simp add: r(2))
  have len: "length (stx_list s) = length (concat (map snd xs)) + length d + length (concat (map snd ys))"
    by (simp add: stx_list_leaves [OF r(1)] r(2))
  show ?thesis
  proof (cases "Suc slot < length d")
    case True
    then have "it_is s (Some a, Suc slot) (Suc p)" using r by (intro it_isI [OF r(1,2)]) simp_all
    with True r la len show ?thesis by (simp add: it_inc_def min_def)
  next
    case False
    show ?thesis
    proof (cases ys)
      case Nil
      have "it_is s (Some a, length d) (length (stx_list s))"
        using len Nil by (intro it_isI [OF r(1,2)]) simp_all
      moreover have "min (Suc p) (length (stx_list s)) = length (stx_list s)" using False Nil r(4,5) len by auto
      moreover have "nextleaf (m_mem s) a = None" using chain_at(1) [OF ok r(1,2)] Nil by simp
      ultimately show ?thesis using False r la by (simp add: it_inc_def)
    next
      case (Cons y ys')
      obtain b e where y: "y = (b, e)" by (cases y)
      have e: "e \<noteq> []" using leaves_filled [OF sh, of b e] r(2) Cons y by simp
      have slot: "Suc slot = length d" using False r(5) Cons by auto
      have "it_is s (Some b, 0) (Suc p)"
        by (rule it_isI [OF r(1), of "xs @ [(a, d)]" b e ys']) (use r Cons y e slot in auto)
      moreover have "min (Suc p) (length (stx_list s)) = Suc p" using r(4) len slot Cons y e by auto
      moreover have "nextleaf (m_mem s) a = Some b" using chain_at(1) [OF ok r(1,2)] Cons y by simp
      ultimately show ?thesis using False r la by (simp add: it_inc_def)
    qed
  qed
qed

end
