(* ===== verification/STX_Query.thy ===== *)
theory STX_Query
  imports STX_Links
begin

text \<open>
  The queries of the STX B+-tree. A descent that looks for the end of an initial part of the key
  order (the keys below a key, or up to it) arrives at the leaf where that part ends, so every
  query returns the iterator at the position the ordered entries prescribe.
\<close>

section \<open>Stepping back and uniqueness\<close>

lemma it_dec_is:
  assumes ok: "stx_ok c s" and p: "it_is s it p"
  shows "\<exists>it'. it_dec s it = Some it' \<and> it_is s it' (p - 1)"
proof -
  from p obtain r xs a d ys slot where r: "m_root s = Some r" "sleaves r = xs @ (a, d) # ys" "it = (Some a, slot)"
    "p = length (concat (map snd xs)) + slot" "slot < length d \<or> slot = length d \<and> ys = []"
    by (rule it_isE)
  have sh: "sshape c r" using ok r(1) by (simp add: stx_ok_def)
  have prev: "prevleaf (m_mem s) a = (if xs = [] then None else Some (fst (last xs)))"
    by (rule chain_at(2) [OF ok r(1,2)])
  have d: "d \<noteq> []" using leaves_filled [OF sh, of a d] r(2) by simp
  show ?thesis
  proof (cases "0 < slot")
    case True
    then have "it_is s (Some a, slot - 1) (p - 1)"
      using r d by (intro it_isI [OF r(1,2)]) auto
    with True r show ?thesis by (simp add: it_dec_def)
  next
    case False
    show ?thesis
    proof (cases xs rule: rev_cases)
      case Nil
      then have "it_is s (Some a, 0) 0"
        using r d by (intro it_isI [OF r(1,2)]) auto
      with False r prev Nil show ?thesis by (simp add: it_dec_def)
    next
      case (snoc xs' y)
      obtain b e where y: "y = (b, e)" by (cases y)
      have "(b, e) \<in> set (sleaves r)" using r(2) snoc y by simp
      then have e: "e \<noteq> []" "leaf_at s b = Some e" using leaves_filled [OF sh] leaf_at_mem [OF ok r(1)] by auto
      have "it_is s (Some b, length e - 1) (p - 1)"
        by (rule it_isI [OF r(1), of xs' b e "(a, d) # ys"]) (use r(2,4) snoc y e(1) False in \<open>cases e; auto\<close>)+
      with False r prev snoc y e(2) show ?thesis by (simp add: it_dec_def)
    qed
  qed
qed

lemma append_same_fst:
  assumes "distinct (map fst (xs @ (a, d) # ys))" and "xs @ (a, d) # ys = xs' @ (a, d') # ys'"
  shows "xs = xs' \<and> d = d' \<and> ys = ys'"
proof -
  have "a \<notin> fst ` set xs" "a \<notin> fst ` set ys" using assms(1) by auto
  moreover have "distinct (map fst (xs' @ (a, d') # ys'))" using assms by simp
  then have "a \<notin> fst ` set xs'" "a \<notin> fst ` set ys'" by auto
  ultimately have "(a, d) \<notin> set xs'" "(a, d') \<notin> set xs" by force+
  moreover have "(a, d) = (a, d')"
    using assms by (metis Some_eq_map_of_iff in_set_conv_decomp option.inject)
  moreover have "(a, d) \<notin> set xs" "(a, d) \<notin> set ys" using assms(1) by force+
  ultimately show ?thesis using assms(2) append_Cons_eq_iff [of "(a, d)" xs ys xs' ys'] by simp
qed

text \<open>Iterators of one tree compare equal exactly if they stand at the same position.\<close>

lemma it_is_unique:
  assumes ok: "stx_ok c s" and p: "it_is s it p" and q: "it_is s it' q"
  shows "it = it' \<longleftrightarrow> p = q"
proof
  from p obtain r xs a d ys slot where r: "m_root s = Some r" "sleaves r = xs @ (a, d) # ys" "it = (Some a, slot)"
    "p = length (concat (map snd xs)) + slot" "slot < length d \<or> slot = length d \<and> ys = []"
    by (rule it_isE)
  from q r(1) obtain xs' a' d' ys' slot' where r': "sleaves r = xs' @ (a', d') # ys'" "it' = (Some a', slot')"
    "q = length (concat (map snd xs')) + slot'" "slot' < length d' \<or> slot' = length d' \<and> ys' = []"
    unfolding it_is_def by auto
  have dist: "distinct (map fst (sleaves r))" using ok r(1) by (simp add: stx_ok_def dll_def)
  show "p = q" if "it = it'"
  proof -
    have "a = a'" "slot = slot'" using that r(3) r'(2) by auto
    with append_same_fst [of xs a d ys xs' d' ys'] dist r(2) r'(1) have "xs = xs'" by simp
    with \<open>slot = slot'\<close> show ?thesis using r(4) r'(3) by simp
  qed
  have same: "xs = xs'" if pq: "p = q" and len: "length xs \<le> length xs'"
    and e1: "xs @ (a, d) # ys = xs' @ (a', d') # ys'" and p: "p = length (concat (map snd xs)) + slot" "slot < length d \<or> slot = length d \<and> ys = []"
    and q: "q = length (concat (map snd xs')) + slot'" "slot' < length d' \<or> slot' = length d' \<and> ys' = []"
    and d': "d' \<noteq> []" for p q xs a d ys xs' a' d' ys' slot slot'
  proof -
    obtain us where us: "xs' = xs @ us" using len e1 by (metis append_eq_append_conv_if append_take_drop_id)
    show ?thesis
    proof (cases us)
      case (Cons u us')
      with e1 us have u: "u = (a, d)" "ys \<noteq> []" by auto
      then have "p < length (concat (map snd xs')) " using p us Cons by auto
      with q pq show ?thesis by simp
    qed (simp add: us)
  qed
  show "it = it'" if pq: "p = q"
  proof -
    have sh: "sshape c r" using ok r(1) by (simp add: stx_ok_def)
    have ne: "d \<noteq> []" "d' \<noteq> []" using leaves_filled [OF sh] r(2) r'(1) by (metis in_set_conv_decomp)+
    have eq: "xs @ (a, d) # ys = xs' @ (a', d') # ys'" using r(2) r'(1) by simp
    have "xs = xs'"
    proof (cases "length xs \<le> length xs'")
      case True
      show ?thesis by (rule same [OF pq True eq r(4,5) r'(3,4) ne(2)])
    next
      case False
      then have "length xs' \<le> length xs" by simp
      then show ?thesis using same [OF pq [symmetric] _ eq [symmetric] r'(3,4) r(4,5) ne(1)] by simp
    qed
    with eq r(3,4) r'(2,3) pq show ?thesis by simp
  qed
qed

section \<open>The descent\<close>

lemma takeWhile_bounds:
  "i < length (takeWhile bel ks) \<Longrightarrow> bel (ks ! i)"
  "length (takeWhile bel ks) < length ks \<Longrightarrow> \<not> bel (ks ! length (takeWhile bel ks))"
  by (metis nth_mem set_takeWhileD takeWhile_nth) (rule nth_length_takeWhile)

lemma child_split:
  assumes s: "skeys (concat (map sentries cs))" and ne: "\<forall>n\<in>set cs. sentries n \<noteq> []"
    and ks: "ks = map maxkey (butlast cs)" and cs: "length cs = Suc (length ks)"
    and bel: "\<forall>x y. x \<le> y \<longrightarrow> bel y \<longrightarrow> bel (x::'k::linorder)" and slot: "slot = length (takeWhile bel ks)"
  shows "slot < length cs"
    and "\<forall>x\<in>set (concat (map sentries (take slot cs))). bel (fst x)"
    and "\<forall>x\<in>set (concat (map sentries (drop (Suc slot) cs))). \<not> bel (fst x)"
    and "slot < length ks \<Longrightarrow> \<not> bel (maxkey (cs ! slot))"
proof -
  show len: "slot < length cs" using cs slot length_takeWhile_le [of bel ks] by simp
  have key: "ks ! i = maxkey (cs ! i)" if "i < length ks" for i
    using that unfolding ks by (simp add: nth_butlast)
  show "\<forall>x\<in>set (concat (map sentries (take slot cs))). bel (fst x)"
  proof
    fix x assume "x \<in> set (concat (map sentries (take slot cs)))"
    then obtain n where n: "n \<in> set (take slot cs)" "x \<in> set (sentries n)" by auto
    then obtain i where i: "i < slot" "x \<in> set (sentries (cs ! i))"
      by (metis in_set_conv_nth length_take min_less_iff_conj nth_take)
    have "fst x \<le> maxkey (cs ! i)"
      by (rule maxkey_ge [OF sorted_child(1) [OF s] i(2)]) (use i len in simp)
    moreover have "bel (maxkey (cs ! i))"
      using i(1) key [of i] takeWhile_bounds(1) [of i bel ks] cs len slot by simp
    ultimately show "bel (fst x)" using bel by blast
  qed
  show nb: "\<not> bel (maxkey (cs ! slot))" if "slot < length ks"
    using that key [of slot] takeWhile_bounds(2) [of bel ks] by (simp add: slot)
  show "\<forall>x\<in>set (concat (map sentries (drop (Suc slot) cs))). \<not> bel (fst x)"
  proof (cases "slot < length ks")
    case False
    with len cs have "drop (Suc slot) cs = []" by simp
    then show ?thesis by (simp only: list.map concat.simps) simp
  next
    case True
    have "maxkey (cs ! slot) \<in> fst ` set (sentries (cs ! slot))" using ne len by (intro maxkey_in) auto
    moreover have "\<forall>x\<in>set (sentries (cs ! slot)).
        \<forall>y\<in>set (concat (map sentries (drop (Suc slot) cs))). fst x < fst y"
      using s unfolding sorted_child(2) [OF s len] skeys_append by blast
    ultimately show ?thesis using nb [OF True] bel by (metis imageE less_imp_le)
  qed
qed

lemma sdescend_spec:
  assumes bel: "\<forall>x y. x \<le> y \<longrightarrow> bel y \<longrightarrow> bel (x::'k::linorder)"
    and fnd: "\<forall>ks. fnd ks key = length (takeWhile bel ks)"
    and "sshape c n" and "skeys (sentries n)"
  shows "\<exists>xs ys. sleaves n = xs @ sdescend fnd key n # ys
    \<and> (\<forall>x\<in>set (concat (map snd xs)). bel (fst x)) \<and> (\<forall>x\<in>set (concat (map snd ys)). \<not> bel (fst x))
    \<and> (ys = [] \<or> \<not> bel (fst (last (snd (sdescend fnd key n)))))"
  using assms(2-4)
proof (induction fnd key n rule: sdescend.induct)
  case (1 f k a d)
  then show ?case by (intro exI [of _ "[]"]) simp
next
  case (2 f k l ks cs)
  have cs: "ks \<noteq> []" "length ks \<le> innerslotmax c" "length cs = Suc (length ks)" "ks = map maxkey (butlast cs)"
    and ch: "\<forall>n\<in>set cs. sshape c n \<and> Suc (slevel n) = l \<and> \<not> isunderflow c n"
    using "2.prems"(2) unfolding sshape.simps by blast+
  have ne: "\<forall>n\<in>set cs. sentries n \<noteq> []" using ch sshape_nonempty by blast
  have sk: "skeys (concat (map sentries cs))" using "2.prems"(3) by simp
  define slot where "slot = length (takeWhile bel ks)"
  note bounds = child_split [OF sk ne cs(4,3) bel slot_def]
  let ?n = "cs ! slot" and ?L = "take slot cs" and ?R = "drop (Suc slot) cs"
  have child: "?n \<in> set cs" using bounds(1) by simp
  have fk: "f ks k = slot" by (simp add: "2.prems"(1) slot_def)
  have "f ks k < length cs" using fk bounds(1) by simp
  from "2.IH" [OF this "2.prems"(1), unfolded fk] ch child sorted_child(1) [OF sk bounds(1)] obtain xs ys where
    IH: "sleaves ?n = xs @ sdescend f k ?n # ys" "\<forall>x\<in>set (concat (map snd xs)). bel (fst x)"
      "\<forall>x\<in>set (concat (map snd ys)). \<not> bel (fst x)" "ys = [] \<or> \<not> bel (fst (last (snd (sdescend f k ?n))))"
    by blast
  have step: "sdescend f k (SInner l ks cs) = sdescend f k ?n"
    using bounds(1) by (simp add: fk)
  have all: "leaves_of cs = (leaves_of ?L @ xs) @ sdescend f k ?n # (ys @ leaves_of ?R)"
    by (subst id_take_nth_drop [OF bounds(1)]) (simp add: IH(1))
  have ent: "concat (map snd (leaves_of ns)) = concat (map sentries ns)" for ns :: "('k, 'b) snode list"
    by (induction ns) (simp_all add: sentries_leaves)
  have "ys @ leaves_of ?R = [] \<or> \<not> bel (fst (last (snd (sdescend f k ?n))))"
  proof (cases "ys = [] \<and> leaves_of ?R \<noteq> []")
    case True
    then have "slot < length ks" using cs(3) bounds(1) by (cases "slot < length ks") auto
    then have nb: "\<not> bel (maxkey ?n)" by (rule bounds(4))
    have "snd (sdescend f k ?n) \<noteq> []"
      using leaves_filled [of c ?n "fst (sdescend f k ?n)" "snd (sdescend f k ?n)"] IH(1) ch child by simp
    then have "last (sentries ?n) = last (snd (sdescend f k ?n))"
      using True by (simp add: sentries_leaves IH(1))
    with nb show ?thesis by (simp add: maxkey_def)
  qed (use IH(4) in auto)
  moreover have "\<forall>x\<in>set (concat (map snd (leaves_of ?L @ xs))). bel (fst x)"
    using IH(2) bounds(2) by (simp add: ent ball_Un)
  moreover have "\<forall>x\<in>set (concat (map snd (ys @ leaves_of ?R))). \<not> bel (fst x)"
    using IH(3) bounds(3) by (simp add: ent ball_Un)
  ultimately show ?case using all unfolding step sleaves.simps by blast
qed

lemma takeWhile_append_all:
  "\<forall>x\<in>set xs. P x \<Longrightarrow> \<forall>y\<in>set ys. \<not> P y \<Longrightarrow> takeWhile P (xs @ d @ ys) = xs @ takeWhile P d"
proof -
  assume "\<forall>x\<in>set xs. P x" "\<forall>y\<in>set ys. \<not> P y"
  moreover from this have "takeWhile P (d @ ys) = takeWhile P d" by (induction d; cases ys) auto
  ultimately show ?thesis by simp
qed

text \<open>The iterator a descent yields stands behind all entries in the part that was looked for.\<close>

lemma sdescend_position:
  assumes bel: "\<forall>x y. x \<le> y \<longrightarrow> bel y \<longrightarrow> bel (x::'k::linorder)"
    and fnd: "\<forall>ks. fnd ks key = length (takeWhile bel ks)"
    and ok: "stx_ok c s" and r: "m_root s = Some r" and d: "sdescend fnd key r = (a, d)"
  shows "it_is s (Some a, fnd (map fst d) key) (length (takeWhile (\<lambda>x. bel (fst x)) (stx_list s)))"
    and "leaf_at s a = Some d"
proof -
  have "sshape c r" "skeys (sentries r)" using ok r by (auto simp: stx_ok_def)
  from sdescend_spec [where bel = bel and fnd = fnd and key = key, OF bel fnd this] d obtain xs ys where
    sp: "sleaves r = xs @ (a, d) # ys" "\<forall>x\<in>set (concat (map snd xs)). bel (fst x)"
      "\<forall>x\<in>set (concat (map snd ys)). \<not> bel (fst x)" "ys = [] \<or> \<not> bel (fst (last d))" by auto
  show "leaf_at s a = Some d" by (rule leaf_at_mem [OF ok r]) (simp add: sp(1))
  let ?slot = "length (takeWhile (\<lambda>x. bel (fst x)) d)"
  have slot: "fnd (map fst d) key = ?slot" by (simp add: fnd takeWhile_map comp_def)
  have "takeWhile (\<lambda>x. bel (fst x)) (stx_list s) = concat (map snd xs) @ takeWhile (\<lambda>x. bel (fst x)) d"
    unfolding stx_list_leaves [OF r] sp(1) by (simp del: set_concat add: takeWhile_append_all [OF sp(2,3)])
  moreover have "?slot < length d \<or> ?slot = length d \<and> ys = []"
  proof (cases "?slot < length d")
    case False
    then have "length (takeWhile (\<lambda>x. bel (fst x)) d) = length d"
      using length_takeWhile_le [of "\<lambda>x. bel (fst x)" d] by simp
    then have "takeWhile (\<lambda>x. bel (fst x)) d = d" by (metis takeWhile_eq_take take_all_iff order_refl)
    then have "\<forall>x\<in>set d. bel (fst x)" by (metis set_takeWhileD)
    moreover have "d \<noteq> []"
      using leaves_filled [of c r a d] ok r sp(1) by (simp add: stx_ok_def)
    ultimately show ?thesis using sp(4) False \<open>length (takeWhile (\<lambda>x. bel (fst x)) d) = length d\<close> by auto
  qed simp
  ultimately show "it_is s (Some a, fnd (map fst d) key) (length (takeWhile (\<lambda>x. bel (fst x)) (stx_list s)))"
    by (intro it_isI [OF r sp(1)]) (simp_all add: slot)
qed

lemmas lower_position =
  sdescend_position [where bel = "\<lambda>x. x < key" and fnd = find_lower and key = key for key]
lemmas upper_position =
  sdescend_position [where bel = "\<lambda>x. x \<le> key" and fnd = find_upper and key = key for key]

lemma lower_bound_is:
  assumes ok: "stx_ok c s" and r: "m_root s = Some r"
  shows "it_is s (stx_lower_bound s key) (rank_less key (map fst (stx_list s)))"
proof -
  obtain a d where d: "sdescend find_lower key r = (a, d)" by force
  have "it_is s (Some a, find_lower (map fst d) key) (length (takeWhile (\<lambda>x. fst x < key) (stx_list s)))"
    by (rule lower_position(1) [OF _ _ ok r d]) (auto simp: rank_less_def)
  with d r show ?thesis by (simp add: stx_lower_bound_def rank_less_def takeWhile_map comp_def)
qed

lemma upper_bound_is:
  assumes ok: "stx_ok c s" and r: "m_root s = Some r"
  shows "it_is s (stx_upper_bound s key) (rank_le key (map fst (stx_list s)))"
proof -
  obtain a d where d: "sdescend find_upper key r = (a, d)" by force
  have "it_is s (Some a, find_upper (map fst d) key) (length (takeWhile (\<lambda>x. fst x \<le> key) (stx_list s)))"
    by (rule upper_position(1) [OF _ _ ok r d]) (auto simp: rank_le_def)
  with d r show ?thesis by (simp add: stx_upper_bound_def rank_le_def takeWhile_map comp_def)
qed

lemma stx_find_lower_bound:
  assumes ok: "stx_ok c s" and r: "m_root s = Some r"
  shows "stx_find s key = (case it_deref s (stx_lower_bound s key) of
      Some x \<Rightarrow> if fst x = key then stx_lower_bound s key else it_end s
    | None \<Rightarrow> it_end s)"
    and "stx_exists s key \<longleftrightarrow> (case it_deref s (stx_lower_bound s key) of
      Some x \<Rightarrow> fst x = key | None \<Rightarrow> False)"
proof -
  obtain a d where d: "sdescend find_lower key r = (a, d)" by force
  have la: "leaf_at s a = Some d"
    by (rule lower_position(2) [OF _ _ ok r d]) (auto simp: rank_less_def)
  show "stx_find s key = (case it_deref s (stx_lower_bound s key) of
      Some x \<Rightarrow> if fst x = key then stx_lower_bound s key else it_end s | None \<Rightarrow> it_end s)"
    using la by (auto simp: stx_find_def stx_lower_bound_def r d it_deref_def Let_def)
  show "stx_exists s key \<longleftrightarrow> (case it_deref s (stx_lower_bound s key) of Some x \<Rightarrow> fst x = key | None \<Rightarrow> False)"
    using la by (auto simp: stx_exists_def stx_lower_bound_def r d it_deref_def Let_def)
qed

text \<open>A tree without a root has no entries.\<close>

lemma stx_no_root: "m_root s = None \<Longrightarrow> stx_list s = []"
  by (simp add: stx_list_def)

lemma stx_find_is:
  assumes ok: "stx_ok c s" and p_def: "p = rank_less key (map fst (stx_list s))"
  shows "key \<in> fst ` set (stx_list s) \<Longrightarrow> it_is s (stx_find s key) p"
    and "key \<notin> fst ` set (stx_list s) \<Longrightarrow> stx_find s key = it_end s"
    and "stx_exists s key \<longleftrightarrow> key \<in> fst ` set (stx_list s)"
proof -
  note found = rank_less_found [OF stx_ok_sorted [OF ok] p_def]
  have "(key \<in> fst ` set (stx_list s) \<longrightarrow> it_is s (stx_find s key) p)
    \<and> (key \<notin> fst ` set (stx_list s) \<longrightarrow> stx_find s key = it_end s)
    \<and> (stx_exists s key \<longleftrightarrow> key \<in> fst ` set (stx_list s))"
  proof (cases "m_root s")
    case None
    then show ?thesis by (simp add: stx_no_root stx_find_def stx_exists_def)
  next
    case (Some r)
    have lb: "it_is s (stx_lower_bound s key) p" unfolding p_def by (rule lower_bound_is [OF ok Some])
    note der = it_deref_is [OF ok lb] and fe = stx_find_lower_bound [OF ok Some, of key]
    show ?thesis
    proof (cases "key \<in> fst ` set (stx_list s)")
      case True
      then have "p < length (stx_list s)" "fst (stx_list s ! p) = key" using found by simp_all
      with lb der fe True show ?thesis by simp
    next
      case False
      then have "\<not> (p < length (stx_list s) \<and> fst (stx_list s ! p) = key)" using found by simp
      then have "case it_deref s (stx_lower_bound s key) of Some x \<Rightarrow> fst x \<noteq> key | None \<Rightarrow> True"
        using der by (cases "p < length (stx_list s)") simp_all
      with fe False show ?thesis by (auto split: option.splits)
    qed
  qed
  then show "key \<in> fst ` set (stx_list s) \<Longrightarrow> it_is s (stx_find s key) p"
    and "key \<notin> fst ` set (stx_list s) \<Longrightarrow> stx_find s key = it_end s"
    and "stx_exists s key \<longleftrightarrow> key \<in> fst ` set (stx_list s)" by blast+
qed

section \<open>Counting\<close>

lemma count_loop_stop:
  assumes ok: "stx_ok c s" and it: "it_is s (Some a, slot) p" and "p < length (stx_list s)" "fst (stx_list s ! p) \<noteq> key"
  shows "count_loop (Suc n) s key (Some a) slot num = Some num"
proof -
  have "it_deref s (Some a, slot) = Some (stx_list s ! p)" using it_deref_is [OF ok it] assms(3) by simp
  then obtain d where "leaf_at s a = Some d" "slot < length d" "d ! slot = stx_list s ! p"
    by (auto simp: it_deref_def split: option.splits if_splits)
  with assms(4) show ?thesis by simp
qed

lemma stx_count_is:
  assumes ok: "stx_ok c s"
  shows "stx_count s key = Some (if key \<in> fst ` set (stx_list s) then 1 else 0)"
proof (cases "m_root s")
  case None
  then show ?thesis by (simp add: stx_count_def stx_no_root)
next
  case (Some r)
  obtain a d where d: "sdescend find_lower key r = (a, d)" by force
  define p slot where "p = rank_less key (map fst (stx_list s))" and "slot = find_lower (map fst d) key"
  have la: "leaf_at s a = Some d"
    by (rule lower_position(2) [OF _ _ ok Some d]) (auto simp: rank_less_def)
  have lb: "it_is s (Some a, slot) p"
    using lower_bound_is [OF ok Some, of key] d by (simp add: stx_lower_bound_def Some p_def slot_def)
  note srt = stx_ok_sorted [OF ok] and found = rank_less_found [OF stx_ok_sorted [OF ok] p_def]
  have cnt: "stx_count s key = count_loop (Suc (length (stx_list s))) s key (Some a) slot 0"
  proof -
    have "stx_size s + 1 = Suc (length (stx_list s))" using ok by (simp add: stx_size_def stx_ok_def)
    then show ?thesis by (simp only: stx_count_def Some option.case d prod.case slot_def)
  qed
  note der = it_deref_is [OF ok lb, unfolded it_deref_def, simplified, unfolded la, simplified]
  show ?thesis
  proof (cases "key \<in> fst ` set (stx_list s)")
    case False
    then have no: "\<not> (p < length (stx_list s) \<and> fst (stx_list s ! p) = key)" using found by simp
    have "\<not> (slot < length d \<and> key = fst (d ! slot))"
      using der no by (auto split: if_splits)
    with la False show ?thesis unfolding cnt by auto
  next
    case True
    then have p: "p < length (stx_list s)" "fst (stx_list s ! p) = key" using found by simp_all
    have slot: "slot < length d" "fst (d ! slot) = key" using der p by (auto split: if_splits)
    obtain n where n: "length (stx_list s) = Suc n" using p by (cases "length (stx_list s)") auto
    obtain it' where inc: "it_inc s (Some a, slot) = Some it'" "it_is s it' (Suc p)"
      using it_inc_is [OF ok lb] p(1) by (auto simp: min_def Suc_le_eq)
    have nxt: "fst (stx_list s ! Suc p) \<noteq> key" if "Suc p < length (stx_list s)"
      using sorted_wrt_nth_less [OF srt, of p "Suc p"] p that by simp
    show ?thesis
    proof (cases "Suc slot < length d")
      case more: True
      then have "it' = (Some a, Suc slot)" using inc(1) la by (simp add: it_inc_def)
      moreover have "Suc p < length (stx_list s)"
        using it_deref_is [OF ok inc(2)] more la calculation by (auto simp: it_deref_def split: if_splits)
      ultimately have "count_loop (Suc n) s key (Some a) (Suc slot) 1 = Some 1"
        using count_loop_stop [OF ok _ _ nxt] inc(2) by blast
      with slot la more True n show ?thesis unfolding cnt by simp
    next
      case False
      show ?thesis
      proof (cases "nextleaf (m_mem s) a")
        case None
        with slot la False True n show ?thesis unfolding cnt by simp
      next
        case (Some b)
        then have it': "it' = (Some b, 0)" using inc(1) la False by (simp add: it_inc_def)
        have "Suc p < length (stx_list s)"
        proof (rule ccontr)
          assume "\<not> Suc p < length (stx_list s)"
          then have e: "Suc p = length (stx_list s)" using p by simp
          with inc(2) obtain r' xs b' d' ys slot' where w: "m_root s = Some r'" "sleaves r' = xs @ (b', d') # ys"
            "it' = (Some b', slot')" "Suc p = length (concat (map snd xs)) + slot'"
            "slot' < length d' \<or> slot' = length d' \<and> ys = []"
            by (elim it_isE)
          have "d' \<noteq> []" using leaves_filled [of c r' b' d'] ok w(1,2) by (simp add: stx_ok_def)
          with w e it' show False by (simp add: stx_list_leaves)
        qed
        with nxt have "count_loop (Suc n) s key (Some b) 0 1 = Some 1"
          using count_loop_stop [OF ok] inc(2) it' by blast
        with slot la False True n Some show ?thesis unfolding cnt by simp
      qed
    qed
  qed
qed

end
