(* ===== verification/STX_Bulk.thy ===== *)
theory STX_Bulk
  imports STX_Query
begin

text \<open>
  The bulk loader of the STX B+-tree: sharing items out evenly keeps every node at least half
  full, so a loaded tree has the invariant and holds exactly the loaded range. The self-check
  of the tree accepts every tree with the invariant.
\<close>

section \<open>Even shares\<close>

lemma share_bounds:
  fixes N r q M n :: nat
  assumes lo: "Suc r * q \<le> N" and hi: "N \<le> Suc r * M" and n: "n = N div Suc r"
  shows "q \<le> n" "n \<le> M" "n \<le> N" "r * q \<le> N - n" "N - n \<le> r * M"
proof -
  have N: "N = n * Suc r + N mod Suc r" "N mod Suc r \<le> r"
    using n by (metis div_mult_mod_eq) (metis less_Suc_eq_le mod_less_divisor zero_less_Suc)
  show q: "q \<le> n" using lo n by (metis div_le_mono nonzero_mult_div_cancel_left Suc_not_Zero)
  show M: "n \<le> M" using hi n by (metis div_le_mono nonzero_mult_div_cancel_left Suc_not_Zero)
  show "n \<le> N" using n by simp
  have rest: "N - n = n * r + N mod Suc r" using N(1) by simp
  have "r * q \<le> n * r" using q by (simp add: mult.commute)
  then show "r * q \<le> N - n" using rest by linarith
  show "N - n \<le> r * M"
  proof (cases "n = M")
    case True
    then have "N mod Suc r = 0" using N hi by (simp add: mult.commute)
    with rest True show ?thesis by (simp add: mult.commute)
  next
    case False
    then have "Suc n \<le> M" using M by simp
    then have "r * Suc n \<le> r * M" by (rule mult_le_mono2)
    moreover have "r * Suc n = n * r + r" by simp
    ultimately show ?thesis using rest N(2) by linarith
  qed
qed

text \<open>Enough nodes for \<open>N\<close> items of which \<open>w\<close> fit into one: none is less than half full.\<close>

lemma enough_nodes:
  fixes N w P :: nat
  assumes w: "0 < w" and N: "0 < N" and P: "P = (N + w - 1) div w"
  shows "0 < P" "N \<le> P * w" "1 < P \<Longrightarrow> P * ((w + 1) div 2) \<le> N"
proof -
  have "N + w - 1 = P * w + (N + w - 1) mod w" "(N + w - 1) mod w < w" using P w by simp_all
  then have b: "N \<le> P * w" "P * w < N + w" using w by linarith+
  then show "N \<le> P * w" by simp
  show "0 < P" using b N by (cases P) auto
  show "P * ((w + 1) div 2) \<le> N" if "1 < P"
  proof -
    define h where "h = (w + 1) div 2"
    have h: "2 * h \<le> w + 1" "h \<le> w" using w by (auto simp: h_def)
    obtain t where t: "P = Suc (Suc t)" using \<open>1 < P\<close> by (metis One_nat_def Suc_lessE less_imp_Suc_add)
    have "t * h \<le> t * w" using h(2) by (intro mult_le_mono2)
    moreover have "w + (w + t * w) < N + w" using b(2) t by simp
    moreover have "P * h = 2 * h + t * h" using t by simp
    ultimately show ?thesis using h(1) unfolding h_def [symmetric] by linarith
  qed
qed

section \<open>The leaves\<close>

lemma bulk_link_sel:
  fixes m defines "b \<equiv> s_fresh m" and "m' \<equiv> bulk_link (s_fresh m) (fst (allocate_leaf m))"
  shows "prevleaf m' x = (if x = b then m_tailleaf m else prevleaf m x)"
    and "nextleaf m' x = (if m_tailleaf m = Some x then Some b else if x = b then None else nextleaf m x)"
    and "m_headleaf m' = (if m_tailleaf m = None then Some b else m_headleaf m)"
    and "m_tailleaf m' = Some b" and "st_leaves m' = st_leaves m + 1"
    and "st_innernodes m' = st_innernodes m" and "s_fresh m' = b + 1"
  by (auto simp: bulk_link_def allocate_leaf_def Let_def m'_def b_def split: option.split)

lemma dll_bulk_link:
  assumes "dll m as"
  shows "dll (bulk_link (s_fresh m) (fst (allocate_leaf m))) (as @ [s_fresh m])" (is "dll ?m (_ @ [?b])")
proof -
  have as: "distinct as" "\<forall>a\<in>set as. a < ?b" "seg m None as None" "st_leaves m = length as"
    "m_headleaf m = (if as = [] then None else Some (hd as))"
    "m_tailleaf m = (if as = [] then None else Some (last as))"
    using assms(1) by (auto simp: dll_def)
  then have fresh: "?b \<notin> set as" by auto
  show ?thesis
  proof (cases as rule: rev_cases)
    case Nil
    with as show ?thesis by (simp add: dll_def bulk_link_sel)
  next
    case (snoc xs t)
    have "seg m None xs (Some t)" "prevleaf m t = (if xs = [] then None else Some (last xs))"
      using as(3) snoc by (auto simp: seg_append)
    moreover have tx: "t \<notin> set xs" "?b \<notin> set xs" "t \<noteq> ?b" "m_tailleaf m = Some t" using as(1,6) fresh snoc by auto
    moreover from tx have "seg ?m None xs (Some t) = seg m None xs (Some t)"
      by (intro seg_cong) (auto simp: bulk_link_sel)
    ultimately have "seg ?m None (xs @ t # [?b]) None" by (simp add: seg_append bulk_link_sel)
    moreover have "hd (as @ [?b]) = hd as" using snoc by (cases xs) auto
    ultimately show ?thesis using as snoc fresh tx by (auto simp: dll_def bulk_link_sel less_SucI)
  qed
qed

lemma bulk_leaves_correct:
  assumes "bulk_leaves r m xs = (m', ls)" and "dll m as"
    and "r * q \<le> length xs" and "length xs \<le> r * M"
  shows "dll m' (as @ map fst ls) \<and> concat (map snd ls) = xs \<and> length ls = r
    \<and> st_innernodes m' = st_innernodes m \<and> (\<forall>x\<in>set ls. q \<le> length (snd x) \<and> length (snd x) \<le> M)"
  using assms
proof (induction r arbitrary: m xs as m' ls)
  case (Suc r)
  define b m1 n where "b = s_fresh m" and "m1 = fst (allocate_leaf m)" and "n = length xs div Suc r"
  define m2 where "m2 = bulk_link b m1"
  obtain m3 ls1 where rest: "bulk_leaves r m2 (drop n xs) = (m3, ls1)" by force
  have al: "allocate_leaf m = (m1, b)" by (simp add: m1_def b_def allocate_leaf_def Let_def)
  have ls: "m' = m3" "ls = (b, take n xs) # ls1"
    using Suc.prems(1) rest by (simp_all add: al n_def [symmetric] m2_def Let_def)
  have d: "dll m2 (as @ [b])" using dll_bulk_link [OF Suc.prems(2)] by (simp add: m2_def m1_def b_def)
  note sh = share_bounds [OF Suc.prems(3,4) n_def]
  have "st_innernodes m2 = st_innernodes m"
    by (simp add: m2_def m1_def b_def bulk_link_sel)
  moreover have "dll m3 ((as @ [b]) @ map fst ls1) \<and> concat (map snd ls1) = drop n xs \<and> length ls1 = r
    \<and> st_innernodes m3 = st_innernodes m2 \<and> (\<forall>x\<in>set ls1. q \<le> length (snd x) \<and> length (snd x) \<le> M)"
    by (rule Suc.IH [OF rest d]) (use sh in simp_all)
  ultimately show ?case using sh by (simp add: ls)
qed simp

section \<open>The inner levels\<close>

text \<open>A level of subtrees, each with its largest key.\<close>

definition level_ok :: "scfg \<Rightarrow> nat \<Rightarrow> (('k, 'v) snode \<times> 'k) list \<Rightarrow> bool" where
  "level_ok c l nx = (\<forall>x\<in>set nx. sshape c (fst x) \<and> Suc (slevel (fst x)) = l \<and> snd x = maxkey (fst x))"

lemma bulk_node_ok:
  assumes nx: "level_ok c l nx" "\<forall>x\<in>set nx. \<not> isunderflow c (fst x)"
    and n: "2 \<le> n" "n \<le> length nx" "n \<le> Suc (innerslotmax c)"
  defines "t \<equiv> SInner l (map snd (take (n - 1) nx)) (map fst (take (n - 1) nx) @ [fst (nx ! (n - 1))])"
  shows "sshape c t" "snd (nx ! (n - 1)) = maxkey t" "sleaves t = leaves_of (map fst (take n nx))"
    "ninner t = Suc (sum_list (map ninner (map fst (take n nx))))" "slotuse t = n - 1" "slevel t = l"
proof -
  have n1: "n - 1 < length nx" "Suc (n - 1) = n" using n by auto
  have tk: "take n nx = take (n - 1) nx @ [nx ! (n - 1)]" using n1 by (metis take_Suc_conv_app_nth)
  define cs where "cs = map fst (take n nx)"
  have t: "t = SInner l (map snd (take (n - 1) nx)) cs" by (simp add: t_def cs_def tk)
  have mem: "set (take n nx) \<subseteq> set nx" by (rule set_take_subset)
  have ks: "map snd (take (n - 1) nx) = map maxkey (butlast cs)"
    using nx(1) by (auto simp: cs_def tk level_ok_def dest: in_set_takeD)
  have cs: "\<forall>x\<in>set cs. sshape c x \<and> Suc (slevel x) = l \<and> \<not> isunderflow c x"
    using nx mem by (auto simp: cs_def level_ok_def)
  show "sshape c t" unfolding t
    by (rule sshape_innerI [OF _ _ _ ks cs]) (use n in \<open>auto simp: cs_def\<close>)
  have last: "cs \<noteq> []" "last cs = fst (nx ! (n - 1))" by (simp_all add: cs_def tk)
  have in_nx: "nx ! (n - 1) \<in> set nx" using n1 by simp
  then have "sentries (last cs) \<noteq> []" using nx(1) last(2) sshape_nonempty by (metis level_ok_def)
  then show "snd (nx ! (n - 1)) = maxkey t"
    using in_nx nx(1) last by (simp add: t maxkey_inner level_ok_def)
  show "sleaves t = leaves_of (map fst (take n nx))"
    "ninner t = Suc (sum_list (map ninner (map fst (take n nx))))" "slotuse t = n - 1" "slevel t = l"
    using n by (simp_all add: t cs_def)
qed

lemma bulk_level_correct:
  assumes "bulk_level l r m nx = (m', out)"
    and "level_ok c l nx" "\<forall>x\<in>set nx. \<not> isunderflow c (fst x)"
    and "r * q \<le> length nx" "length nx \<le> r * Suc (innerslotmax c)" and "2 \<le> q"
  shows "level_ok c (Suc l) out \<and> leaves_of (map fst out) = leaves_of (map fst nx)
    \<and> st_innernodes m' + sum_list (map ninner (map fst nx)) = st_innernodes m + sum_list (map ninner (map fst out))
    \<and> (\<forall>as. dll m' as = dll m as) \<and> (\<forall>x\<in>set out. q - 1 \<le> slotuse (fst x))"
  using assms
proof (induction r arbitrary: m nx m' out)
  case 0
  then show ?case by (simp add: level_ok_def)
next
  case (Suc r)
  define n t where "n = length nx div Suc r"
    and "t = SInner l (map snd (take (n - 1) nx)) (map fst (take (n - 1) nx) @ [fst (nx ! (n - 1))])"
  obtain m3 out1 where rest: "bulk_level l r (allocate_inner m) (drop n nx) = (m3, out1)" by force
  note sh = share_bounds [OF Suc.prems(4,5) n_def]
  have n: "2 \<le> n" "n \<le> length nx" "n \<le> Suc (innerslotmax c)" using sh Suc.prems(6) by auto
  have out: "m' = m3" "out = (t, snd (nx ! (n - 1))) # out1"
    using Suc.prems(1) rest by (simp_all add: n_def [symmetric] t_def Let_def)
  note node = bulk_node_ok [OF Suc.prems(2,3) n, folded t_def]
  have "level_ok c l (drop n nx)" "\<forall>x\<in>set (drop n nx). \<not> isunderflow c (fst x)"
    using Suc.prems(2,3) by (auto simp: level_ok_def dest: in_set_dropD)
  then have IH: "level_ok c (Suc l) out1 \<and> leaves_of (map fst out1) = leaves_of (map fst (drop n nx))
    \<and> st_innernodes m3 + sum_list (map ninner (map fst (drop n nx)))
        = st_innernodes (allocate_inner m) + sum_list (map ninner (map fst out1))
    \<and> (\<forall>as. dll m3 as = dll (allocate_inner m) as) \<and> (\<forall>x\<in>set out1. q - 1 \<le> slotuse (fst x))"
    by (rule Suc.IH [OF rest]) (use sh Suc.prems(6) in simp_all)
  have cut: "map f nx = map f (take n nx) @ map f (drop n nx)" for f :: "_ \<Rightarrow> 'c"
    by (metis append_take_drop_id map_append)
  have "leaves_of (map fst nx) = leaves_of (map fst (take n nx)) @ leaves_of (map fst (drop n nx))"
    "sum_list (map ninner (map fst nx)) = sum_list (map ninner (map fst (take n nx))) + sum_list (map ninner (map fst (drop n nx)))"
    by (simp_all add: cut [of fst])
  moreover have "level_ok c (Suc l) out" using IH node(1,2,6) by (simp add: level_ok_def out)
  moreover have "\<forall>x\<in>set out. q - 1 \<le> slotuse (fst x)"
    using IH node(5) sh(1) by (auto simp: out)
  ultimately show ?case using IH node(3,4) by (simp add: out)
qed

lemma bulk_levels_correct:
  assumes "bulk_levels c l m nx = (m', out)" and "level_ok c l nx" and "nx \<noteq> []"
    and "length nx = 1 \<or> (\<forall>x\<in>set nx. \<not> isunderflow c (fst x))"
  shows "\<exists>t. fst (out ! 0) = t \<and> sshape c t \<and> sleaves t = leaves_of (map fst nx)
    \<and> st_innernodes m' + sum_list (map ninner (map fst nx)) = st_innernodes m + ninner t
    \<and> (\<forall>as. dll m' as = dll m as)"
  using assms
proof (induction c l m nx arbitrary: m' out rule: bulk_levels.induct)
  case (1 c l m nx)
  show ?case
  proof (cases "length nx \<le> 1")
    case True
    with "1.prems"(3) obtain x where x: "nx = [x]" by (cases nx) auto
    then have "out = [x]" "m' = m" using "1.prems"(1) by (simp_all add: bulk_levels.simps [of c l m "[x]"])
    with x "1.prems"(2) show ?thesis by (simp add: level_ok_def)
  next
    case False
    define P where "P = (length nx + (innerslotmax c + 1) - 1) div (innerslotmax c + 1)"
    obtain m1 out1 where r1: "bulk_level l P m nx = (m1, out1)" by force
    have r2: "bulk_levels c (l + 1) m1 out1 = (m', out)"
      using "1.prems"(1)
      by (simp only: bulk_levels.simps [of c l m nx] False if_False P_def [symmetric] Let_def r1 prod.case)
    have nu: "\<forall>x\<in>set nx. \<not> isunderflow c (fst x)" using "1.prems"(4) False by auto
    note en = enough_nodes [OF _ _ P_def]
    have pos: "0 < length nx" using False by auto
    then have P: "0 < P" "length nx \<le> P * Suc (innerslotmax c)" using en(1,2) by simp_all
    define q where "q = (if P = 1 then length nx else (innerslotmax c + 2) div 2)"
    have q: "P * q \<le> length nx" "2 \<le> q"
    proof -
      have "8 \<le> innerslotmax c" by (simp add: innerslotmax_def)
      then show "2 \<le> q" using False by (auto simp: q_def)
      show "P * q \<le> length nx" using en(3) [OF _ pos] P(1) by (auto simp: q_def)
    qed
    note lev = bulk_level_correct [OF r1 "1.prems"(2) nu q(1) P(2) q(2)]
    have len: "length out1 = P" using bulk_level_length [of l P m nx] r1 by simp
    have "length out1 = 1 \<or> (\<forall>x\<in>set out1. \<not> isunderflow c (fst x))"
    proof (cases "P = 1")
      case False
      have "\<not> isunderflow c (fst x)" if "x \<in> set out1" for x
      proof -
        have "mininnerslots c \<le> slotuse (fst x)" "sshape c (fst x)" "slevel (fst x) = l"
          using lev that False by (auto simp: q_def mininnerslots_def level_ok_def)
        moreover have "0 < l" using "1.prems"(2,3) by (cases nx) (auto simp: level_ok_def)
        ultimately show ?thesis by (cases "fst x") auto
      qed
      then show ?thesis by blast
    qed (simp add: len)
    moreover have "out1 \<noteq> []" using len P(1) by auto
    ultimately obtain t where t: "fst (out ! 0) = t" "sshape c t" "sleaves t = leaves_of (map fst out1)"
      "st_innernodes m' + sum_list (map ninner (map fst out1)) = st_innernodes m1 + ninner t"
      "\<forall>as. dll m' as = dll m1 as"
      using "1.IH" [OF False P_def r1 [symmetric] r2] lev by auto
    with lev show ?thesis by auto
  qed
qed

section \<open>The loader\<close>

lemma last_conv_max: "d \<noteq> [] \<Longrightarrow> fst (d ! (length d - 1)) = maxkey (SLeaf a d)"
  by (simp add: maxkey_def last_conv_nth)

lemma stx_bulk_load_correct:
  assumes ok: "stx_ok c s" and empty: "m_root s = None" and xs: "skeys xs"
  shows "stx_ok c (stx_bulk_load c s xs)" and "stx_list (stx_bulk_load c s xs) = xs"
proof -
  let ?m = "m_mem s"
  have m: "dll ?m []" "st_innernodes ?m = 0" using ok empty by (auto simp: stx_ok_def)
  define L where "L = (length xs + leafslotmax c - 1) div leafslotmax c"
  obtain m1 ls where b: "bulk_leaves L ?m xs = (m1, ls)" by force
  define nx where "nx = map (\<lambda>(a, d). (SLeaf a d, fst (d ! (length d - 1)))) ls"
  define P where "P = (L + (innerslotmax c + 1) - 1) div (innerslotmax c + 1)"
  have load: "stx_bulk_load c s xs =
    (if m_headleaf m1 = m_tailleaf m1
     then s\<lparr>itemcount := length xs, m_mem := m1, m_root := (case ls of [] \<Rightarrow> None | (a, d) # _ \<Rightarrow> Some (SLeaf a d))\<rparr>
     else (case bulk_level 1 P m1 nx of (m, n) \<Rightarrow> case bulk_levels c 2 m n of (m, n) \<Rightarrow>
       s\<lparr>itemcount := length xs, m_mem := m, m_root := Some (fst (n ! 0))\<rparr>))"
    by (simp only: stx_bulk_load_def Let_def L_def [symmetric] b prod.case P_def nx_def)
  have lmax: "8 \<le> leafslotmax c" by (simp add: leafslotmax_def)
  have "stx_ok c (stx_bulk_load c s xs) \<and> stx_list (stx_bulk_load c s xs) = xs"
  proof (cases "xs = []")
    case True
    then have "L = 0" using lmax by (simp add: L_def)
    with b have r: "m1 = ?m" "ls = []" by auto
    have "m_headleaf ?m = m_tailleaf ?m" using m(1) by (simp add: dll_def)
    then have "stx_bulk_load c s xs = s\<lparr>itemcount := 0, m_mem := ?m, m_root := None\<rparr>"
      unfolding load using True r by simp
    with m True show ?thesis by (simp add: stx_ok_def stx_list_def)
  next
    case False
    note en = enough_nodes [OF _ _ L_def]
    have L: "0 < L" "length xs \<le> L * leafslotmax c" using en(1,2) False lmax by simp_all
    define q where "q = (if L = 1 then length xs else (leafslotmax c + 1) div 2)"
    have q: "L * q \<le> length xs" "0 < q" using en(3) L False lmax by (auto simp: q_def)
    have lv: "dll m1 (map fst ls)" "concat (map snd ls) = xs" "length ls = L" "st_innernodes m1 = 0"
      "\<forall>x\<in>set ls. q \<le> length (snd x) \<and> length (snd x) \<le> leafslotmax c"
      using bulk_leaves_correct [OF b m(1) q(1) L(2)] m(2) by simp_all
    have ends: "m_headleaf m1 = Some (fst (hd ls))" "m_tailleaf m1 = Some (fst (last ls))" "distinct (map fst ls)"
      using lv(1,3) L(1) by (auto simp: dll_def hd_map last_map)
    show ?thesis
    proof (cases "L = 1")
      case True
      with lv(3) obtain x where x: "ls = [x]" by (auto simp: length_Suc_conv)
      obtain a where a: "x = (a, xs)" using lv(2) x by (cases x) auto
      have "stx_bulk_load c s xs = s\<lparr>itemcount := length xs, m_mem := m1, m_root := Some (SLeaf a xs)\<rparr>"
        using ends x a by (simp add: load)
      with lv x a False xs show ?thesis by (auto simp: stx_ok_def stx_list_def)
    next
      case many: False
      have ne: "m_headleaf m1 \<noteq> m_tailleaf m1"
      proof -
        obtain x y zs where "ls = x # y # zs" using lv(3) L(1) many
          by (metis One_nat_def length_0_conv length_Suc_conv list.size(3) neq0_conv neq_Nil_conv)
        moreover have "last (y # zs) \<in> set (y # zs)" by (rule last_in_set) simp
        ultimately have "fst (hd ls) \<noteq> fst (last ls)" using ends(3) by auto
        then show ?thesis using ends(1,2) by simp
      qed
      have nx: "level_ok c 1 nx" "\<forall>x\<in>set nx. \<not> isunderflow c (fst x)" "length nx = L" "leaves_of (map fst nx) = ls"
        "sum_list (map ninner (map fst nx)) = 0"
      proof -
        have sz: "d \<noteq> []" "minleafslots c \<le> length d" "length d \<le> leafslotmax c" if "(a, d) \<in> set ls" for a d
          using lv(5) that q(2) many by (auto simp: q_def minleafslots_def)
        then show "level_ok c 1 nx" unfolding level_ok_def nx_def by (auto simp: last_conv_max [unfolded One_nat_def])
        show "\<forall>x\<in>set nx. \<not> isunderflow c (fst x)" using sz by (fastforce simp: nx_def)
        show "length nx = L" by (simp add: nx_def lv(3))
        show "leaves_of (map fst nx) = ls" "sum_list (map ninner (map fst nx)) = 0"
          unfolding nx_def by (induction ls) auto
      qed
      obtain m2 n2 where r2: "bulk_level 1 P m1 nx = (m2, n2)" by force
      obtain m3 n3 where r3: "bulk_levels c 2 m2 n2 = (m3, n3)" by force
      have "bulk_levels c 1 m1 nx = (m3, n3)"
      proof -
        have "\<not> L \<le> 1" using L(1) many by simp
        then show ?thesis
          by (simp only: bulk_levels.simps [of c 1 m1 nx] nx(3) if_False Let_def P_def [symmetric] r2 prod.case
              one_add_one r3)
      qed
      moreover have "nx \<noteq> []" using nx(3) L(1) by auto
      ultimately obtain t where
        t: "fst (n3 ! 0) = t" "sshape c t" "sleaves t = ls" "st_innernodes m3 = ninner t" "dll m3 (map fst ls)"
        using bulk_levels_correct [OF _ nx(1), of m1 m3 n3] nx(2) lv(1) unfolding nx(4,5) lv(4) add_0 add_0_right by blast
      have "stx_bulk_load c s xs = s\<lparr>itemcount := length xs, m_mem := m3, m_root := Some t\<rparr>"
        using ne r2 r3 t(1) by (simp add: load)
      moreover have "sentries t = xs" by (simp add: sentries_leaves t(3) lv(2))
      ultimately show ?thesis using t xs by (simp add: stx_ok_def stx_list_def)
    qed
  qed
  then show "stx_ok c (stx_bulk_load c s xs)" and "stx_list (stx_bulk_load c s xs) = xs" by blast+
qed

end
