(* ===== verification/STX_Verify.thy ===== *)
theory STX_Verify
  imports STX_Bulk
begin

text \<open>
  The self-check \<open>verify\<close> of the STX B+-tree accepts every tree with the invariant, so it accepts
  every tree that insertions and the bulk loader build.
\<close>

section \<open>Verification of a node\<close>

lemma slots_ordered_sorted: "sorted_wrt (<) ks \<Longrightarrow> slots_ordered ks"
  unfolding slots_ordered_def by (auto simp: less_imp_le sorted_wrt_nth_less [of "(<)" ks])

lemma dll_neighbours:
  assumes "dll m (us @ a # b # vs)"
  shows "nextleaf m a = Some b" "prevleaf m b = Some a"
  using assms by (auto simp: dll_def seg_append)

lemma sleaves_child_ends:
  assumes "sshape c (SInner l ks cs)"
  shows "lastchild (SInner l ks cs) = last cs" "firstchild (SInner l ks cs) = hd cs" "cs \<noteq> []"
proof -
  have len: "length cs = Suc (length ks)" using assms unfolding sshape.simps by blast
  then show ne: "cs \<noteq> []" by auto
  show "lastchild (SInner l ks cs) = last cs" using len ne by (simp add: last_conv_nth)
  show "firstchild (SInner l ks cs) = hd cs" using ne by (simp add: hd_conv_nth)
qed

lemma leaf_of_level:
  assumes "sshape c n" "slevel n = 0"
  obtains a d where "n = SLeaf a d"
  using assms by (cases n) (auto dest: sshape_level)

lemma leaf_linked_dll:
  "dll m (us @ saddrs (SLeaf a d) @ saddrs (SLeaf b e) @ vs) \<Longrightarrow> leaf_linked m (SLeaf a d) (SLeaf b e)"
  using dll_neighbours [of m us a b vs] by (simp add: leaf_linked_def)

lemma verify_links_dll:
  assumes n: "sshape c n" "Suc (slevel n) = l" and n': "sshape c n'" "Suc (slevel n') = l"
    and d: "dll m (us @ saddrs n @ saddrs n' @ vs)"
  shows "verify_links m l n n'"
proof -
  have "leaf_linked m n n'" if "l = 1"
  proof -
    have "slevel n = 0" "slevel n' = 0" using n n' that by simp_all
    with n(1) n'(1) obtain a d b e where "n = SLeaf a d" "n' = SLeaf b e"
      by (elim leaf_of_level)
    with d show ?thesis using leaf_linked_dll by blast
  qed
  moreover have "leaf_linked m (lastchild n) (firstchild n')" if l2: "l = 2"
  proof -
    obtain l1 ks cs where i: "n = SInner l1 ks cs" using n l2 by (cases n) auto
    obtain l2 ks' cs' where i': "n' = SInner l2 ks' cs'" using n' l2 by (cases n') auto
    note e = sleaves_child_ends [of c l1 ks cs] and e' = sleaves_child_ends [of c l2 ks' cs']
    have ne: "cs \<noteq> []" "cs' \<noteq> []" using e(3) e'(3) n(1) n'(1) i i' by auto
    have mem: "last cs \<in> set cs" "hd cs' \<in> set cs'" using ne by simp_all
    have "sshape c (last cs)" "slevel (last cs) = 0" "sshape c (hd cs')" "slevel (hd cs') = 0"
      using n n' mem l2 unfolding i i' sshape.simps slevel.simps by (metis Suc_1 Suc_inject One_nat_def)+
    then obtain a d b g where lf: "last cs = SLeaf a d" "hd cs' = SLeaf b g" by (elim leaf_of_level)
    have "leaves_of cs = leaves_of (butlast cs) @ [(a, d)]"
      using ne(1) lf(1) by (cases cs rule: rev_cases) auto
    moreover have "leaves_of cs' = (b, g) # leaves_of (tl cs')"
      using ne(2) lf(2) by (cases cs') auto
    ultimately have "dll m ((us @ map fst (leaves_of (butlast cs))) @ a # b # (map fst (leaves_of (tl cs')) @ vs))"
      using d i i' by simp
    from dll_neighbours [OF this] show ?thesis
      using e(1) e'(2) n(1) n'(1) lf unfolding i i' by (simp add: leaf_linked_def)
  qed
  ultimately show ?thesis by (simp add: verify_links_def)
qed

lemma concat_sorted_hd:
  assumes "skeys (concat (map sentries (n # ns)))" "sentries n \<noteq> []" "sentries (hd ns) \<noteq> []" "ns \<noteq> []"
  shows "maxkey n \<le> fst (hd (sentries (hd ns)))"
proof -
  have "hd (sentries (hd ns)) \<in> set (concat (map sentries ns))" using assms(3,4) by (cases ns) auto
  moreover have "last (sentries n) \<in> set (sentries n)" using assms(2) by simp
  moreover have "\<forall>x\<in>set (sentries n). \<forall>y\<in>set (concat (map sentries ns)). fst x < fst y"
    using assms(1) unfolding list.map concat.simps skeys_append by blast
  ultimately have "fst (last (sentries n)) < fst (hd (sentries (hd ns)))" by blast
  then show ?thesis by (simp add: maxkey_def)
qed

lemma maxkeys_sorted:
  "skeys (concat (map sentries cs)) \<Longrightarrow> \<forall>n\<in>set cs. sentries n \<noteq> [] \<Longrightarrow> sorted_wrt (<) (map maxkey cs)"
proof (induction cs)
  case (Cons n ns)
  have "maxkey n < maxkey x" if "x \<in> set ns" for x
  proof -
    have "last (sentries n) \<in> set (sentries n)" "last (sentries x) \<in> set (sentries x)"
      using Cons.prems(2) that by simp_all
    moreover from this that have "last (sentries x) \<in> set (concat (map sentries ns))" by auto
    moreover have "\<forall>x\<in>set (sentries n). \<forall>y\<in>set (concat (map sentries ns)). fst x < fst y"
      using Cons.prems(1) unfolding list.map concat.simps skeys_append by blast
    ultimately show ?thesis unfolding maxkey_def by blast
  qed
  with Cons show ?case by (simp add: sorted_wrt_append)
qed simp

lemma sorted_wrt_butlast: "sorted_wrt P xs \<Longrightarrow> sorted_wrt P (butlast xs)"
  by (cases xs rule: rev_cases) (auto simp: sorted_wrt_append)

lemma verify_all_ok:
  fixes n :: "('k::linorder, 'v) snode" and cs :: "('k, 'v) snode list" and prevkey :: "'k option"
  shows verify_node_ok:
  "sshape c n \<Longrightarrow> skeys (sentries n) \<Longrightarrow> isroot \<or> \<not> isunderflow c n \<Longrightarrow> dll m (us @ saddrs n @ vs) \<Longrightarrow>
   verify_node c m isroot n =
     Some (fst (hd (sentries n)), maxkey n, length (sentries n), length (sleaves n), ninner n)"
  and verify_children_ok:
  "cs \<noteq> [] \<Longrightarrow> ks = map maxkey (butlast cs) \<Longrightarrow>
   \<forall>n\<in>set cs. sshape c n \<and> Suc (slevel n) = l \<and> \<not> isunderflow c n \<Longrightarrow>
   skeys (concat (map sentries cs)) \<Longrightarrow> dll m (us @ map fst (leaves_of cs) @ vs) \<Longrightarrow>
   (\<forall>k. prevkey = Some k \<longrightarrow> k \<le> fst (hd (sentries (hd cs)))) \<Longrightarrow>
   verify_children c m l prevkey ks cs =
     Some (fst (hd (concat (map sentries cs))), maxkey (last cs), length (concat (map sentries cs)),
       length (leaves_of cs), sum_list (map ninner cs))"
proof (induction c m isroot n and c m l prevkey ks cs arbitrary: us vs and us vs
    rule: verify_node_verify_children.induct)
  case (1 c m isroot a d)
  then show ?case using last_conv_max [of d a] by (auto simp: slots_ordered_sorted hd_conv_nth)
next
  case (2 c m isroot l ks cs)
  have cs: "ks \<noteq> []" "length ks \<le> innerslotmax c" "length cs = Suc (length ks)" "ks = map maxkey (butlast cs)"
    and ch: "\<forall>n\<in>set cs. sshape c n \<and> Suc (slevel n) = l \<and> \<not> isunderflow c n"
    using "2.prems"(1) unfolding sshape.simps by blast+
  have ne: "\<forall>n\<in>set cs. sentries n \<noteq> []" "cs \<noteq> []" using ch sshape_nonempty cs(3) by auto
  have sk: "skeys (concat (map sentries cs))" using "2.prems"(2) by simp
  have "slots_ordered ks"
    unfolding cs(4) map_butlast by (intro slots_ordered_sorted sorted_wrt_butlast maxkeys_sorted sk ne(1))
  then have ok: "(isroot \<or> \<not> isunderflow c (SInner l ks cs)) \<and> 0 < length ks \<and> slots_ordered ks"
    using "2.prems"(3) cs(1) by blast
  have "dll m (us @ map fst (leaves_of cs) @ vs)" using "2.prems"(4) by simp
  from "2.IH" [OF ok ne(2) cs(4) ch sk this]
  have "verify_children c m l None ks cs = Some (fst (hd (concat (map sentries cs))), maxkey (last cs),
      length (concat (map sentries cs)), length (leaves_of cs), sum_list (map ninner cs))" by simp
  moreover have "maxkey (SInner l ks cs) = maxkey (last cs)" using ne by (simp add: maxkey_inner)
  ultimately show ?case using ok by simp
next
  case (3 c m l prevkey ks)
  then show ?case by simp
next
  case (4 c m l prevkey ks n ns)
  have n: "sshape c n" "Suc (slevel n) = l" "\<not> isunderflow c n"
    and ns: "\<forall>n\<in>set ns. sshape c n \<and> Suc (slevel n) = l \<and> \<not> isunderflow c n"
    using "4.prems"(3) by auto
  have ne: "sentries n \<noteq> []" using n(1) by (rule sshape_nonempty)
  have sk: "skeys (sentries n)" "skeys (concat (map sentries ns))"
    using "4.prems"(4) by (auto simp: sorted_wrt_append)
  have d: "dll m (us @ saddrs n @ (map fst (leaves_of ns) @ vs))" "dll m ((us @ saddrs n) @ map fst (leaves_of ns) @ vs)"
    using "4.prems"(5) by simp_all
  have vn: "verify_node c m False n =
      Some (fst (hd (sentries n)), maxkey n, length (sentries n), length (sleaves n), ninner n)"
    by (rule "4.IH"(1) [OF _ n(1) sk(1) _ d(1)]) (use n in simp_all)
  have pk: "case prevkey of None \<Rightarrow> True | Some k \<Rightarrow> key_greaterequal (fst (hd (sentries n))) k"
    using "4.prems"(6) by (simp split: option.split)
  show ?case
  proof (cases "ns = []")
    case True
    then have "ks = []" using "4.prems"(2) by simp
    with True n vn pk show ?thesis by simp
  next
    case False
    then obtain n' ns' where ns': "ns = n' # ns'" by (cases ns) auto
    have ks: "ks = maxkey n # map maxkey (butlast ns)" using "4.prems"(2) False by simp
    have n': "sshape c n'" "Suc (slevel n') = l" using ns ns' by auto
    have "verify_links m l n n'"
      by (rule verify_links_dll [OF n(1,2) n', of _ us "map fst (leaves_of ns') @ vs"]) (use d(1) ns' in simp)
    then have cond: "key_equal (maxkey n) (maxkey n) \<and> ns \<noteq> [] \<and> verify_links m l n (hd ns)"
      using False ns' by simp
    have "\<forall>k. Some (maxkey n) = Some k \<longrightarrow> k \<le> fst (hd (sentries (hd ns)))"
      using concat_sorted_hd [OF "4.prems"(4) ne _ False] sshape_nonempty n'(1) ns' by auto
    from "4.IH"(2) [OF _ vn refl refl refl refl pk ks cond False refl ns sk(2) d(2) this] n(2)
    have "verify_children c m l (Some (maxkey n)) (map maxkey (butlast ns)) ns =
        Some (fst (hd (concat (map sentries ns))), maxkey (last ns), length (concat (map sentries ns)),
          length (leaves_of ns), sum_list (map ninner ns))" by simp
    with n vn pk ks cond ne False show ?thesis by (simp add: hd_append)
  qed
qed

section \<open>Verification of the chain\<close>

lemma verify_chain_ok:
  assumes ok: "stx_ok c s" and r: "m_root s = Some r"
  shows "sleaves r = xs @ (a, d) # ys \<Longrightarrow>
    verify_chain (Suc (length ys)) s (Some a) = Some (length (concat (map snd ((a, d) # ys))))"
proof (induction ys arbitrary: xs a d)
  case Nil
  have d: "leaf_at s a = Some d" "d \<noteq> []" "nextleaf (m_mem s) a = None" "m_tailleaf (m_mem s) = Some a"
    using leaf_at_mem [OF ok r, of a d] leaves_filled [of c r a d] chain_at [OF ok r Nil] Nil ok r
    by (auto simp: stx_ok_def)
  have "skeys d" using ok r Nil by (auto simp: stx_ok_def sentries_leaves sorted_wrt_append)
  with d show ?case by (simp add: slots_ordered_sorted)
next
  case (Cons y ys)
  obtain b e where y: "y = (b, e)" by (cases y)
  have l: "sleaves r = (xs @ [(a, d)]) @ (b, e) # ys" using Cons.prems y by simp
  have d: "leaf_at s a = Some d" "d \<noteq> []" "nextleaf (m_mem s) a = Some b" "leaf_at s b = Some e" "e \<noteq> []"
    "prevleaf (m_mem s) b = Some a"
    using leaf_at_mem [OF ok r] leaves_filled [of c r] chain_at(1) [OF ok r Cons.prems] chain_at(2) [OF ok r l]
      Cons.prems y ok r by (auto simp: stx_ok_def)
  have s: "skeys (concat (map snd xs) @ d @ e @ concat (map snd ys))"
    using ok r Cons.prems y by (simp add: stx_ok_def sentries_leaves)
  then have "skeys d" "\<forall>x\<in>set d. \<forall>z\<in>set e. fst x < fst z" by (auto simp: sorted_wrt_append)
  moreover have "d ! (length d - 1) \<in> set d" "e ! 0 \<in> set e" using d(2,5) by simp_all
  ultimately have "slots_ordered (map fst d)" "fst (d ! (length d - 1)) \<le> fst (e ! 0)"
    by (auto intro: slots_ordered_sorted less_imp_le)
  with d Cons.IH [OF l] y show ?case by simp
qed

lemma verify_ok:
  assumes ok: "stx_ok c s"
  shows "verify c s"
proof (cases "m_root s")
  case (Some r)
  have r: "sshape c r" "skeys (sentries r)" "dll (m_mem s) ([] @ saddrs r @ [])" "st_innernodes (m_mem s) = ninner r"
    "itemcount s = length (sentries r)" using ok Some by (auto simp: stx_ok_def stx_list_def)
  obtain a d ys where l: "sleaves r = [] @ (a, d) # ys"
    using sleaves_nonempty [OF r(1)] by (cases "sleaves r") auto
  have "m_headleaf (m_mem s) = Some a" "prevleaf (m_mem s) a = None" "st_leaves (m_mem s) = Suc (length ys)"
    using chain_at(2,3) [OF ok Some l] l r(3) by (auto simp: dll_def)
  moreover have "verify_chain (Suc (length ys)) s (Some a) = Some (length (sentries r))"
    using verify_chain_ok [OF ok Some l] l by (simp add: sentries_leaves)
  ultimately have "verify_leaflinks s" using r(5) by (simp only: verify_leaflinks_def option.case stx_size_def simp_thms)
  moreover have "st_leaves (m_mem s) = length (sleaves r)" using r(3) by (simp add: dll_def)
  ultimately show ?thesis
    using verify_node_ok [OF r(1,2) _ r(3), of True] r(4,5) Some by (simp add: verify_def)
qed (simp add: verify_def)

end
