(* ===== verification/STX_Copy.thy ===== *)
theory STX_Copy
  imports STX_Verify
begin

text \<open>
  Clearing and copying an STX B+-tree: clearing frees as many nodes as the statistics count, and
  a copy has the entries and the shape of the original on leaves of its own, linked in order.
\<close>

section \<open>Clearing\<close>

lemma free_node_count:
  "st_leaves (free_node n m) = (case n of SLeaf a d \<Rightarrow> st_leaves m - 1 | _ \<Rightarrow> st_leaves m)"
  "st_innernodes (free_node n m) = (case n of SLeaf a d \<Rightarrow> st_innernodes m | _ \<Rightarrow> st_innernodes m - 1)"
  by (auto simp: free_node_def split: snode.split)

lemma clear_free_count:
  "st_leaves (free_node n (clear_recursive n m)) = st_leaves m - length (sleaves n)"
  "st_innernodes (free_node n (clear_recursive n m)) = st_innernodes m - ninner n"
proof (induction n arbitrary: m)
  case (SLeaf a d)
  {
    case 1
    show ?case by (simp add: free_node_def)
  next
    case 2
    show ?case by (simp add: free_node_def)
  }
next
  case (SInner l ks cs)
  have "st_leaves (fold (\<lambda>n m. free_node n (clear_recursive n m)) ns m) = st_leaves m - length (leaves_of ns) \<and>
    st_innernodes (fold (\<lambda>n m. free_node n (clear_recursive n m)) ns m) = st_innernodes m - sum_list (map ninner ns)"
    if "set ns \<subseteq> set cs" for ns m
    using that SInner.IH by (induction ns arbitrary: m) auto
  from this [of cs] have f: "st_leaves (clear_recursive (SInner l ks cs) m) = st_leaves m - length (leaves_of cs)"
    "st_innernodes (clear_recursive (SInner l ks cs) m) = st_innernodes m - sum_list (map ninner cs)" for m by auto
  {
    case 1
    show ?case using f by (simp add: free_node_count)
  next
    case 2
    show ?case using f by (simp add: free_node_count)
  }
qed

lemma clear_correct:
  assumes "stx_ok c s"
  shows "stx_ok c (clear s)" "stx_list (clear s) = []"
  using assms by (auto simp: clear_def stx_ok_def stx_list_def dll_def Let_def split: option.split)

section \<open>Copying\<close>

lemma dll_copy_leaf:
  assumes "dll m as"
  shows "\<exists>b m'. copy_recursive (SLeaf a d) m = (SLeaf b d, m') \<and> dll m' (as @ [b]) \<and> st_innernodes m' = st_innernodes m"
proof -
  let ?b = "s_fresh m"
  obtain m' where m': "copy_recursive (SLeaf a d) m = (SLeaf ?b d, m')"
    by (simp add: allocate_leaf_def Let_def)
  have ends: "m_headleaf m = None \<longleftrightarrow> as = []" "m_tailleaf m = None \<longleftrightarrow> as = []"
    using assms by (auto simp: dll_def)
  then have "m' = bulk_link ?b (fst (allocate_leaf m))" using m'
    by (cases "m_headleaf m"; cases "m_tailleaf m")
      (auto simp: allocate_leaf_def bulk_link_def Let_def fun_upd_twist)
  with dll_bulk_link [OF assms] m' show ?thesis by (auto simp: bulk_link_sel)
qed

text \<open>Nodes that differ in the addresses of their leaves only.\<close>

definition same_node :: "('k, 'v) snode \<Rightarrow> ('k, 'v) snode \<Rightarrow> bool" where
  "same_node n n' \<longleftrightarrow> slevel n' = slevel n \<and> sentries n' = sentries n \<and> ninner n' = ninner n
     \<and> length (sleaves n') = length (sleaves n)
     \<and> (\<forall>c. (isunderflow c n' \<longleftrightarrow> isunderflow c n) \<and> (sshape c n \<longrightarrow> sshape c n'))"

lemma same_node_inner:
  assumes "list_all2 same_node cs cs'"
  shows "same_node (SInner l ks cs) (SInner l ks cs')"
proof -
  have eqs: "map sentries cs' = map sentries cs" "map ninner cs' = map ninner cs" "map maxkey cs' = map maxkey cs"
    "map (\<lambda>n. length (sleaves n)) cs' = map (\<lambda>n. length (sleaves n)) cs"
    "length cs' = length cs"
    using assms by (induction rule: list_all2_induct) (auto simp: same_node_def maxkey_def)
  have "sshape c (SInner l ks cs')" if s: "sshape c (SInner l ks cs)" for c
  proof (rule sshape_innerI)
    show "ks = map maxkey (butlast cs')"
      using s eqs(3) unfolding sshape.simps by (metis map_butlast)
    have "\<forall>n\<in>set cs. sshape c n \<and> Suc (slevel n) = l \<and> \<not> isunderflow c n"
      using s unfolding sshape.simps by blast
    with assms show "\<forall>n\<in>set cs'. sshape c n \<and> Suc (slevel n) = l \<and> \<not> isunderflow c n"
      by (induction rule: list_all2_induct) (auto simp: same_node_def)
    show "ks \<noteq> []" "length ks \<le> innerslotmax c" "length cs' = Suc (length ks)"
      using s unfolding sshape.simps eqs(5) by blast+
  qed
  moreover have "length (leaves_of cs') = length (leaves_of cs)"
    using eqs(4) by (simp add: length_concat comp_def)
  ultimately show ?thesis using eqs(1,2) by (simp add: same_node_def)
qed

lemma copy_all_ok:
  fixes n n' :: "('k, 'v) snode" and ns ns' :: "('k, 'v) snode list"
  shows copy_recursive_ok: "dll m as \<Longrightarrow> copy_recursive n m = (n', m') \<Longrightarrow>
    same_node n n' \<and> dll m' (as @ saddrs n') \<and> st_innernodes m' = st_innernodes m + ninner n"
  and copy_children_ok: "dll m as \<Longrightarrow> copy_children ns m = (ns', m') \<Longrightarrow>
    list_all2 same_node ns ns' \<and> dll m' (as @ map fst (leaves_of ns'))
    \<and> st_innernodes m' = st_innernodes m + sum_list (map ninner ns)"
proof (induction n m and ns m arbitrary: as n' m' and as ns' m' rule: copy_recursive_copy_children.induct)
  case (1 a d m)
  from dll_copy_leaf [OF "1.prems"(1), of a d] "1.prems"(2) show ?case by (auto simp: same_node_def)
next
  case (2 l ks cs m)
  obtain cs' m1 where r: "copy_children cs (allocate_inner m) = (cs', m1)" by force
  with "2.prems"(2) have n': "n' = SInner l ks cs'" "m' = m1" by (simp_all add: Let_def)
  have "dll (allocate_inner m) as" using "2.prems"(1) by simp
  from "2.IH" [OF refl this r] n' same_node_inner show ?case by auto
next
  case (3 m)
  then show ?case by simp
next
  case (4 n ns m)
  obtain n1 m1 where r1: "copy_recursive n m = (n1, m1)" by force
  obtain ns2 m2 where r2: "copy_children ns m1 = (ns2, m2)" by force
  have out: "ns' = n1 # ns2" "m' = m2" using "4.prems"(2) r1 r2 by (simp_all add: Let_def)
  note c1 = "4.IH"(1) [OF "4.prems"(1) r1]
  have "list_all2 same_node ns ns2 \<and> dll m2 ((as @ saddrs n1) @ map fst (leaves_of ns2))
    \<and> st_innernodes m2 = st_innernodes m1 + sum_list (map ninner ns)"
    by (rule "4.IH"(2) [OF r1 [symmetric] refl _ r2]) (use c1 in auto)
  with c1 out show ?case by simp
qed

lemma stx_assign_correct:
  assumes ok: "stx_ok c s" "stx_ok c other"
  shows "stx_ok c (stx_assign s other)" "stx_list (stx_assign s other) = stx_list other"
proof -
  have cl: "stx_ok c (clear s)" "m_root (clear s) = None"
    using clear_correct [OF ok(1)] by (auto simp: clear_def Let_def split: option.split)
  have cnt: "itemcount other = length (stx_list other)" using ok(2) by (simp add: stx_ok_def)
  have "stx_ok c (stx_assign s other) \<and> stx_list (stx_assign s other) = stx_list other"
  proof (cases "m_root other")
    case None
    then show ?thesis using cnt clear_correct [OF ok(1)]
      by (simp add: stx_assign_def stx_size_def stx_no_root)
  next
    case (Some r)
    have r: "sshape c r" "skeys (sentries r)" "dll (m_mem other) (saddrs r)" "st_innernodes (m_mem other) = ninner r"
      "stx_list other = sentries r"
      using ok(2) Some by (auto simp: stx_ok_def stx_list_def)
    define m where "m = (m_mem (clear s))\<lparr>st_leaves := 0, st_innernodes := 0\<rparr>"
    have m: "dll m []" using cl by (auto simp: stx_ok_def m_def dll_def)
    obtain r' m' where cp: "copy_recursive r m = (r', m')" by force
    note c = copy_recursive_ok [OF m cp]
    have "itemcount other \<noteq> 0" using cnt r(5) sshape_nonempty [OF r(1)] by simp
    then have eq: "stx_assign s other = \<lparr>m_root = Some r',
        m_mem = m'\<lparr>st_leaves := st_leaves (m_mem other), st_innernodes := st_innernodes (m_mem other)\<rparr>,
        itemcount = itemcount other\<rparr>"
      using cp by (simp add: stx_assign_def stx_size_def Some Let_def m_def [symmetric])
    have "dll (m'\<lparr>st_leaves := st_leaves (m_mem other), st_innernodes := st_innernodes (m_mem other)\<rparr>) (saddrs r')"
    proof -
      let ?m = "m'\<lparr>st_leaves := st_leaves (m_mem other), st_innernodes := st_innernodes (m_mem other)\<rparr>"
      have "seg ?m None (saddrs r') None = seg m' None (saddrs r') None" by (rule seg_cong) simp
      then show ?thesis using c r(3) by (auto simp: dll_def same_node_def)
    qed
    then show ?thesis using c r cnt by (simp add: eq stx_ok_def stx_list_def same_node_def)
  qed
  then show "stx_ok c (stx_assign s other)" "stx_list (stx_assign s other) = stx_list other" by blast+
qed

end
