(* ===== verification/STX_Erase.thy ===== *)
theory STX_Erase
  imports STX_BTree
begin

text \<open>
  Deletion in the STX B+-tree (\<open>erase_one\<close>, \<open>erase\<close>, \<open>erase_one_descend\<close> and the six ways to
  resolve an underflow). The descent passes down the neighbours of the current node and the nodes
  above which they hang together with it. All the latter lie on one path, so a pointer to such a
  node is modelled by its level, and comparing pointers is comparing levels. A step that would
  rearrange a neighbour that is not a child of the same parent violates the assertions of the
  code (\<open>parent->childid[parentslot] == left\<close>); the model returns \<open>None\<close> there.
\<close>

section \<open>Results\<close>

text \<open>
  \<open>result_t\<close>: the flags \<open>btree_not_found\<close> and \<open>btree_fixmerge\<close>, and \<open>lastkey\<close>, which is there exactly
  if \<open>btree_update_lastkey\<close> is set.
\<close>

record 'k sresult =
  r_not_found :: bool
  r_lastkey :: "'k option"
  r_fixmerge :: bool

definition btree_ok :: "'k sresult" where
  "btree_ok = \<lparr>r_not_found = False, r_lastkey = None, r_fixmerge = False\<rparr>"

definition btree_not_found :: "'k sresult" where
  "btree_not_found = btree_ok\<lparr>r_not_found := True\<rparr>"

definition btree_update_lastkey :: "'k \<Rightarrow> 'k sresult" where
  "btree_update_lastkey k = btree_ok\<lparr>r_lastkey := Some k\<rparr>"

definition btree_fixmerge :: "'k sresult" where
  "btree_fixmerge = btree_ok\<lparr>r_fixmerge := True\<rparr>"

definition res_or :: "'k sresult \<Rightarrow> 'k sresult \<Rightarrow> 'k sresult" where
  "res_or r other = \<lparr>r_not_found = (r_not_found r \<or> r_not_found other),
     r_lastkey = (case r_lastkey other of Some k \<Rightarrow> Some k | None \<Rightarrow> r_lastkey r),
     r_fixmerge = (r_fixmerge r \<or> r_fixmerge other)\<rparr>"

section \<open>Merging and shifting\<close>

text \<open>\<open>a\<close> and \<open>b\<close> are the addresses of the left and the right leaf.\<close>

definition merge_leaves :: "smem \<Rightarrow> nat \<Rightarrow> ('k, 'v) kvs \<Rightarrow> nat \<Rightarrow> ('k, 'v) kvs \<Rightarrow>
    smem \<times> ('k, 'v) kvs \<times> ('k, 'v) kvs \<times> 'k sresult" where
  "merge_leaves m a left b right = (let
     m = m\<lparr>nextleaf := (nextleaf m)(a := nextleaf m b)\<rparr>;
     m = (case nextleaf m a of
            Some x \<Rightarrow> m\<lparr>prevleaf := (prevleaf m)(x := Some a)\<rparr>
          | None \<Rightarrow> m\<lparr>m_tailleaf := Some a\<rparr>)
   in (m, left @ right, [], btree_fixmerge))"

text \<open>An inner node is given by its keys and children, the parent by its keys.\<close>

type_synonym ('k, 'v) sarr = "'k list \<times> ('k, 'v) snode list"

definition merge_inner :: "('k, 'v) sarr \<Rightarrow> ('k, 'v) sarr \<Rightarrow> 'k list \<Rightarrow> nat \<Rightarrow>
    ('k, 'v) sarr \<times> ('k, 'v) sarr \<times> 'k sresult" where
  "merge_inner left right parent parentslot =
     ((fst left @ parent ! parentslot # fst right, snd left @ snd right), ([], take 1 (snd right)), btree_fixmerge)"

definition shift_left_leaf :: "('k, 'v) kvs \<Rightarrow> ('k, 'v) kvs \<Rightarrow> 'k list \<Rightarrow> nat \<Rightarrow>
    ('k, 'v) kvs \<times> ('k, 'v) kvs \<times> 'k list \<times> 'k sresult" where
  "shift_left_leaf left right parent parentslot = (let
     shiftnum = (length right - length left) div 2;
     left = left @ take shiftnum right;
     right = drop shiftnum right;
     key = fst (left ! (length left - 1))
   in if parentslot < length parent then (left, right, parent[parentslot := key], btree_ok)
      else (left, right, parent, btree_update_lastkey key))"

definition shift_left_inner :: "('k, 'v) sarr \<Rightarrow> ('k, 'v) sarr \<Rightarrow> 'k list \<Rightarrow> nat \<Rightarrow>
    ('k, 'v) sarr \<times> ('k, 'v) sarr \<times> 'k list" where
  "shift_left_inner left right parent parentslot = (let
     shiftnum = (length (fst right) - length (fst left)) div 2
   in ((fst left @ parent ! parentslot # take (shiftnum - 1) (fst right), snd left @ take shiftnum (snd right)),
       (drop shiftnum (fst right), drop shiftnum (snd right)),
       parent[parentslot := fst right ! (shiftnum - 1)]))"

definition shift_right_leaf :: "('k, 'v) kvs \<Rightarrow> ('k, 'v) kvs \<Rightarrow> 'k list \<Rightarrow> nat \<Rightarrow>
    ('k, 'v) kvs \<times> ('k, 'v) kvs \<times> 'k list" where
  "shift_right_leaf left right parent parentslot = (let
     shiftnum = (length left - length right) div 2;
     right = drop (length left - shiftnum) left @ right;
     left = take (length left - shiftnum) left
   in (left, right, parent[parentslot := fst (left ! (length left - 1))]))"

definition shift_right_inner :: "('k, 'v) sarr \<Rightarrow> ('k, 'v) sarr \<Rightarrow> 'k list \<Rightarrow> nat \<Rightarrow>
    ('k, 'v) sarr \<times> ('k, 'v) sarr \<times> 'k list" where
  "shift_right_inner left right parent parentslot = (let
     shiftnum = (length (fst left) - length (fst right)) div 2;
     n = length (fst left)
   in ((take (n - shiftnum) (fst left), take (n - shiftnum + 1) (snd left)),
       (drop (n - shiftnum + 1) (fst left) @ parent ! parentslot # fst right,
        drop (n - shiftnum + 1) (snd left) @ snd right),
       parent[parentslot := fst left ! (n - shiftnum)]))"

section \<open>Resolving an underflow\<close>

text \<open>
  The choice the code makes, the same for leaves and inner nodes: from whether the neighbours
  exist and have few slots, their sizes, and the parents \<open>lp\<close>, \<open>rp\<close> and \<open>p\<close>.
\<close>

datatype repair = FRoot | FMergeLeft | FMergeRight | FShiftLeft | FShiftRight

definition choose_fix :: "scfg \<Rightarrow> ('k, 'v) snode option \<Rightarrow> ('k, 'v) snode option \<Rightarrow>
    nat option \<Rightarrow> nat option \<Rightarrow> nat option \<Rightarrow> repair" where
  "choose_fix c left right lp rp p = (let
     lfew = map_option (isfew c) left;
     rfew = map_option (isfew c) right
   in if left = None \<and> right = None then FRoot
      else if (left = None \<or> lfew = Some True) \<and> (right = None \<or> rfew = Some True)
      then (if lp = p then FMergeLeft else FMergeRight)
      else if lfew = Some True \<and> rfew = Some False
      then (if rp = p then FShiftLeft else FMergeLeft)
      else if lfew = Some False \<and> rfew = Some True
      then (if lp = p then FShiftRight else FMergeRight)
      else if lp = rp
      then (if slotuse (the left) \<le> slotuse (the right) then FShiftLeft else FShiftRight)
      else (if lp = p then FShiftRight else FShiftLeft))"

text \<open>
  The nodes of a frame after a step: the neighbours, the current node (\<open>None\<close> if it was the root
  and was freed), the keys of the parent, the members and the result.
\<close>

record ('k, 'v) sframe =
  f_left :: "('k, 'v) snode option"
  f_curr :: "('k, 'v) snode option"
  f_right :: "('k, 'v) snode option"
  f_keys :: "'k list"
  f_mem :: smem
  f_res :: "'k sresult"

definition fix_leaf :: "scfg \<Rightarrow> nat option \<Rightarrow> nat option \<Rightarrow> nat option \<Rightarrow> nat \<Rightarrow> ('k, 'v) sframe \<Rightarrow>
    ('k, 'v) sframe option" where
  "fix_leaf c lp rp p ps f =
     (case choose_fix c (f_left f) (f_right f) lp rp p of
        FRoot \<Rightarrow>
          (if p = None then Some (f\<lparr>f_curr := None, f_res := btree_ok,
             f_mem := (free_node (the (f_curr f)) (f_mem f))\<lparr>m_headleaf := None, m_tailleaf := None\<rparr>\<rparr>)
           else None)
      | FMergeLeft \<Rightarrow>
          (case (f_left f, f_curr f) of
             (Some (SLeaf a d), Some (SLeaf b e)) \<Rightarrow>
               if lp = p then (case merge_leaves (f_mem f) a d b e of (m, d, e, r) \<Rightarrow>
                 Some (f\<lparr>f_left := Some (SLeaf a d), f_curr := Some (SLeaf b e), f_mem := m,
                         f_res := res_or (f_res f) r\<rparr>))
               else None
           | _ \<Rightarrow> None)
      | FMergeRight \<Rightarrow>
          (case (f_curr f, f_right f) of
             (Some (SLeaf a d), Some (SLeaf b e)) \<Rightarrow>
               if rp = p then (case merge_leaves (f_mem f) a d b e of (m, d, e, r) \<Rightarrow>
                 Some (f\<lparr>f_curr := Some (SLeaf a d), f_right := Some (SLeaf b e), f_mem := m,
                         f_res := res_or (f_res f) r\<rparr>))
               else None
           | _ \<Rightarrow> None)
      | FShiftLeft \<Rightarrow>
          (case (f_curr f, f_right f) of
             (Some (SLeaf a d), Some (SLeaf b e)) \<Rightarrow>
               if rp = p then (case shift_left_leaf d e (f_keys f) ps of (d, e, ks, r) \<Rightarrow>
                 Some (f\<lparr>f_curr := Some (SLeaf a d), f_right := Some (SLeaf b e), f_keys := ks,
                         f_res := res_or (f_res f) r\<rparr>))
               else None
           | _ \<Rightarrow> None)
      | FShiftRight \<Rightarrow>
          (case (f_left f, f_curr f) of
             (Some (SLeaf a d), Some (SLeaf b e)) \<Rightarrow>
               if lp = p then (case shift_right_leaf d e (f_keys f) (ps - 1) of (d, e, ks) \<Rightarrow>
                 Some (f\<lparr>f_left := Some (SLeaf a d), f_curr := Some (SLeaf b e), f_keys := ks\<rparr>))
               else None
           | _ \<Rightarrow> None))"

definition fix_inner :: "scfg \<Rightarrow> nat option \<Rightarrow> nat option \<Rightarrow> nat option \<Rightarrow> nat \<Rightarrow> ('k, 'v) sframe \<Rightarrow>
    ('k, 'v) sframe option" where
  "fix_inner c lp rp p ps f =
     (case choose_fix c (f_left f) (f_right f) lp rp p of
        FRoot \<Rightarrow>
          (case f_curr f of Some (SInner l ks cs) \<Rightarrow>
             (if p = None \<and> cs \<noteq> [] then Some (f\<lparr>f_curr := Some (cs ! 0), f_res := btree_ok,
                f_mem := free_node (SInner l ks cs) (f_mem f)\<rparr>)
              else None)
           | _ \<Rightarrow> None)
      | FMergeLeft \<Rightarrow>
          (case (f_left f, f_curr f) of
             (Some (SInner l ks cs), Some (SInner l' ks' cs')) \<Rightarrow>
               if lp = p then (case merge_inner (ks, cs) (ks', cs') (f_keys f) (ps - 1) of ((ks, cs), (ks', cs'), r) \<Rightarrow>
                 Some (f\<lparr>f_left := Some (SInner l ks cs), f_curr := Some (SInner l' ks' cs'),
                         f_res := res_or (f_res f) r\<rparr>))
               else None
           | _ \<Rightarrow> None)
      | FMergeRight \<Rightarrow>
          (case (f_curr f, f_right f) of
             (Some (SInner l ks cs), Some (SInner l' ks' cs')) \<Rightarrow>
               if rp = p then (case merge_inner (ks, cs) (ks', cs') (f_keys f) ps of ((ks, cs), (ks', cs'), r) \<Rightarrow>
                 Some (f\<lparr>f_curr := Some (SInner l ks cs), f_right := Some (SInner l' ks' cs'),
                         f_res := res_or (f_res f) r\<rparr>))
               else None
           | _ \<Rightarrow> None)
      | FShiftLeft \<Rightarrow>
          (case (f_curr f, f_right f) of
             (Some (SInner l ks cs), Some (SInner l' ks' cs')) \<Rightarrow>
               if rp = p then (case shift_left_inner (ks, cs) (ks', cs') (f_keys f) ps of ((ks, cs), (ks', cs'), pk) \<Rightarrow>
                 Some (f\<lparr>f_curr := Some (SInner l ks cs), f_right := Some (SInner l' ks' cs'), f_keys := pk\<rparr>))
               else None
           | _ \<Rightarrow> None)
      | FShiftRight \<Rightarrow>
          (case (f_left f, f_curr f) of
             (Some (SInner l ks cs), Some (SInner l' ks' cs')) \<Rightarrow>
               if lp = p then (case shift_right_inner (ks, cs) (ks', cs') (f_keys f) (ps - 1) of ((ks, cs), (ks', cs'), pk) \<Rightarrow>
                 Some (f\<lparr>f_left := Some (SInner l ks cs), f_curr := Some (SInner l' ks' cs'), f_keys := pk\<rparr>))
               else None
           | _ \<Rightarrow> None))"

section \<open>The descent\<close>

text \<open>
  The parent of the current node is given by its level and its keys, \<open>None\<close> for the root. A
  changed largest key goes into the parent's keys if the current node is not its last child.
\<close>

definition put_lastkey :: "(nat \<times> 'k list) option \<Rightarrow> nat \<Rightarrow> 'k \<Rightarrow> 'k list \<times> 'k sresult" where
  "put_lastkey parent ps k = (case parent of
     Some (l, pk) \<Rightarrow> if ps < length pk then (pk[ps := k], btree_ok) else (pk, btree_update_lastkey k)
   | None \<Rightarrow> ([], btree_update_lastkey k))"

definition pkeys :: "(nat \<times> 'k list) option \<Rightarrow> 'k list" where
  "pkeys parent = (case parent of Some (l, pk) \<Rightarrow> pk | None \<Rightarrow> [])"

definition erase_leaf :: "scfg \<Rightarrow> 'k::linorder \<Rightarrow> smem \<Rightarrow> nat \<Rightarrow> ('k, 'v) kvs \<Rightarrow>
    ('k, 'v) snode option \<Rightarrow> ('k, 'v) snode option \<Rightarrow> nat option \<Rightarrow> nat option \<Rightarrow>
    (nat \<times> 'k list) option \<Rightarrow> nat \<Rightarrow> ('k, 'v) sframe option" where
  "erase_leaf c key m a d left right lp rp parent ps = (let slot = find_lower (map fst d) key in
     if length d \<le> slot \<or> \<not> key_equal key (fst (d ! slot))
     then Some \<lparr>f_left = left, f_curr = Some (SLeaf a d), f_right = right, f_keys = pkeys parent,
                f_mem = m, f_res = btree_not_found\<rparr>
     else (let
       d = take slot d @ drop (slot + 1) d;
       (pk, res) = (if slot = length d \<and> (length d \<ge> 1 \<or> (parent \<noteq> None \<and> ps < length (pkeys parent)))
                    then put_lastkey parent ps (fst (d ! (length d - 1))) else (pkeys parent, btree_ok));
       f = \<lparr>f_left = left, f_curr = Some (SLeaf a d), f_right = right, f_keys = pk, f_mem = m, f_res = res\<rparr>
     in if isunderflow c (SLeaf a d) \<and> \<not> (parent = None \<and> length d \<ge> 1)
        then fix_leaf c lp rp (map_option fst parent) ps f else Some f))"

text \<open>
  The neighbours of the child at \<open>slot\<close>, with their parents. (To the left of the first child the
  code takes \<open>childid[slotuse - 1]\<close> of the left neighbour.)
\<close>

definition child_left :: "nat \<Rightarrow> ('k, 'v) snode list \<Rightarrow> nat \<Rightarrow> ('k, 'v) snode option \<Rightarrow> nat option \<Rightarrow>
    ('k, 'v) snode option \<times> nat option" where
  "child_left l cs slot left lp =
     (if slot = 0 then
        (case left of Some (SInner _ lks lcs) \<Rightarrow> Some (lcs ! (length lks - 1)) | _ \<Rightarrow> None, lp)
      else (Some (cs ! (slot - 1)), Some l))"

definition child_right :: "nat \<Rightarrow> 'k list \<Rightarrow> ('k, 'v) snode list \<Rightarrow> nat \<Rightarrow> ('k, 'v) snode option \<Rightarrow> nat option \<Rightarrow>
    ('k, 'v) snode option \<times> nat option" where
  "child_right l ks cs slot right rp =
     (if slot = length ks then
        (case right of Some (SInner _ rks rcs) \<Rightarrow> Some (rcs ! 0) | _ \<Rightarrow> None, rp)
      else (Some (cs ! (slot + 1)), Some l))"

text \<open>The children after the step below: the current one and the neighbours of the same parent.\<close>

definition write_back :: "'k list \<Rightarrow> ('k, 'v) snode list \<Rightarrow> nat \<Rightarrow> ('k, 'v) sframe \<Rightarrow> ('k, 'v) snode list" where
  "write_back ks cs slot f = (let
     cs = (case f_curr f of Some n \<Rightarrow> cs[slot := n] | None \<Rightarrow> cs);
     cs = (case f_left f of Some n \<Rightarrow> if slot = 0 then cs else cs[slot - 1 := n] | None \<Rightarrow> cs)
   in case f_right f of Some n \<Rightarrow> if slot = length ks then cs else cs[slot + 1 := n] | None \<Rightarrow> cs)"

text \<open>Removal of the child that a merge has emptied.\<close>

definition drop_merged :: "nat \<Rightarrow> 'k list \<Rightarrow> ('k, 'v) snode list \<Rightarrow> nat \<Rightarrow> smem \<Rightarrow>
    'k list \<times> ('k, 'v) snode list \<times> smem" where
  "drop_merged l ks cs slot m = (let
     slot = (if slotuse (cs ! slot) \<noteq> 0 then slot + 1 else slot);
     m = free_node (cs ! slot) m;
     ks = take (slot - 1) ks @ drop slot ks;
     cs = take slot cs @ drop (slot + 1) cs;
     ks = (if l = 1 then
             (case cs ! (slot - 1) of
                SLeaf a d \<Rightarrow> ks[slot - 1 := fst (d ! (length d - 1))]
              | _ \<Rightarrow> ks)
           else ks)
   in (ks, cs, m))"

function erase_one_descend :: "scfg \<Rightarrow> 'k::linorder \<Rightarrow> smem \<Rightarrow> ('k, 'v) snode \<Rightarrow>
    ('k, 'v) snode option \<Rightarrow> ('k, 'v) snode option \<Rightarrow> nat option \<Rightarrow> nat option \<Rightarrow>
    (nat \<times> 'k list) option \<Rightarrow> nat \<Rightarrow> ('k, 'v) sframe option" where
  "erase_one_descend c key m (SLeaf a d) left right lp rp parent ps =
     erase_leaf c key m a d left right lp rp parent ps"
| "erase_one_descend c key m (SInner l ks cs) left right lp rp parent ps =
     (let slot = find_lower ks key;
          (myleft, mylp) = child_left l cs slot left lp;
          (myright, myrp) = child_right l ks cs slot right rp
      in if slot < length cs then
        (case erase_one_descend c key m (cs ! slot) myleft myright mylp myrp (Some (l, ks)) slot of
           None \<Rightarrow> None
         | Some f \<Rightarrow>
             if r_not_found (f_res f) then
               Some \<lparr>f_left = left, f_curr = Some (SInner l ks cs), f_right = right, f_keys = pkeys parent,
                     f_mem = f_mem f, f_res = f_res f\<rparr>
             else (let
               cs = write_back ks cs slot f;
               ks = f_keys f;
               (pk, res) = (case r_lastkey (f_res f) of
                  Some k \<Rightarrow> put_lastkey parent ps k | None \<Rightarrow> (pkeys parent, btree_ok));
               (ks, cs, m) = (if r_fixmerge (f_res f) then drop_merged l ks cs slot (f_mem f) else (ks, cs, f_mem f));
               g = \<lparr>f_left = left, f_curr = Some (SInner l ks cs), f_right = right, f_keys = pk,
                    f_mem = m, f_res = res\<rparr>
             in if isunderflow c (SInner l ks cs) \<and> \<not> (parent = None \<and> length ks \<ge> 1)
                then fix_inner c lp rp (map_option fst parent) ps g else Some g))
      else None)"
  by pat_completeness auto
termination
  by (relation "measure (\<lambda>(c, key, m, n, _). size n)") (auto simp: less_Suc_eq_le snode_child_size)

text \<open>\<open>erase_one\<close> and \<open>erase\<close> on the tree; \<open>None\<close> is a violated assertion.\<close>

definition erase_one :: "scfg \<Rightarrow> ('k::linorder, 'v) stx \<Rightarrow> 'k \<Rightarrow> (('k, 'v) stx \<times> bool) option" where
  "erase_one c s key = (case m_root s of
     None \<Rightarrow> Some (s, False)
   | Some r \<Rightarrow> (case erase_one_descend c key (m_mem s) r None None None None None 0 of
       None \<Rightarrow> None
     | Some f \<Rightarrow> (let found = \<not> r_not_found (f_res f) in
         Some (s\<lparr>m_root := f_curr f, m_mem := f_mem f,
                 itemcount := (if found then itemcount s - 1 else itemcount s)\<rparr>, found))))"

text \<open>The loop of \<open>erase\<close>; each round removes an item, so their number bounds it.\<close>

fun erase_loop :: "nat \<Rightarrow> scfg \<Rightarrow> ('k::linorder, 'v) stx \<Rightarrow> 'k \<Rightarrow> nat \<Rightarrow> (('k, 'v) stx \<times> nat) option" where
  "erase_loop 0 c s key n = None"
| "erase_loop (Suc fuel) c s key n = (case erase_one c s key of
     None \<Rightarrow> None
   | Some (s, found) \<Rightarrow>
       if found then (if \<not> allow_duplicates c then Some (s, n + 1) else erase_loop fuel c s key (n + 1))
       else Some (s, n))"

definition erase :: "scfg \<Rightarrow> ('k::linorder, 'v) stx \<Rightarrow> 'k \<Rightarrow> (('k, 'v) stx \<times> nat) option" where
  "erase c s key = erase_loop (itemcount s + 1) c s key 0"

end
