(* ===== verification/STX_Erase_Correct.thy ===== *)
theory STX_Erase_Correct
  imports STX_Verify STX_Erase
begin

text \<open>
  Correctness of deletion in the STX B+-tree: no assertion is violated, the key and its value go
  away and nothing else, and the tree keeps its invariant, so that nodes stay at least half full,
  separators stay exact and the leaf chain loses exactly the freed leaves.
\<close>

section \<open>Families of children\<close>

definition kids :: "scfg \<Rightarrow> nat \<Rightarrow> 'k list \<Rightarrow> ('k, 'v) snode list \<Rightarrow> bool" where
  "kids c l ks cs = (length cs = Suc (length ks) \<and> ks = map maxkey (butlast cs)
     \<and> (\<forall>n\<in>set cs. sshape c n \<and> Suc (slevel n) = l \<and> \<not> isunderflow c n))"

lemma kidsI:
  "length cs = Suc (length ks) \<Longrightarrow> ks = map maxkey (butlast cs) \<Longrightarrow>
   \<forall>n\<in>set cs. sshape c n \<and> Suc (slevel n) = l \<and> \<not> isunderflow c n \<Longrightarrow> kids c l ks cs"
  by (simp only: kids_def simp_thms)

lemma kidsD:
  assumes "kids c l ks cs"
  shows "length cs = Suc (length ks)" "ks = map maxkey (butlast cs)" "cs \<noteq> []"
    "\<forall>n\<in>set cs. sshape c n \<and> Suc (slevel n) = l \<and> \<not> isunderflow c n" "\<forall>n\<in>set cs. sentries n \<noteq> []"
  using assms sshape_nonempty unfolding kids_def by (blast, blast, fastforce, blast, blast)

lemma sshape_kids:
  "sshape c (SInner l ks cs) \<longleftrightarrow> ks \<noteq> [] \<and> length ks \<le> innerslotmax c \<and> kids c l ks cs"
  unfolding kids_def sshape.simps by blast

text \<open>Two neighbours that share their entries anew.\<close>

lemma maxkey_last: "sentries A' @ sentries B' = xs @ sentries B \<Longrightarrow> sentries B \<noteq> [] \<Longrightarrow> sentries B' \<noteq> [] \<Longrightarrow>
    maxkey B' = maxkey B"
  unfolding maxkey_def by (metis last_appendR)

lemma seps_pair:
  assumes "ks = map maxkey (butlast (P @ A # B # Q))" and "maxkey B' = maxkey B"
  shows "ks[length P := maxkey A'] = map maxkey (butlast (P @ A' # B' # Q))"
  using assms by (cases Q) (simp_all add: butlast_append list_update_append)

lemma seps_merge:
  assumes "ks = map maxkey (butlast (P @ A # B # Q))" and "maxkey AB = maxkey B"
  shows "take (length P) ks @ drop (Suc (length P)) ks = map maxkey (butlast (P @ AB # Q))"
  using assms by (cases Q) (simp_all add: butlast_append)

lemma seps_at:
  assumes "ks = map maxkey (butlast (P @ A # B # Q))"
  shows "length P < length ks" "ks ! length P = maxkey A"
  using assms by (simp_all add: butlast_append nth_append)

section \<open>Shifting and merging two neighbours\<close>

lemma shift_left_leaf_ok:
  assumes A: "length d < minleafslots c" "minleafslots c \<le> Suc (length d)" and B: "minleafslots c < length e" "length e \<le> leafslotmax c"
    and ks: "ks = map maxkey (butlast (P @ SLeaf a d # SLeaf b e # Q))"
    and r: "shift_left_leaf d e ks (length P) = (d', e', ks', res)"
  shows "d' @ e' = d @ e" "sshape c (SLeaf a d')" "\<not> isunderflow c (SLeaf a d')"
    "sshape c (SLeaf b e')" "\<not> isunderflow c (SLeaf b e')" "res = btree_ok"
    "ks' = map maxkey (butlast (P @ SLeaf a d' # SLeaf b e' # Q))"
proof -
  define n where "n = (length e - length d) div 2"
  have n: "0 < n" "n < length e" "minleafslots c \<le> length d + n" "minleafslots c \<le> length e - n"
    using A B by (auto simp: n_def)
  have de: "d' = d @ take n e" "e' = drop n e" "res = btree_ok"
    "ks' = ks[length P := fst (d' ! (length d' - 1))]"
    using r seps_at(1) [OF ks] by (auto simp: shift_left_leaf_def Let_def n_def split: if_splits)
  show "d' @ e' = d @ e" "res = btree_ok" by (simp_all add: de)
  have m: "minleafslots c \<le> leafslotmax c" by (simp add: minleafslots_def)
  show "sshape c (SLeaf a d')" "\<not> isunderflow c (SLeaf a d')" "sshape c (SLeaf b e')" "\<not> isunderflow c (SLeaf b e')"
    using n A B m by (auto simp: de)
  have "e \<noteq> []" "e' \<noteq> []" "d' \<noteq> []" using n by (auto simp: de)
  then show "ks' = map maxkey (butlast (P @ SLeaf a d' # SLeaf b e' # Q))"
    unfolding de(4) using last_conv_max [of d' a] seps_pair [OF ks, of "SLeaf b e'" "SLeaf a d'"]
    by (simp add: maxkey_def de(2))
qed

lemma shift_right_leaf_ok:
  assumes B: "length e < minleafslots c" "minleafslots c \<le> Suc (length e)" and A: "minleafslots c < length d" "length d \<le> leafslotmax c"
    and ks: "ks = map maxkey (butlast (P @ SLeaf a d # SLeaf b e # Q))"
    and r: "shift_right_leaf d e ks (length P) = (d', e', ks')"
  shows "d' @ e' = d @ e" "sshape c (SLeaf a d')" "\<not> isunderflow c (SLeaf a d')"
    "sshape c (SLeaf b e')" "\<not> isunderflow c (SLeaf b e')"
    "ks' = map maxkey (butlast (P @ SLeaf a d' # SLeaf b e' # Q))"
proof -
  define n where "n = (length d - length e) div 2"
  have n: "0 < n" "n < length d" "minleafslots c \<le> length e + n" "minleafslots c \<le> length d - n"
    using A B by (auto simp: n_def)
  have de: "d' = take (length d - n) d" "e' = drop (length d - n) d @ e"
    "ks' = ks[length P := fst (d' ! (length d' - 1))]"
    using r by (auto simp: shift_right_leaf_def Let_def n_def)
  show "d' @ e' = d @ e" by (simp add: de)
  have m: "minleafslots c \<le> leafslotmax c" by (simp add: minleafslots_def)
  show "sshape c (SLeaf a d')" "\<not> isunderflow c (SLeaf a d')" "sshape c (SLeaf b e')" "\<not> isunderflow c (SLeaf b e')"
    using n A B m by (auto simp: de)
  have "4 \<le> minleafslots c" by (simp add: minleafslots_def leafslotmax_def)
  then have "e \<noteq> []" "e' \<noteq> []" "d' \<noteq> []" using n B by (auto simp: de)
  then show "ks' = map maxkey (butlast (P @ SLeaf a d' # SLeaf b e' # Q))"
    unfolding de(3) using last_conv_max [of d' a] seps_pair [OF ks, of "SLeaf b e'" "SLeaf a d'"]
    by (simp add: maxkey_def de(2))
qed

lemma inner_max: "kids c l ks cs \<Longrightarrow> maxkey (SInner l' ks' cs) = maxkey (last cs)"
  using kidsD(3,5) [of c l ks cs] by (intro maxkey_inner) auto

lemma kids_append:
  assumes "kids c l ks cs" "kids c l ks' cs'"
  shows "kids c l (ks @ maxkey (last cs) # ks') (cs @ cs')"
proof -
  note k = kidsD [OF assms(1)] and k' = kidsD [OF assms(2)]
  obtain xs x where cs: "cs = xs @ [x]" using k(3) by (cases cs rule: rev_cases) auto
  have "ks @ maxkey (last cs) # ks' = map maxkey (butlast (cs @ cs'))"
    using k(2) k'(2,3) by (simp add: cs butlast_append)
  then show ?thesis using k(1,4) k'(1,4) by (intro kidsI) (simp, assumption, auto)
qed

lemma kids_cut:
  assumes "kids c l ks cs" "n < length ks"
  shows "kids c l (take n ks) (take (Suc n) cs)" "kids c l (drop (Suc n) ks) (drop (Suc n) cs)"
    "ks ! n = maxkey (last (take (Suc n) cs))"
proof -
  note k = kidsD [OF assms(1)]
  have "take n ks = map maxkey (butlast (take (Suc n) cs))"
    using assms(2) k(1) by (subst k(2)) (simp add: take_map butlast_take take_butlast)
  moreover have "\<forall>n\<in>set (take (Suc n) cs). sshape c n \<and> Suc (slevel n) = l \<and> \<not> isunderflow c n"
    "\<forall>n\<in>set (drop (Suc n) cs). sshape c n \<and> Suc (slevel n) = l \<and> \<not> isunderflow c n"
    using k(4) by (meson in_set_takeD in_set_dropD)+
  moreover have "drop (Suc n) ks = map maxkey (butlast (drop (Suc n) cs))"
    by (subst k(2)) (simp add: drop_map drop_butlast)
  ultimately show "kids c l (take n ks) (take (Suc n) cs)" "kids c l (drop (Suc n) ks) (drop (Suc n) cs)"
    using assms(2) k(1) by (intro kidsI; simp)+
  have "ks ! n = maxkey (cs ! n)" using assms(2) by (subst k(2)) (simp add: nth_butlast k(1))
  then show "ks ! n = maxkey (last (take (Suc n) cs))"
    using assms(2) k(1) by (simp add: take_Suc_conv_app_nth)
qed

lemma shift_left_inner_ok:
  assumes A: "kids c l ks1 cs1" "length ks1 < mininnerslots c" "mininnerslots c \<le> Suc (length ks1)"
    and B: "kids c l ks2 cs2" "mininnerslots c < length ks2" "length ks2 \<le> innerslotmax c"
    and ks: "ks = map maxkey (butlast (P @ SInner l ks1 cs1 # SInner l ks2 cs2 # Q))"
    and r: "shift_left_inner (ks1, cs1) (ks2, cs2) ks (length P) = ((ks1', cs1'), (ks2', cs2'), ks')"
  shows "cs1' @ cs2' = cs1 @ cs2" "sshape c (SInner l ks1' cs1')" "\<not> isunderflow c (SInner l ks1' cs1')"
    "sshape c (SInner l ks2' cs2')" "\<not> isunderflow c (SInner l ks2' cs2')"
    "ks' = map maxkey (butlast (P @ SInner l ks1' cs1' # SInner l ks2' cs2' # Q))"
proof -
  define n where "n = (length ks2 - length ks1) div 2 - 1"
  have n: "n < length ks2" "mininnerslots c \<le> length ks1 + Suc n" "mininnerslots c \<le> length ks2 - Suc n"
    "(length ks2 - length ks1) div 2 = Suc n" using A B by (auto simp: n_def)
  have sep: "ks ! length P = maxkey (last cs1)" using seps_at(2) [OF ks] inner_max [OF A(1)] by simp
  have eq: "ks1' = ks1 @ maxkey (last cs1) # take n ks2" "cs1' = cs1 @ take (Suc n) cs2"
    "ks2' = drop (Suc n) ks2" "cs2' = drop (Suc n) cs2" "ks' = ks[length P := ks2 ! n]"
    using r by (auto simp: shift_left_inner_def Let_def n(4) sep)
  note cut = kids_cut [OF B(1) n(1)]
  have k: "kids c l ks1' cs1'" "kids c l ks2' cs2'" unfolding eq using kids_append [OF A(1) cut(1)] cut(2) by simp_all
  show "cs1' @ cs2' = cs1 @ cs2" by (simp add: eq)
  have m: "4 \<le> mininnerslots c" "2 * mininnerslots c \<le> innerslotmax c" by (auto simp: mininnerslots_def innerslotmax_def)
  show "sshape c (SInner l ks1' cs1')" "\<not> isunderflow c (SInner l ks1' cs1')"
    "sshape c (SInner l ks2' cs2')" "\<not> isunderflow c (SInner l ks2' cs2')"
    using k n A B m by (auto simp: sshape_kids eq min_def)
  have "maxkey (SInner l ks1' cs1') = ks2 ! n"
    using inner_max [OF k(1), of l ks1'] cut(3) kidsD(3) [OF cut(1)] by (simp add: eq(2))
  moreover have "maxkey (SInner l ks2' cs2') = maxkey (SInner l ks2 cs2)"
    using inner_max [OF k(2)] inner_max [OF B(1)] kidsD(3) [OF k(2)] by (simp add: eq(4) last_drop)
  ultimately show "ks' = map maxkey (butlast (P @ SInner l ks1' cs1' # SInner l ks2' cs2' # Q))"
    using seps_pair [OF ks, of "SInner l ks2' cs2'" "SInner l ks1' cs1'"] by (simp add: eq(5))
qed

lemma shift_right_inner_ok:
  assumes B: "kids c l ks2 cs2" "length ks2 < mininnerslots c" "mininnerslots c \<le> Suc (length ks2)"
    and A: "kids c l ks1 cs1" "mininnerslots c < length ks1" "length ks1 \<le> innerslotmax c"
    and ks: "ks = map maxkey (butlast (P @ SInner l ks1 cs1 # SInner l ks2 cs2 # Q))"
    and r: "shift_right_inner (ks1, cs1) (ks2, cs2) ks (length P) = ((ks1', cs1'), (ks2', cs2'), ks')"
  shows "cs1' @ cs2' = cs1 @ cs2" "sshape c (SInner l ks1' cs1')" "\<not> isunderflow c (SInner l ks1' cs1')"
    "sshape c (SInner l ks2' cs2')" "\<not> isunderflow c (SInner l ks2' cs2')"
    "ks' = map maxkey (butlast (P @ SInner l ks1' cs1' # SInner l ks2' cs2' # Q))"
proof -
  define j where "j = length ks1 - (length ks1 - length ks2) div 2"
  have j: "j < length ks1" "mininnerslots c \<le> j" "mininnerslots c \<le> length ks1 - Suc j + Suc (length ks2)"
    using A B by (auto simp: j_def)
  have sep: "ks ! length P = maxkey (last cs1)" using seps_at(2) [OF ks] inner_max [OF A(1)] by simp
  note cut = kids_cut [OF A(1) j(1)]
  have last: "last (drop (Suc j) cs1) = last cs1" using kidsD(1) [OF A(1)] j(1) by (simp add: last_drop)
  have eq: "ks1' = take j ks1" "cs1' = take (Suc j) cs1"
    "ks2' = drop (Suc j) ks1 @ maxkey (last (drop (Suc j) cs1)) # ks2" "cs2' = drop (Suc j) cs1 @ cs2"
    "ks' = ks[length P := ks1 ! j]"
    using r by (auto simp: shift_right_inner_def Let_def j_def [symmetric] sep last)
  have k: "kids c l ks1' cs1'" "kids c l ks2' cs2'" unfolding eq using kids_append [OF cut(2) B(1)] cut(1) by simp_all
  show "cs1' @ cs2' = cs1 @ cs2" by (simp add: eq)
  have m: "4 \<le> mininnerslots c" "2 * mininnerslots c \<le> innerslotmax c" by (auto simp: mininnerslots_def innerslotmax_def)
  show "sshape c (SInner l ks1' cs1')" "\<not> isunderflow c (SInner l ks1' cs1')"
    "sshape c (SInner l ks2' cs2')" "\<not> isunderflow c (SInner l ks2' cs2')"
    using k j A B m by (auto simp: sshape_kids eq min_def)
  have "maxkey (SInner l ks1' cs1') = ks1 ! j"
    using inner_max [OF k(1), of l ks1'] cut(3) by (simp add: eq(2))
  moreover have "maxkey (SInner l ks2' cs2') = maxkey (SInner l ks2 cs2)"
    using inner_max [OF k(2)] inner_max [OF B(1)] kidsD(3) [OF B(1)] by (simp add: eq(4))
  ultimately show "ks' = map maxkey (butlast (P @ SInner l ks1' cs1' # SInner l ks2' cs2' # Q))"
    using seps_pair [OF ks, of "SInner l ks2' cs2'" "SInner l ks1' cs1'"] by (simp add: eq(5))
qed

lemma merge_inner_ok:
  assumes A: "kids c l ks1 cs1" and B: "kids c l ks2 cs2"
    and len: "mininnerslots c \<le> Suc (length ks1 + length ks2)" "Suc (length ks1 + length ks2) \<le> innerslotmax c"
    and ks: "ks = map maxkey (butlast (P @ SInner l ks1 cs1 # SInner l ks2 cs2 # Q))"
    and r: "merge_inner (ks1, cs1) (ks2, cs2) ks (length P) = ((ks1', cs1'), (ks2', cs2'), res)"
  shows "cs1' = cs1 @ cs2" "ks2' = []" "res = btree_fixmerge" "sshape c (SInner l ks1' cs1')"
    "\<not> isunderflow c (SInner l ks1' cs1')" "maxkey (SInner l ks1' cs1') = maxkey (SInner l ks2 cs2)"
proof -
  have sep: "ks ! length P = maxkey (last cs1)" using seps_at(2) [OF ks] inner_max [OF A(1)] by simp
  have eq: "ks1' = ks1 @ maxkey (last cs1) # ks2" using r sep by (auto simp: merge_inner_def)
  show cs: "cs1' = cs1 @ cs2" "ks2' = []" "res = btree_fixmerge" using r by (auto simp: merge_inner_def)
  have k: "kids c l ks1' cs1'" unfolding eq cs by (rule kids_append [OF A B])
  then show "sshape c (SInner l ks1' cs1')" "\<not> isunderflow c (SInner l ks1' cs1')"
    using len by (auto simp: sshape_kids eq)
  show "maxkey (SInner l ks1' cs1') = maxkey (SInner l ks2 cs2)"
    using inner_max [OF k] inner_max [OF B] kidsD(3) [OF B] by (simp add: cs)
qed

section \<open>The members\<close>

text \<open>A step that takes the chain and the counts from one family of nodes to another.\<close>

definition mem_step :: "smem \<Rightarrow> ('k, 'v) snode list \<Rightarrow> smem \<Rightarrow> ('k, 'v) snode list \<Rightarrow> bool" where
  "mem_step m cs m' cs' =
     ((\<forall>us vs. dll m (us @ map fst (leaves_of cs) @ vs) \<longrightarrow> dll m' (us @ map fst (leaves_of cs') @ vs))
      \<and> (\<forall>X. st_innernodes m = X + sum_list (map ninner cs) \<longrightarrow> st_innernodes m' = X + sum_list (map ninner cs')))"

lemma mem_step_refl:
  "map fst (leaves_of cs) = map fst (leaves_of cs') \<Longrightarrow> sum_list (map ninner cs) = sum_list (map ninner cs') \<Longrightarrow>
   mem_step m cs m cs'"
  by (simp add: mem_step_def)

lemma mem_step_trans: "mem_step m cs m' cs' \<Longrightarrow> mem_step m' cs' m'' cs'' \<Longrightarrow> mem_step m cs m'' cs''"
  by (simp add: mem_step_def)

lemma mem_step_context:
  assumes "mem_step m cs m' cs'"
  shows "mem_step m (P @ cs @ Q) m' (P @ cs' @ Q)"
  unfolding mem_step_def
proof (intro conjI allI impI)
  fix us vs assume "dll m (us @ map fst (leaves_of (P @ cs @ Q)) @ vs)"
  then have "dll m ((us @ map fst (leaves_of P)) @ map fst (leaves_of cs) @ (map fst (leaves_of Q) @ vs))" by simp
  then have "dll m' ((us @ map fst (leaves_of P)) @ map fst (leaves_of cs') @ (map fst (leaves_of Q) @ vs))"
    using assms unfolding mem_step_def by blast
  then show "dll m' (us @ map fst (leaves_of (P @ cs' @ Q)) @ vs)" by simp
next
  fix X assume "st_innernodes m = X + sum_list (map ninner (P @ cs @ Q))"
  then have "st_innernodes m = (X + sum_list (map ninner P) + sum_list (map ninner Q)) + sum_list (map ninner cs)" by simp
  then have "st_innernodes m' = (X + sum_list (map ninner P) + sum_list (map ninner Q)) + sum_list (map ninner cs')"
    using assms unfolding mem_step_def by blast
  then show "st_innernodes m' = X + sum_list (map ninner (P @ cs' @ Q))" by simp
qed

lemma merge_leaves_sel:
  fixes m a d b e e'
  defines "m' \<equiv> free_node (SLeaf b e') (fst (merge_leaves m a d b e))"
  shows "prevleaf m' x = (if nextleaf m b = Some x then Some a else prevleaf m x)"
    and "nextleaf m' x = (if x = a then nextleaf m b else nextleaf m x)"
    and "m_headleaf m' = m_headleaf m" and "m_tailleaf m' = (if nextleaf m b = None then Some a else m_tailleaf m)"
    and "st_leaves m' = st_leaves m - 1" and "st_innernodes m' = st_innernodes m" and "s_fresh m' = s_fresh m"
  by (auto simp: m'_def merge_leaves_def free_node_def Let_def split: option.split)

lemma dll_merge_leaves:
  assumes "dll m (us @ a # b # vs)"
  shows "dll (free_node (SLeaf b e') (fst (merge_leaves m a d b e))) (us @ a # vs)" (is "dll ?m _")
proof -
  have d: "distinct (us @ a # b # vs)" "\<forall>x\<in>set (us @ a # b # vs). x < s_fresh m"
    "seg m None us (Some a)" "prevleaf m a = (if us = [] then None else Some (last us))"
    "nextleaf m b = (case vs of [] \<Rightarrow> None | y # _ \<Rightarrow> Some y)" "seg m (Some b) vs None"
    and ends: "st_leaves m = length (us @ a # b # vs)" "m_headleaf m = Some (hd (us @ a # b # vs))"
      "m_tailleaf m = Some (last (us @ a # b # vs))"
    using assms by (auto simp: dll_def seg_append)
  have "seg ?m None us (Some a) = seg m None us (Some a)"
    by (rule seg_cong) (use d(1,5) in \<open>auto simp: merge_leaves_sel split: list.splits\<close>)
  moreover have "seg ?m (Some a) vs None"
  proof (cases vs)
    case (Cons y ys)
    have "seg ?m (Some y) ys None = seg m (Some y) ys None"
      by (rule seg_cong) (use d(1,5) Cons in \<open>auto simp: merge_leaves_sel\<close>)
    then show ?thesis using d(1,5,6) Cons by (auto simp: merge_leaves_sel)
  qed simp
  moreover have "nextleaf ?m a = (case vs of [] \<Rightarrow> None | y # _ \<Rightarrow> Some y)"
    "prevleaf ?m a = (if us = [] then None else Some (last us))"
    using d(1,4,5) by (auto simp: merge_leaves_sel split: list.splits)
  ultimately have "seg ?m None (us @ a # vs) None" using d(3) by (simp add: seg_append)
  moreover have "m_tailleaf ?m = Some (last (us @ a # vs))"
    using d(5) ends(3) by (auto simp: merge_leaves_sel split: list.splits)
  moreover have "hd (us @ a # vs) = hd (us @ a # b # vs)" by (cases us) auto
  ultimately show ?thesis using d(1,2) ends(1,2) by (auto simp: dll_def merge_leaves_sel)
qed

lemma mem_merge_leaves:
  "mem_step m [SLeaf a d, SLeaf b e] (free_node (SLeaf b e') (fst (merge_leaves m a d0 b e0))) [SLeaf a d']"
  by (simp add: mem_step_def dll_merge_leaves merge_leaves_sel)

lemma dll_free_inner [simp]: "dll (free_node (SInner l ks cs) m) as = dll m as"
proof -
  have "seg (free_node (SInner l ks cs) m) None as None = seg m None as None"
    by (rule seg_cong) (simp add: free_node_def)
  then show ?thesis by (simp add: dll_def free_node_def)
qed

lemma mem_merge_inner:
  "mem_step m [SInner l ks1 cs1, SInner l ks2 cs2] (free_node (SInner l ks cs) m) [SInner l ks' (cs1 @ cs2)]"
  by (auto simp: mem_step_def) (simp add: free_node_def)

section \<open>The parent after a repair\<close>

text \<open>The part of a step of an inner node that takes over what happened to its children.\<close>

definition parent_step :: "nat \<Rightarrow> 'k list \<Rightarrow> ('k, 'v) snode list \<Rightarrow> nat \<Rightarrow> ('k, 'v) sframe \<Rightarrow>
    'k list \<times> ('k, 'v) snode list \<times> smem" where
  "parent_step l ks cs slot f = (let cs1 = write_back ks cs slot f in
     if r_fixmerge (f_res f) then drop_merged l (f_keys f) cs1 slot (f_mem f) else (f_keys f, cs1, f_mem f))"

definition repaired :: "scfg \<Rightarrow> nat \<Rightarrow> ('k, 'v) snode list \<Rightarrow> smem \<Rightarrow> 'k list \<times> ('k, 'v) snode list \<times> smem \<Rightarrow> bool" where
  "repaired c l cs m r = (case r of (ks', cs', m') \<Rightarrow>
     kids c l ks' cs' \<and> concat (map sentries cs') = concat (map sentries cs) \<and> mem_step m cs m' cs'
     \<and> length cs \<le> Suc (length cs') \<and> length cs' \<le> length cs)"

definition good :: "scfg \<Rightarrow> nat \<Rightarrow> ('k, 'v) snode \<Rightarrow> bool" where
  "good c l n = (sshape c n \<and> Suc (slevel n) = l \<and> \<not> isunderflow c n)"

lemma repaired_shift:
  assumes "\<forall>n\<in>set (P @ Q). good c l n" and "good c l A'" "good c l B'"
    and "sentries A' @ sentries B' = sentries A @ sentries B" and "mem_step m [A, B] m [A', B']"
    and "ks = map maxkey (butlast (P @ A' # B' # Q))"
  shows "repaired c l (P @ A # B # Q) m (ks, P @ A' # B' # Q, m)"
proof -
  have "kids c l ks (P @ A' # B' # Q)"
    by (rule kidsI [OF _ assms(6)]) (use assms(1-3) in \<open>auto simp: good_def assms(6)\<close>)
  moreover have "concat (map sentries (P @ A' # B' # Q)) = concat (map sentries (P @ A # B # Q))"
    using arg_cong [OF assms(4), of "\<lambda>x. concat (map sentries P) @ x @ concat (map sentries Q)"] by simp
  ultimately show ?thesis
    using mem_step_context [OF assms(5), of P Q] by (simp add: repaired_def)
qed

lemma repaired_merge:
  assumes "\<forall>n\<in>set (P @ Q). good c l n" and "good c l A'"
    and "sentries A' = sentries A @ sentries B" and "mem_step m [A, B] m' [A']"
  shows "repaired c l (P @ A # B # Q) m (map maxkey (butlast (P @ A' # Q)), P @ A' # Q, m')"
proof -
  have "kids c l (map maxkey (butlast (P @ A' # Q))) (P @ A' # Q)"
    by (rule kidsI [OF _ refl]) (use assms(1,2) in \<open>auto simp: good_def\<close>)
  moreover have "concat (map sentries (P @ A' # Q)) = concat (map sentries (P @ A # B # Q))"
    using assms(3) by simp
  ultimately show ?thesis
    using mem_step_context [OF assms(4), of P Q] by (simp add: repaired_def)
qed

lemma drop_merged_at:
  assumes ks: "ks = map maxkey (butlast (P @ A # B # Q))" and max: "maxkey A' = maxkey B"
    and slot: "slot = Suc (length P) \<and> slotuse B' = 0 \<or> slot = length P \<and> slotuse A' \<noteq> 0"
    and leaf: "l = 1 \<Longrightarrow> \<exists>a d. A' = SLeaf a d \<and> d \<noteq> []"
  shows "drop_merged l ks (P @ A' # B' # Q) slot m = (map maxkey (butlast (P @ A' # Q)), P @ A' # Q, free_node B' m)"
proof -
  let ?cs = "P @ A' # B' # Q"
  have s: "(if slotuse (?cs ! slot) \<noteq> 0 then slot + 1 else slot) = Suc (length P)"
    using slot by (auto simp: nth_append)
  have ks': "take (length P) ks @ drop (Suc (length P)) ks = map maxkey (butlast (P @ A' # Q))"
    by (rule seps_merge [OF ks max])
  have "(map maxkey (butlast (P @ A' # Q)))[length P := maxkey A'] = map maxkey (butlast (P @ A' # Q))"
    by (cases Q) (simp_all add: butlast_append list_update_append list_update_beyond)
  then have "(if l = 1 then (case A' of SLeaf a d \<Rightarrow>
        (map maxkey (butlast (P @ A' # Q)))[length P := fst (d ! (length d - 1))] | _ \<Rightarrow> map maxkey (butlast (P @ A' # Q)))
      else map maxkey (butlast (P @ A' # Q))) = map maxkey (butlast (P @ A' # Q))"
    using leaf by (auto simp: last_conv_max [symmetric])
  moreover have "take (Suc (length P)) ?cs @ drop (Suc (length P) + 1) ?cs = P @ A' # Q"
    "?cs ! Suc (length P) = B'" "(P @ A' # Q) ! length P = A'"
    by (simp_all add: nth_append)
  ultimately show ?thesis
    unfolding drop_merged_def s Let_def by (simp only: diff_Suc_1 ks')
qed

text \<open>The children after a repair that touched one neighbour.\<close>

lemma write_back_left:
  assumes "cs = P @ A # B # Q" and "slot = Suc (length P)" and "length cs = Suc (length ks)"
    and "f_left f = Some A'" "f_curr f = Some B'" and "slot \<noteq> length ks \<Longrightarrow> f_right f = Some (cs ! (slot + 1))"
  shows "write_back ks cs slot f = P @ A' # B' # Q"
proof (cases "slot = length ks")
  case True
  then have "length ks = Suc (length P)" using assms(2) by simp
  then show ?thesis unfolding write_back_def assms(4,5) option.case assms(1,2) Let_def
    by (simp add: list_update_append split: option.split)
next
  case False
  then obtain q Q' where Q: "Q = q # Q'" using assms(1-3) by (cases Q) auto
  with False assms have "f_right f = Some q" by (simp add: nth_append)
  with Q False show ?thesis unfolding write_back_def assms(4,5) option.case assms(1,2) Let_def
    by (simp add: list_update_append)
qed

lemma write_back_right:
  assumes "cs = P @ A # B # Q" and "slot = length P" and "length cs = Suc (length ks)"
    and "f_curr f = Some A'" "f_right f = Some B'" and "slot \<noteq> 0 \<Longrightarrow> f_left f = Some (cs ! (slot - 1))"
  shows "write_back ks cs slot f = P @ A' # B' # Q"
proof (cases P rule: rev_cases)
  case Nil
  then have "ks \<noteq> []" using assms(1,3) by auto
  with Nil show ?thesis unfolding write_back_def assms(4,5) option.case assms(1,2) Let_def
    by (simp split: option.split)
next
  case (snoc P' p)
  then have "f_left f = Some p" "length ks \<noteq> length P" using assms by (auto simp: nth_append)
  with snoc show ?thesis unfolding write_back_def assms(4,5) option.case assms(1,2) Let_def
    by (simp add: list_update_append)
qed

lemma write_back_curr: "f_curr f = Some x \<Longrightarrow> write_back ks (cs[slot := n]) slot f = write_back ks cs slot f"
  by (simp add: write_back_def)

section \<open>The choice of a repair\<close>

text \<open>What the descent tells about the neighbours of the child at \<open>slot\<close> of a node of level \<open>l\<close>.\<close>

definition frame_ok :: "nat \<Rightarrow> 'k list \<Rightarrow> ('k, 'v) snode list \<Rightarrow> nat \<Rightarrow> ('k, 'v) snode option \<Rightarrow>
    ('k, 'v) snode option \<Rightarrow> nat option \<Rightarrow> nat option \<Rightarrow> bool" where
  "frame_ok l ks cs slot left right lp rp =
     ((if slot = 0 then \<forall>j. lp = Some j \<longrightarrow> l < j else left = Some (cs ! (slot - 1)) \<and> lp = Some l)
      \<and> (if slot = length ks then \<forall>j. rp = Some j \<longrightarrow> l < j else right = Some (cs ! (slot + 1)) \<and> rp = Some l))"

lemma choose_fix_sound:
  assumes "frame_ok l ks cs slot left right lp rp" and "ks \<noteq> []" and "slot \<le> length ks"
  shows "case choose_fix c left right lp rp (Some l) of
      FRoot \<Rightarrow> False
    | FMergeLeft \<Rightarrow> lp = Some l \<and> slot \<noteq> 0 \<and> left = Some (cs ! (slot - 1)) \<and> isfew c (cs ! (slot - 1))
    | FMergeRight \<Rightarrow> rp = Some l \<and> slot \<noteq> length ks \<and> right = Some (cs ! (slot + 1)) \<and> isfew c (cs ! (slot + 1))
    | FShiftLeft \<Rightarrow> rp = Some l \<and> slot \<noteq> length ks \<and> right = Some (cs ! (slot + 1)) \<and> \<not> isfew c (cs ! (slot + 1))
    | FShiftRight \<Rightarrow> lp = Some l \<and> slot \<noteq> 0 \<and> left = Some (cs ! (slot - 1)) \<and> \<not> isfew c (cs ! (slot - 1))"
proof -
  have L: "lp = Some l \<longleftrightarrow> slot \<noteq> 0" "slot \<noteq> 0 \<Longrightarrow> left = Some (cs ! (slot - 1))"
    and R: "rp = Some l \<longleftrightarrow> slot \<noteq> length ks" "slot \<noteq> length ks \<Longrightarrow> right = Some (cs ! (slot + 1))"
    using assms(1) by (auto simp: frame_ok_def split: if_splits)
  have one: "slot \<noteq> 0 \<or> slot \<noteq> length ks" using assms(2) by auto
  show ?thesis
    using L R one by (cases "slot = 0"; cases "slot = length ks"; cases left; cases right)
      (auto simp: choose_fix_def Let_def split: if_splits)
qed

section \<open>Repairs\<close>

text \<open>
  A family of children in which only the one at \<open>slot\<close> misses one slot to be half full, as the
  frame \<open>g\<close> shows it, and what a repair of it has to give.
\<close>

definition short_child :: "scfg \<Rightarrow> nat \<Rightarrow> ('k, 'v) snode list \<Rightarrow> nat \<Rightarrow> ('k, 'v) snode \<Rightarrow> ('k, 'v) sframe \<Rightarrow> bool" where
  "short_child c l cs slot n g =
     (slot < length cs \<and> cs ! slot = n \<and> f_curr g = Some n \<and> length cs = Suc (length (f_keys g)) \<and> f_keys g \<noteq> []
      \<and> f_keys g = map maxkey (butlast cs) \<and> sshape c n \<and> Suc (slevel n) = l
      \<and> (\<forall>i<length cs. i \<noteq> slot \<longrightarrow> good c l (cs ! i))
      \<and> \<not> r_not_found (f_res g) \<and> \<not> r_fixmerge (f_res g))"

definition repair_ok :: "scfg \<Rightarrow> nat \<Rightarrow> ('k, 'v) snode list \<Rightarrow> nat \<Rightarrow> ('k, 'v) sframe \<Rightarrow> ('k, 'v) sframe \<Rightarrow> bool" where
  "repair_ok c l cs slot g f =
     (\<not> r_not_found (f_res f) \<and> r_lastkey (f_res f) = r_lastkey (f_res g) \<and> f_curr f \<noteq> None
      \<and> repaired c l cs (f_mem g) (parent_step l (f_keys g) cs slot f))"

lemma short_childI:
  assumes "slot < length cs" "cs ! slot = n" "f_curr g = Some n" "length cs = Suc (length (f_keys g))" "f_keys g \<noteq> []"
    "f_keys g = map maxkey (butlast cs)" "sshape c n" "Suc (slevel n) = l" "\<forall>i<length cs. i \<noteq> slot \<longrightarrow> good c l (cs ! i)"
    "\<not> r_not_found (f_res g)" "\<not> r_fixmerge (f_res g)"
  shows "short_child c l cs slot n g"
  unfolding short_child_def using assms by blast

lemma short_childD:
  assumes "short_child c l cs slot n g"
  shows "slot \<le> length (f_keys g)" "f_curr g = Some n" "f_keys g \<noteq> []" "f_keys g = map maxkey (butlast cs)"
    "length cs = Suc (length (f_keys g))" "sshape c n" "Suc (slevel n) = l" "cs ! slot = n" "slot < length cs"
    "\<forall>i<length cs. i \<noteq> slot \<longrightarrow> good c l (cs ! i)" "\<not> r_not_found (f_res g)" "\<not> r_fixmerge (f_res g)"
  using assms unfolding short_child_def by (metis less_Suc_eq_le, blast+)

lemma others_good:
  assumes "\<forall>i<length cs. i \<noteq> s \<longrightarrow> P (cs ! i)"
  shows "n \<le> s \<Longrightarrow> \<forall>x\<in>set (take n cs). P x" "s < n \<Longrightarrow> \<forall>x\<in>set (drop n cs). P x"
  using assms by (auto simp: in_set_conv_nth)

lemma short_child_left:
  assumes "short_child c l cs slot n g" and "slot \<noteq> 0"
  obtains P Q where "cs = P @ cs ! (slot - 1) # n # Q" "slot = Suc (length P)" "\<forall>n\<in>set (P @ Q). good c l n"
    "good c l (cs ! (slot - 1))"
proof -
  have s: "slot < length cs" "cs ! slot = n" "\<forall>i<length cs. i \<noteq> slot \<longrightarrow> good c l (cs ! i)"
    using assms(1) unfolding short_child_def by blast+
  define j where "j = slot - 1"
  have j: "slot = Suc j" "j < length cs" using assms(2) s(1) by (auto simp: j_def)
  have eq: "cs = take j cs @ cs ! j # cs ! Suc j # drop (Suc (Suc j)) cs"
    using s(1) j by (metis Cons_nth_drop_Suc id_take_nth_drop)
  show thesis
  proof (rule that [of "take j cs" "drop (Suc (Suc j)) cs"])
    show "\<forall>n\<in>set (take j cs @ drop (Suc (Suc j)) cs). good c l n"
      using others_good(1) [OF s(3), of j] others_good(2) [OF s(3), of "Suc (Suc j)"] j by (simp add: ball_Un)
    show "cs = take j cs @ cs ! (slot - 1) # n # drop (Suc (Suc j)) cs"
      unfolding s(2) [symmetric] j(1) diff_Suc_1 by (rule eq)
  qed (use s(1,3) j in \<open>simp_all add: j_def [symmetric]\<close>)
qed

lemma short_child_right:
  assumes "short_child c l cs slot n g" and "slot \<noteq> length (f_keys g)"
  obtains P Q where "cs = P @ n # cs ! (slot + 1) # Q" "slot = length P" "\<forall>n\<in>set (P @ Q). good c l n"
    "good c l (cs ! (slot + 1))"
proof -
  have s: "slot < length cs" "cs ! slot = n" "\<forall>i<length cs. i \<noteq> slot \<longrightarrow> good c l (cs ! i)"
    "length cs = Suc (length (f_keys g))"
    using assms(1) unfolding short_child_def by blast+
  have j: "Suc slot < length cs" using s assms(2) by simp
  have eq: "cs = take slot cs @ cs ! slot # cs ! Suc slot # drop (Suc (Suc slot)) cs"
    using s(1) j by (metis Cons_nth_drop_Suc id_take_nth_drop)
  show thesis
  proof (rule that [of "take slot cs" "drop (Suc (Suc slot)) cs"])
    show "\<forall>n\<in>set (take slot cs @ drop (Suc (Suc slot)) cs). good c l n"
      using others_good(1) [OF s(3), of slot] others_good(2) [OF s(3), of "Suc (Suc slot)"] by (simp add: ball_Un)
    show "cs = take slot cs @ n # cs ! (slot + 1) # drop (Suc (Suc slot)) cs"
      unfolding s(2) [symmetric] Suc_eq_plus1 [symmetric] by (rule eq)
  qed (use s j in simp_all)
qed

lemma good_leaf: "good c 1 n \<Longrightarrow> \<exists>a d. n = SLeaf a d"
  by (cases n) (auto simp: good_def dest: sshape_level)

lemma good_inner: "good c l n \<Longrightarrow> 1 < l \<Longrightarrow> \<exists>ks cs. n = SInner (l - 1) ks cs"
  by (cases n) (auto simp: good_def)

lemma res_or_simps [simp]:
  "res_or r btree_fixmerge = r\<lparr>r_fixmerge := True\<rparr>" "res_or r btree_ok = r"
  by (simp_all add: res_or_def btree_fixmerge_def btree_ok_def)

text \<open>The four kinds of repair, for a pair of neighbours of which one is the short child.\<close>

lemma repair_pair_left:
  assumes sc: "short_child c l cs slot B g" and cs: "cs = P @ A # B # Q" "slot = Suc (length P)"
    and PQ: "\<forall>n\<in>set (P @ Q). good c l n"
    and R: "slot \<noteq> length (f_keys g) \<longrightarrow> f_right g = Some (cs ! (slot + 1))" and A': "good c l A'"
  shows "good c l B' \<Longrightarrow> sentries A' @ sentries B' = sentries A @ sentries B \<Longrightarrow>
      mem_step (f_mem g) [A, B] (f_mem g) [A', B'] \<Longrightarrow> ks' = map maxkey (butlast (P @ A' # B' # Q)) \<Longrightarrow>
      repair_ok c l cs slot g (g\<lparr>f_left := Some A', f_curr := Some B', f_keys := ks'\<rparr>)"
    and "slotuse B' = 0 \<Longrightarrow> sentries A' = sentries A @ sentries B \<Longrightarrow>
      mem_step (f_mem g) [A, B] (free_node B' m) [A'] \<Longrightarrow>
      repair_ok c l cs slot g (g\<lparr>f_left := Some A', f_curr := Some B', f_mem := m, f_res := (f_res g)\<lparr>r_fixmerge := True\<rparr>\<rparr>)"
proof -
  have g: "length cs = Suc (length (f_keys g))" "f_keys g = map maxkey (butlast cs)" "sshape c B" "Suc (slevel B) = l"
    "\<not> r_not_found (f_res g)" "\<not> r_fixmerge (f_res g)"
    using sc unfolding short_child_def by blast+
  have wb: "write_back (f_keys g) cs slot f = P @ A' # B' # Q"
    if "f_left f = Some A'" "f_curr f = Some B'" "f_right f = f_right g" for f
    by (rule write_back_left [OF cs g(1)]) (use that R in auto)
  show "repair_ok c l cs slot g (g\<lparr>f_left := Some A', f_curr := Some B', f_keys := ks'\<rparr>)"
    if "good c l B'" "sentries A' @ sentries B' = sentries A @ sentries B"
      "mem_step (f_mem g) [A, B] (f_mem g) [A', B']" "ks' = map maxkey (butlast (P @ A' # B' # Q))"
    using repaired_shift [OF PQ A' that] g(5,6) wb
    by (simp add: repair_ok_def parent_step_def cs(1))
  show "repair_ok c l cs slot g (g\<lparr>f_left := Some A', f_curr := Some B', f_mem := m, f_res := (f_res g)\<lparr>r_fixmerge := True\<rparr>\<rparr>)"
    if "slotuse B' = 0" "sentries A' = sentries A @ sentries B" "mem_step (f_mem g) [A, B] (free_node B' m) [A']"
  proof -
    have "maxkey A' = maxkey B" using that(2) sshape_nonempty [OF g(3)] by (simp add: maxkey_def)
    then have "drop_merged l (f_keys g) (P @ A' # B' # Q) slot m =
        (map maxkey (butlast (P @ A' # Q)), P @ A' # Q, free_node B' m)"
      using cs(2) that(1) A' good_leaf [of c A'] by (intro drop_merged_at [OF g(2) [unfolded cs(1)]]) (auto simp: good_def)
    then show ?thesis using repaired_merge [OF PQ A' that(2,3)] g(5) wb
      by (simp add: repair_ok_def parent_step_def cs(1))
  qed
qed

lemma repair_pair_right:
  assumes sc: "short_child c l cs slot A g" and cs: "cs = P @ A # B # Q" "slot = length P"
    and PQ: "\<forall>n\<in>set (P @ Q). good c l n" and B: "good c l B"
    and L: "slot \<noteq> 0 \<longrightarrow> f_left g = Some (cs ! (slot - 1))" and A': "good c l A'"
  shows "good c l B' \<Longrightarrow> sentries A' @ sentries B' = sentries A @ sentries B \<Longrightarrow>
      mem_step (f_mem g) [A, B] (f_mem g) [A', B'] \<Longrightarrow> ks' = map maxkey (butlast (P @ A' # B' # Q)) \<Longrightarrow>
      repair_ok c l cs slot g (g\<lparr>f_curr := Some A', f_right := Some B', f_keys := ks'\<rparr>)"
    and "slotuse A' \<noteq> 0 \<Longrightarrow> sentries A' = sentries A @ sentries B \<Longrightarrow>
      mem_step (f_mem g) [A, B] (free_node B' m) [A'] \<Longrightarrow>
      repair_ok c l cs slot g (g\<lparr>f_curr := Some A', f_right := Some B', f_mem := m, f_res := (f_res g)\<lparr>r_fixmerge := True\<rparr>\<rparr>)"
proof -
  have g: "length cs = Suc (length (f_keys g))" "f_keys g = map maxkey (butlast cs)"
    "\<not> r_not_found (f_res g)" "\<not> r_fixmerge (f_res g)"
    using sc unfolding short_child_def by blast+
  have wb: "write_back (f_keys g) cs slot f = P @ A' # B' # Q"
    if "f_curr f = Some A'" "f_right f = Some B'" "f_left f = f_left g" for f
    by (rule write_back_right [OF cs g(1)]) (use that L in auto)
  show "repair_ok c l cs slot g (g\<lparr>f_curr := Some A', f_right := Some B', f_keys := ks'\<rparr>)"
    if "good c l B'" "sentries A' @ sentries B' = sentries A @ sentries B"
      "mem_step (f_mem g) [A, B] (f_mem g) [A', B']" "ks' = map maxkey (butlast (P @ A' # B' # Q))"
    using repaired_shift [OF PQ A' that] g(3,4) wb
    by (simp add: repair_ok_def parent_step_def cs(1))
  show "repair_ok c l cs slot g (g\<lparr>f_curr := Some A', f_right := Some B', f_mem := m, f_res := (f_res g)\<lparr>r_fixmerge := True\<rparr>\<rparr>)"
    if "slotuse A' \<noteq> 0" "sentries A' = sentries A @ sentries B" "mem_step (f_mem g) [A, B] (free_node B' m) [A']"
  proof -
    have "sentries B \<noteq> []" using B sshape_nonempty unfolding good_def by blast
    then have "maxkey A' = maxkey B" using that(2) by (simp add: maxkey_def)
    then have "drop_merged l (f_keys g) (P @ A' # B' # Q) slot m =
        (map maxkey (butlast (P @ A' # Q)), P @ A' # Q, free_node B' m)"
      using cs(2) that(1) A' good_leaf [of c A'] by (intro drop_merged_at [OF g(2) [unfolded cs(1)]]) (auto simp: good_def)
    then show ?thesis using repaired_merge [OF PQ A' that(2,3)] g(3) wb
      by (simp add: repair_ok_def parent_step_def cs(1))
  qed
qed

lemma frame_okD:
  assumes "frame_ok l ks cs slot left right lp rp"
  shows "slot \<noteq> length ks \<longrightarrow> right = Some (cs ! (slot + 1))" "slot \<noteq> 0 \<longrightarrow> left = Some (cs ! (slot - 1))"
  using assms by (auto simp: frame_ok_def split: if_splits)

lemma fix_leaf_ok:
  assumes sc: "short_child c l cs slot (SLeaf b e) g"
    and short: "length e < minleafslots c" "minleafslots c \<le> Suc (length e)"
    and fr: "frame_ok l (f_keys g) cs slot (f_left g) (f_right g) lp rp"
  shows "\<exists>f. fix_leaf c lp rp (Some l) slot g = Some f \<and> repair_ok c l cs slot g f"
proof -
  note g = short_childD [OF sc]
  have l: "l = 1" and e: "e \<noteq> []" using g(6,7) by auto
  have mm: "2 * minleafslots c \<le> leafslotmax c" by (simp add: minleafslots_def)
  note sound = choose_fix_sound [OF fr g(3,1), of c] and RL = frame_okD [OF fr]
  note pl = repair_pair_left [OF sc _ _ _ RL(1)] and pr = repair_pair_right [OF sc _ _ _ _ RL(2)]
  show ?thesis
  proof (cases "choose_fix c (f_left g) (f_right g) lp rp (Some l)")
    case FRoot
    with sound show ?thesis by simp
  next
    case FMergeLeft
    with sound have s: "lp = Some l" "slot \<noteq> 0" "isfew c (cs ! (slot - 1))" by auto
    obtain P Q where pq: "cs = P @ cs ! (slot - 1) # SLeaf b e # Q" "slot = Suc (length P)"
      "\<forall>n\<in>set (P @ Q). good c l n" "good c l (cs ! (slot - 1))" by (rule short_child_left [OF sc s(2)])
    obtain a d where A: "cs ! (slot - 1) = SLeaf a d" using pq(4) l good_leaf by blast
    obtain m where m: "merge_leaves (f_mem g) a d b e = (m, d @ e, [], btree_fixmerge)"
      by (simp add: merge_leaves_def Let_def)
    have "good c l (SLeaf a (d @ e))" using pq(4) A s(3) short l mm e by (auto simp: good_def)
    moreover have "mem_step (f_mem g) [SLeaf a d, SLeaf b e] (free_node (SLeaf b []) m) [SLeaf a (d @ e)]"
      using mem_merge_leaves [of "f_mem g" a d b e] m by (metis fst_conv)
    ultimately have "repair_ok c l cs slot g (g\<lparr>f_left := Some (SLeaf a (d @ e)), f_curr := Some (SLeaf b []),
        f_mem := m, f_res := (f_res g)\<lparr>r_fixmerge := True\<rparr>\<rparr>)"
      by (intro pl(2) [OF pq(1) [unfolded A] pq(2,3)]) simp_all
    then show ?thesis using A FMergeLeft s(1) RL(2) [rule_format, OF s(2)] m g(2) by (simp add: fix_leaf_def)
  next
    case FMergeRight
    with sound have s: "rp = Some l" "slot \<noteq> length (f_keys g)" "isfew c (cs ! (slot + 1))" by auto
    obtain P Q where pq: "cs = P @ SLeaf b e # cs ! (slot + 1) # Q" "slot = length P"
      "\<forall>n\<in>set (P @ Q). good c l n" "good c l (cs ! (slot + 1))" by (rule short_child_right [OF sc s(2)])
    obtain a d where A: "cs ! (slot + 1) = SLeaf a d" using pq(4) l good_leaf by blast
    obtain m where m: "merge_leaves (f_mem g) b e a d = (m, e @ d, [], btree_fixmerge)"
      by (simp add: merge_leaves_def Let_def)
    have "good c l (SLeaf b (e @ d))" using pq(4) A s(3) short l mm e by (auto simp: good_def)
    moreover have "mem_step (f_mem g) [SLeaf b e, SLeaf a d] (free_node (SLeaf a []) m) [SLeaf b (e @ d)]"
      using mem_merge_leaves [of "f_mem g" b e a d] m by (metis fst_conv)
    ultimately have "repair_ok c l cs slot g (g\<lparr>f_curr := Some (SLeaf b (e @ d)), f_right := Some (SLeaf a []),
        f_mem := m, f_res := (f_res g)\<lparr>r_fixmerge := True\<rparr>\<rparr>)"
      using e by (intro pr(2) [OF pq(1) [unfolded A] pq(2,3) pq(4) [unfolded A]]) simp_all
    then show ?thesis using A FMergeRight s(1) RL(1) [rule_format, OF s(2)] m g(2) by (simp add: fix_leaf_def)
  next
    case FShiftLeft
    with sound have s: "rp = Some l" "slot \<noteq> length (f_keys g)" "\<not> isfew c (cs ! (slot + 1))" by auto
    obtain P Q where pq: "cs = P @ SLeaf b e # cs ! (slot + 1) # Q" "slot = length P"
      "\<forall>n\<in>set (P @ Q). good c l n" "good c l (cs ! (slot + 1))" by (rule short_child_right [OF sc s(2)])
    obtain a d where A: "cs ! (slot + 1) = SLeaf a d" using pq(4) l good_leaf by blast
    obtain e' d' ks' res where r: "shift_left_leaf e d (f_keys g) (length P) = (e', d', ks', res)"
      by (metis prod_cases4)
    have d: "minleafslots c < length d" "length d \<le> leafslotmax c" using s(3) A pq(4) by (auto simp: good_def)
    have ks: "f_keys g = map maxkey (butlast (P @ SLeaf b e # SLeaf a d # Q))"
      by (rule g(4) [unfolded pq(1) [unfolded A]])
    note sh = shift_left_leaf_ok [OF short d ks r]
    have "repair_ok c l cs slot g (g\<lparr>f_curr := Some (SLeaf b e'), f_right := Some (SLeaf a d'), f_keys := ks'\<rparr>)"
      by (rule pr(1) [OF pq(1) [unfolded A] pq(2,3) pq(4) [unfolded A] _ _ _ _ sh(7)])
        (use sh(1-5) l in \<open>simp_all add: good_def mem_step_refl\<close>)
    then show ?thesis using A FShiftLeft s(1) RL(1) [rule_format, OF s(2)] r g(2) pq(2) sh(6) by (simp add: fix_leaf_def)
  next
    case FShiftRight
    with sound have s: "lp = Some l" "slot \<noteq> 0" "\<not> isfew c (cs ! (slot - 1))" by auto
    obtain P Q where pq: "cs = P @ cs ! (slot - 1) # SLeaf b e # Q" "slot = Suc (length P)"
      "\<forall>n\<in>set (P @ Q). good c l n" "good c l (cs ! (slot - 1))" by (rule short_child_left [OF sc s(2)])
    obtain a d where A: "cs ! (slot - 1) = SLeaf a d" using pq(4) l good_leaf by blast
    obtain d' e' ks' where r: "shift_right_leaf d e (f_keys g) (length P) = (d', e', ks')"
      by (metis prod_cases3)
    have d: "minleafslots c < length d" "length d \<le> leafslotmax c" using s(3) A pq(4) by (auto simp: good_def)
    have ks: "f_keys g = map maxkey (butlast (P @ SLeaf a d # SLeaf b e # Q))"
      by (rule g(4) [unfolded pq(1) [unfolded A]])
    note sh = shift_right_leaf_ok [OF short d ks r]
    have "repair_ok c l cs slot g (g\<lparr>f_left := Some (SLeaf a d'), f_curr := Some (SLeaf b e'), f_keys := ks'\<rparr>)"
      by (rule pl(1) [OF pq(1) [unfolded A] pq(2,3) _ _ _ _ sh(6)])
        (use sh(1-5) l in \<open>simp_all add: good_def mem_step_refl\<close>)
    then show ?thesis using A FShiftRight s(1) RL(2) [rule_format, OF s(2)] r g(2) pq(2) by (simp add: fix_leaf_def)
  qed
qed

lemma leaves_of_pair:
  "leaves_of [SInner l ks cs, SInner l' ks' cs'] = leaves_of (cs @ cs')"
  "sum_list (map ninner [SInner l ks cs, SInner l' ks' cs']) = Suc (Suc (sum_list (map ninner (cs @ cs'))))"
  "sentries (SInner l ks cs) @ sentries (SInner l' ks' cs') = concat (map sentries (cs @ cs'))"
  by simp_all

lemma fix_inner_ok:
  assumes sc: "short_child c (Suc l) cs slot (SInner l ks2 cs2) g"
    and short: "length ks2 < mininnerslots c" "mininnerslots c \<le> Suc (length ks2)"
    and fr: "frame_ok (Suc l) (f_keys g) cs slot (f_left g) (f_right g) lp rp"
  shows "\<exists>f. fix_inner c lp rp (Some (Suc l)) slot g = Some f \<and> repair_ok c (Suc l) cs slot g f"
proof -
  note g = short_childD [OF sc]
  have k2: "kids c l ks2 cs2" using g(6) by (simp add: sshape_kids)
  have l: "1 < Suc l" using sshape_level [OF g(6)] by simp
  have mm: "2 * mininnerslots c \<le> innerslotmax c" by (simp add: mininnerslots_def)
  note sound = choose_fix_sound [OF fr g(3,1), of c] and RL = frame_okD [OF fr]
  note pl = repair_pair_left [OF sc _ _ _ RL(1)] and pr = repair_pair_right [OF sc _ _ _ _ RL(2)]
  have sib: "\<exists>ks cs. n = SInner l ks cs \<and> kids c l ks cs \<and> length ks \<le> innerslotmax c \<and> mininnerslots c \<le> length ks"
    if gn: "good c (Suc l) n" for n
  proof -
    obtain ks cs where "n = SInner l ks cs" using good_inner [OF gn l] by auto
    then show ?thesis using gn by (auto simp: good_def sshape_kids)
  qed
  show ?thesis
  proof (cases "choose_fix c (f_left g) (f_right g) lp rp (Some (Suc l))")
    case FRoot
    with sound show ?thesis by simp
  next
    case FMergeLeft
    with sound have s: "lp = Some (Suc l)" "slot \<noteq> 0" "isfew c (cs ! (slot - 1))" by auto
    obtain P Q where pq: "cs = P @ cs ! (slot - 1) # SInner l ks2 cs2 # Q" "slot = Suc (length P)"
      "\<forall>n\<in>set (P @ Q). good c (Suc l) n" "good c (Suc l) (cs ! (slot - 1))" by (rule short_child_left [OF sc s(2)])
    obtain ks1 cs1 where A: "cs ! (slot - 1) = SInner l ks1 cs1" "kids c l ks1 cs1"
      "length ks1 \<le> innerslotmax c" "mininnerslots c \<le> length ks1" using sib [OF pq(4)] by blast
    have ks: "f_keys g = map maxkey (butlast (P @ SInner l ks1 cs1 # SInner l ks2 cs2 # Q))"
      by (rule g(4) [unfolded pq(1) [unfolded A(1)]])
    obtain ks' cs' kr cr r where r: "merge_inner (ks1, cs1) (ks2, cs2) (f_keys g) (length P) = ((ks', cs'), (kr, cr), r)"
      by (simp add: merge_inner_def)
    have len: "mininnerslots c \<le> Suc (length ks1 + length ks2)" "Suc (length ks1 + length ks2) \<le> innerslotmax c"
      using A s(3) short mm by auto
    note mg = merge_inner_ok [OF A(2) k2 len ks r]
    have "repair_ok c (Suc l) cs slot g (g\<lparr>f_left := Some (SInner l ks' cs'), f_curr := Some (SInner l kr cr),
        f_mem := f_mem g, f_res := (f_res g)\<lparr>r_fixmerge := True\<rparr>\<rparr>)"
      by (rule pl(2) [OF pq(1) [unfolded A(1)] pq(2,3)])
        (use mg in \<open>simp_all add: good_def mem_merge_inner\<close>)
    then show ?thesis using A(1) FMergeLeft s(1) RL(2) [rule_format, OF s(2)] r g(2) pq(2) mg(3) by (simp add: fix_inner_def)
  next
    case FMergeRight
    with sound have s: "rp = Some (Suc l)" "slot \<noteq> length (f_keys g)" "isfew c (cs ! (slot + 1))" by auto
    obtain P Q where pq: "cs = P @ SInner l ks2 cs2 # cs ! (slot + 1) # Q" "slot = length P"
      "\<forall>n\<in>set (P @ Q). good c (Suc l) n" "good c (Suc l) (cs ! (slot + 1))" by (rule short_child_right [OF sc s(2)])
    obtain ks1 cs1 where A: "cs ! (slot + 1) = SInner l ks1 cs1" "kids c l ks1 cs1"
      "length ks1 \<le> innerslotmax c" "mininnerslots c \<le> length ks1" using sib [OF pq(4)] by blast
    have ks: "f_keys g = map maxkey (butlast (P @ SInner l ks2 cs2 # SInner l ks1 cs1 # Q))"
      by (rule g(4) [unfolded pq(1) [unfolded A(1)]])
    obtain ks' cs' kr cr r where r: "merge_inner (ks2, cs2) (ks1, cs1) (f_keys g) (length P) = ((ks', cs'), (kr, cr), r)"
      by (simp add: merge_inner_def)
    have len: "mininnerslots c \<le> Suc (length ks2 + length ks1)" "Suc (length ks2 + length ks1) \<le> innerslotmax c"
      using A s(3) short mm by auto
    note mg = merge_inner_ok [OF k2 A(2) len ks r]
    have "ks' \<noteq> []" using mg(4) by (simp add: sshape_kids)
    then have "repair_ok c (Suc l) cs slot g (g\<lparr>f_curr := Some (SInner l ks' cs'), f_right := Some (SInner l kr cr),
        f_mem := f_mem g, f_res := (f_res g)\<lparr>r_fixmerge := True\<rparr>\<rparr>)"
      by (intro pr(2) [OF pq(1) [unfolded A(1)] pq(2,3) pq(4) [unfolded A(1)]])
        (use mg in \<open>simp_all add: good_def mem_merge_inner\<close>)
    then show ?thesis using A(1) FMergeRight s(1) RL(1) [rule_format, OF s(2)] r g(2) pq(2) mg(3) by (simp add: fix_inner_def)
  next
    case FShiftLeft
    with sound have s: "rp = Some (Suc l)" "slot \<noteq> length (f_keys g)" "\<not> isfew c (cs ! (slot + 1))" by auto
    obtain P Q where pq: "cs = P @ SInner l ks2 cs2 # cs ! (slot + 1) # Q" "slot = length P"
      "\<forall>n\<in>set (P @ Q). good c (Suc l) n" "good c (Suc l) (cs ! (slot + 1))" by (rule short_child_right [OF sc s(2)])
    obtain ks1 cs1 where A: "cs ! (slot + 1) = SInner l ks1 cs1" "kids c l ks1 cs1"
      "length ks1 \<le> innerslotmax c" "mininnerslots c \<le> length ks1" using sib [OF pq(4)] by blast
    have ks: "f_keys g = map maxkey (butlast (P @ SInner l ks2 cs2 # SInner l ks1 cs1 # Q))"
      by (rule g(4) [unfolded pq(1) [unfolded A(1)]])
    obtain ks2' cs2' ks1' cs1' ks' where
      r: "shift_left_inner (ks2, cs2) (ks1, cs1) (f_keys g) (length P) = ((ks2', cs2'), (ks1', cs1'), ks')"
      by (metis prod.collapse)
    have m1: "mininnerslots c < length ks1" using s(3) A(1) by simp
    note sh = shift_left_inner_ok [OF k2 short A(2) m1 A(3) ks r]
    have "repair_ok c (Suc l) cs slot g
        (g\<lparr>f_curr := Some (SInner l ks2' cs2'), f_right := Some (SInner l ks1' cs1'), f_keys := ks'\<rparr>)"
      by (rule pr(1) [OF pq(1) [unfolded A(1)] pq(2,3) pq(4) [unfolded A(1)] _ _ _ _ sh(6)])
        (use sh(2-5) in \<open>simp_all add: good_def leaves_of_pair sh(1) mem_step_refl del: map_append list.map concat.simps sentries.simps\<close>)
    then show ?thesis using A(1) FShiftLeft s(1) RL(1) [rule_format, OF s(2)] r g(2) pq(2) by (simp add: fix_inner_def)
  next
    case FShiftRight
    with sound have s: "lp = Some (Suc l)" "slot \<noteq> 0" "\<not> isfew c (cs ! (slot - 1))" by auto
    obtain P Q where pq: "cs = P @ cs ! (slot - 1) # SInner l ks2 cs2 # Q" "slot = Suc (length P)"
      "\<forall>n\<in>set (P @ Q). good c (Suc l) n" "good c (Suc l) (cs ! (slot - 1))" by (rule short_child_left [OF sc s(2)])
    obtain ks1 cs1 where A: "cs ! (slot - 1) = SInner l ks1 cs1" "kids c l ks1 cs1"
      "length ks1 \<le> innerslotmax c" "mininnerslots c \<le> length ks1" using sib [OF pq(4)] by blast
    have ks: "f_keys g = map maxkey (butlast (P @ SInner l ks1 cs1 # SInner l ks2 cs2 # Q))"
      by (rule g(4) [unfolded pq(1) [unfolded A(1)]])
    obtain ks1' cs1' ks2' cs2' ks' where
      r: "shift_right_inner (ks1, cs1) (ks2, cs2) (f_keys g) (length P) = ((ks1', cs1'), (ks2', cs2'), ks')"
      by (metis prod.collapse)
    have m1: "mininnerslots c < length ks1" using s(3) A(1) by simp
    note sh = shift_right_inner_ok [OF k2 short A(2) m1 A(3) ks r]
    have "repair_ok c (Suc l) cs slot g
        (g\<lparr>f_left := Some (SInner l ks1' cs1'), f_curr := Some (SInner l ks2' cs2'), f_keys := ks'\<rparr>)"
      by (rule pl(1) [OF pq(1) [unfolded A(1)] pq(2,3) _ _ _ _ sh(6)])
        (use sh(2-5) in \<open>simp_all add: good_def leaves_of_pair sh(1) mem_step_refl del: map_append list.map concat.simps sentries.simps\<close>)
    then show ?thesis using A(1) FShiftRight s(1) RL(2) [rule_format, OF s(2)] r g(2) pq(2) by (simp add: fix_inner_def)
  qed
qed

section \<open>Removal of a key below a node\<close>

definition kv_remove :: "'k \<Rightarrow> ('k, 'v) kvs \<Rightarrow> ('k, 'v) kvs" where
  "kv_remove key xs = filter (\<lambda>x. fst x \<noteq> key) xs"

lemma kv_remove_append: "kv_remove key (xs @ ys) = kv_remove key xs @ kv_remove key ys"
  by (simp add: kv_remove_def)

lemma kv_remove_other: "key \<notin> fst ` set xs \<Longrightarrow> kv_remove key xs = xs"
  by (auto simp: kv_remove_def filter_id_conv)

lemma kv_remove_at:
  assumes d: "skeys d" and slot: "slot < length d" "fst (d ! slot) = key"
  shows "take slot d @ drop (Suc slot) d = kv_remove key d"
proof -
  have "distinct (map fst d)" using d by (rule skeys_distinct)
  then have "distinct (map fst (take slot d @ d ! slot # drop (Suc slot) d))"
    using id_take_nth_drop [OF slot(1)] by simp
  then have "key \<notin> fst ` set (take slot d)" "key \<notin> fst ` set (drop (Suc slot) d)" using slot(2) by auto
  then have "kv_remove key (take slot d @ d ! slot # drop (Suc slot) d) = take slot d @ drop (Suc slot) d"
    using slot(2) by (simp add: kv_remove_append kv_remove_other) (simp add: kv_remove_def kv_remove_other [unfolded kv_remove_def])
  then show ?thesis using id_take_nth_drop [OF slot(1)] by simp
qed

lemma kv_remove_child:
  assumes "skeys (concat (map sentries cs))" and "\<forall>n\<in>set cs. sentries n \<noteq> []"
    and "ks = map maxkey (butlast cs)" and "length cs = Suc (length ks)" and "slot = rank_less key ks"
  shows "kv_remove key (concat (map sentries cs)) =
      concat (map sentries (take slot cs)) @ kv_remove key (sentries (cs ! slot)) @ concat (map sentries (drop (Suc slot) cs))"
    and "key \<in> fst ` set (concat (map sentries cs)) \<longleftrightarrow> key \<in> fst ` set (sentries (cs ! slot))"
proof -
  note b = child_bounds [OF assms] and eq = sorted_child(2) [OF assms(1) child_bounds(1) [OF assms]]
  have no: "key \<notin> fst ` set (concat (map sentries (take slot cs)))" "key \<notin> fst ` set (concat (map sentries (drop (Suc slot) cs)))"
    using b(2,3) by (metis imageE less_irrefl)+
  show "kv_remove key (concat (map sentries cs)) =
      concat (map sentries (take slot cs)) @ kv_remove key (sentries (cs ! slot)) @ concat (map sentries (drop (Suc slot) cs))"
    unfolding eq kv_remove_append by (simp only: kv_remove_other [OF no(1)] kv_remove_other [OF no(2)])
  show "key \<in> fst ` set (concat (map sentries cs)) \<longleftrightarrow> key \<in> fst ` set (sentries (cs ! slot))"
    unfolding eq set_append image_Un using no by blast
qed

text \<open>What a removal below the child at \<open>slot\<close> gives for the node above it.\<close>

definition removed :: "scfg \<Rightarrow> 'k \<Rightarrow> nat \<Rightarrow> 'k list \<Rightarrow> ('k, 'v) snode list \<Rightarrow> nat \<Rightarrow> smem \<Rightarrow> ('k, 'v) sframe \<Rightarrow> bool" where
  "removed c key l ks cs slot m f = (case parent_step l ks cs slot f of (ks', cs', m') \<Rightarrow>
     \<not> r_not_found (f_res f) \<and> kids c l ks' cs' \<and> concat (map sentries cs') = kv_remove key (concat (map sentries cs))
     \<and> mem_step m cs m' cs' \<and> length cs \<le> Suc (length cs') \<and> length cs' \<le> length cs
     \<and> (case r_lastkey (f_res f) of None \<Rightarrow> maxkey (last cs') = maxkey (last cs) | Some k \<Rightarrow> k = maxkey (last cs')))"

lemma butlast_upd:
  "slot < length cs - 1 \<Longrightarrow> map f (butlast (cs[slot := n])) = (map f (butlast cs))[slot := f n]"
  "slot = length cs - 1 \<Longrightarrow> map f (butlast (cs[slot := n])) = map f (butlast cs)"
  "slot < length cs - 1 \<Longrightarrow> map f (butlast cs) ! slot = f (cs ! slot)"
  by (simp_all add: butlast_list_update map_update nth_butlast)

text \<open>The separators after a change of the largest key of a child has been passed up.\<close>

definition pass_up :: "(nat \<times> 'k list) option \<Rightarrow> nat \<Rightarrow> 'k option \<Rightarrow> 'k list \<times> 'k sresult" where
  "pass_up parent ps lk = (case lk of Some k \<Rightarrow> put_lastkey parent ps k | None \<Rightarrow> (pkeys parent, btree_ok))"

lemma pass_up_seps:
  assumes k: "kids c l ks cs" and slot: "slot < length cs"
    and lk: "case lk of None \<Rightarrow> maxkey n = maxkey (cs ! slot) | Some k \<Rightarrow> k = maxkey n"
    and r: "pass_up (Some (l, ks)) slot lk = (pk, res)"
  shows "pk = map maxkey (butlast (cs[slot := n]))" "length pk = length ks" "\<not> r_not_found res" "\<not> r_fixmerge res"
    "case r_lastkey res of None \<Rightarrow> maxkey (last (cs[slot := n])) = maxkey (last cs) | Some k \<Rightarrow> k = maxkey (last (cs[slot := n]))"
proof -
  note kd = kidsD [OF k]
  note upd = butlast_upd(1,2) [of slot cs maxkey n, folded kd(2), unfolded kd(1) diff_Suc_1]
    butlast_upd(3) [of slot cs maxkey, folded kd(2), unfolded kd(1) diff_Suc_1]
  have seps: "map maxkey (butlast (cs[slot := n])) = ks[slot := maxkey n]" if "slot < length ks"
    using upd(1) that by simp
  have seps': "map maxkey (butlast (cs[slot := n])) = ks" if "slot = length ks" using upd(2) that by simp
  have last: "last (cs[slot := n]) = (if slot = length ks then n else last cs)"
    using kd(1,3) slot by (simp add: last_list_update)
  have same: "ks[slot := maxkey (cs ! slot)] = ks" if "slot < length ks"
    using that kd(1) upd(3) by (simp add: list_update_same_conv)
  have cs_last: "cs ! length ks = last cs" using kd(1,3) by (simp add: last_conv_nth)
  have slot': "slot < length ks \<or> slot = length ks" using slot kd(1) by auto
  have "pk = map maxkey (butlast (cs[slot := n])) \<and> length pk = length ks \<and> \<not> r_not_found res \<and> \<not> r_fixmerge res \<and>
    (case r_lastkey res of None \<Rightarrow> maxkey (last (cs[slot := n])) = maxkey (last cs) | Some k \<Rightarrow> k = maxkey (last (cs[slot := n])))"
  proof (cases "slot < length ks")
    case True
    have "pk = ks[slot := maxkey n]" "res = btree_ok"
      using r lk True same by (auto simp: pass_up_def put_lastkey_def pkeys_def split: option.splits)
    with seps True last show ?thesis by (simp add: btree_ok_def)
  next
    case False
    then have eq: "slot = length ks" using slot' by simp
    have "pk = ks" "res = (case lk of None \<Rightarrow> btree_ok | Some k \<Rightarrow> btree_update_lastkey k)"
      using r eq by (auto simp: pass_up_def put_lastkey_def pkeys_def split: option.splits)
    with seps' eq last cs_last lk show ?thesis
      by (auto simp: btree_ok_def btree_update_lastkey_def split: option.split)
  qed
  then show "pk = map maxkey (butlast (cs[slot := n]))" "length pk = length ks" "\<not> r_not_found res" "\<not> r_fixmerge res"
    "case r_lastkey res of None \<Rightarrow> maxkey (last (cs[slot := n])) = maxkey (last cs) | Some k \<Rightarrow> k = maxkey (last (cs[slot := n]))"
    by blast+
qed

lemma write_back_same:
  assumes "frame_ok l ks cs slot (f_left g) (f_right g) lp rp" and "f_curr g = Some n" and "slot < length cs"
    and "length cs = Suc (length ks)"
  shows "write_back ks cs slot g = cs[slot := n]"
proof -
  have "(cs[slot := n])[slot - 1 := cs ! (slot - 1)] = cs[slot := n]" if "slot \<noteq> 0"
    using that assms(3) by (simp add: list_update_same_conv)
  moreover have "(cs[slot := n])[slot + 1 := cs ! (slot + 1)] = cs[slot := n]" if "slot \<noteq> length ks"
    using that assms(3,4) by (simp add: list_update_same_conv)
  ultimately show ?thesis using frame_okD [OF assms(1)] assms(2)
    by (auto simp: write_back_def Let_def split: option.split)
qed

lemma mem_step_child:
  assumes "mem_step m [cs ! slot] m' [n]" and "slot < length cs"
  shows "mem_step m cs m' (cs[slot := n])"
  using mem_step_context [OF assms(1), of "take slot cs" "drop (Suc slot) cs"] assms(2)
  by (simp add: upd_conv_take_nth_drop id_take_nth_drop [symmetric])

lemma last_entries: "cs \<noteq> [] \<Longrightarrow> \<forall>n\<in>set cs. sentries n \<noteq> [] \<Longrightarrow> maxkey (last cs) = fst (last (concat (map sentries cs)))"
  by (cases cs rule: rev_cases) (auto simp: maxkey_def)

text \<open>
  The step of a node from its changed self \<open>n'\<close> on: the keys above are updated, and \<open>n'\<close> is
  repaired if it has become too small.
\<close>

lemma removed_step:
  assumes k: "kids c l ks cs" "ks \<noteq> []" and sk: "skeys (concat (map sentries cs))" and slot: "slot = rank_less key ks"
    and fr: "frame_ok l ks cs slot left right lp rp"
    and n': "sshape c n'" "Suc (slevel n') = l" "sentries n' = kv_remove key (sentries (cs ! slot))" "mem_step m [cs ! slot] m' [n']"
    and lk: "case lk of None \<Rightarrow> maxkey n' = maxkey (cs ! slot) | Some k \<Rightarrow> k = maxkey n'"
    and up: "pass_up (Some (l, ks)) slot lk = (pk, res)"
    and g: "g = \<lparr>f_left = left, f_curr = Some n', f_right = right, f_keys = pk, f_mem = m', f_res = res\<rparr>"
    and stay: "\<not> isunderflow c n' \<Longrightarrow> r = Some g"
    and fix_ok: "isunderflow c n' \<Longrightarrow> short_child c l (cs[slot := n']) slot n' g \<Longrightarrow>
      frame_ok l (f_keys g) (cs[slot := n']) slot (f_left g) (f_right g) lp rp \<Longrightarrow>
      \<exists>f. r = Some f \<and> repair_ok c l (cs[slot := n']) slot g f"
  shows "\<exists>f. r = Some f \<and> removed c key l ks cs slot m f"
proof -
  let ?cs = "cs[slot := n']"
  note kd = kidsD [OF k(1)] and b = child_bounds [OF sk kidsD(5,2,1) [OF k(1)] slot]
  note ps = pass_up_seps [OF k(1) b(1) lk up]
  have ent: "concat (map sentries ?cs) = kv_remove key (concat (map sentries cs))"
    unfolding concat_update [OF b(1)] n'(3) by (rule kv_remove_child(1) [OF sk kd(5,2,1) slot, symmetric])
  have mem: "mem_step m cs m' ?cs" by (rule mem_step_child [OF n'(4) b(1)])
  show ?thesis
  proof (cases "isunderflow c n'")
    case False
    have step: "parent_step l ks cs slot g = (pk, ?cs, m')"
      using write_back_same [of l ks cs slot g lp rp n'] fr b(1) kd(1) ps(4) by (simp add: parent_step_def g)
    have "kids c l pk ?cs"
    proof (rule kidsI [OF _ ps(1)])
      show "\<forall>n\<in>set ?cs. sshape c n \<and> Suc (slevel n) = l \<and> \<not> isunderflow c n"
        by (rule all_update) (use kd(4) n'(1,2) False in simp_all)
    qed (use ps(2) kd(1) in simp)
    then have "removed c key l ks cs slot m g"
      using step ps(3,5) ent mem by (simp add: removed_def g)
    with stay False show ?thesis by blast
  next
    case True
    have len: "length ?cs = Suc (length pk)" using ps(2) kd(1) by simp
    have good: "\<forall>i<length ?cs. i \<noteq> slot \<longrightarrow> good c l (?cs ! i)"
      using kd(4) by (auto simp: good_def nth_list_update)
    have sc: "short_child c l ?cs slot n' g"
    proof (rule short_childI)
      show "f_keys g = map maxkey (butlast ?cs)" using ps(1) by (simp only: g sframe.simps)
      have "pk \<noteq> []" using ps(2) k(2) by auto
      then show "f_keys g \<noteq> []" by (simp only: g sframe.simps simp_thms)
    qed (use b(1) len good ps(3,4) n'(1,2) in \<open>simp_all add: g\<close>)
    have fr': "frame_ok l (f_keys g) ?cs slot (f_left g) (f_right g) lp rp"
      using fr ps(2) by (auto simp: frame_ok_def g split: if_splits)
    from fix_ok [OF True sc fr'] obtain f where f: "r = Some f" "repair_ok c l ?cs slot g f" by blast
    obtain ks2 cs2 m2 where st: "parent_step l pk ?cs slot f = (ks2, cs2, m2)" by (metis prod_cases3)
    have rp: "kids c l ks2 cs2" "concat (map sentries cs2) = concat (map sentries ?cs)" "mem_step m' ?cs m2 cs2"
      "length cs \<le> Suc (length cs2)" "length cs2 \<le> length cs" "\<not> r_not_found (f_res f)" "r_lastkey (f_res f) = r_lastkey res"
      "f_curr f \<noteq> None"
      using f(2) st by (auto simp: repair_ok_def repaired_def g)
    have "parent_step l ks cs slot f = (ks2, cs2, m2)"
      using st rp(8) ps(2) write_back_curr [of f _ ks cs slot n']
      by (auto simp: parent_step_def Let_def write_back_def split: option.splits)
    moreover have "maxkey (last cs2) = maxkey (last ?cs)"
    proof -
      have "\<forall>n\<in>set ?cs. sentries n \<noteq> []" using kd(5) sshape_nonempty [OF n'(1)] by (intro all_update) auto
      then show ?thesis using last_entries [of ?cs] last_entries [OF kidsD(3,5) [OF rp(1)]] kd(3) rp(2) by simp
    qed
    ultimately have "removed c key l ks cs slot m f"
      using rp ps(5) ent mem_step_trans [OF mem rp(3)] by (simp add: removed_def split: option.splits)
    with f(1) show ?thesis by blast
  qed
qed

section \<open>The descent\<close>

lemma last_of_removed:
  assumes "skeys d" "d \<noteq> []" "slot < length d" "fst (d ! slot) = key" "slot \<noteq> length d - 1"
  shows "last (kv_remove key d) = last d"
proof -
  have "kv_remove key d = take slot d @ drop (Suc slot) d" using kv_remove_at [OF assms(1,3,4)] by simp
  moreover have "drop (Suc slot) d \<noteq> []" using assms(3,5) by simp
  ultimately show ?thesis by (simp add: last_drop)
qed

lemma length_kv_remove:
  assumes "skeys d" "key \<in> fst ` set d"
  shows "Suc (length (kv_remove key d)) = length d"
proof -
  obtain slot where s: "slot < length d" "fst (d ! slot) = key" using assms(2) by (metis imageE in_set_conv_nth)
  show ?thesis using kv_remove_at [OF assms(1) s, symmetric] s(1) by simp
qed

lemma erase_leaf_not_found:
  assumes "skeys d" "key \<notin> fst ` set d"
  shows "erase_leaf c key m a d left right lp rp parent ps =
    Some \<lparr>f_left = left, f_curr = Some (SLeaf a d), f_right = right, f_keys = pkeys parent, f_mem = m, f_res = btree_not_found\<rparr>"
proof -
  define slot where "slot = rank_less key (map fst d)"
  have "\<not> (slot < length d \<and> fst (d ! slot) = key)" using rank_less_found [OF assms(1) slot_def] assms(2) by simp
  then have "length d \<le> slot \<or> \<not> key_equal key (fst (d ! slot))" by auto
  then show ?thesis unfolding erase_leaf_def find_lower_rank slot_def [symmetric] Let_def by (simp only: if_True)
qed

text \<open>An item is found: the leaf without it, and whether the parent has to learn a new largest key.\<close>

lemma erase_leaf_found:
  assumes d: "skeys d" "key \<in> fst ` set d" "2 \<le> length d"
  obtains lk where "case lk of None \<Rightarrow> maxkey (SLeaf a (kv_remove key d)) = maxkey (SLeaf a d)
      | Some k \<Rightarrow> k = maxkey (SLeaf a (kv_remove key d))"
    and "erase_leaf c key m a d left right lp rp parent ps =
      (case pass_up parent ps lk of (pk, res) \<Rightarrow>
        let g = \<lparr>f_left = left, f_curr = Some (SLeaf a (kv_remove key d)), f_right = right, f_keys = pk, f_mem = m, f_res = res\<rparr>
        in if isunderflow c (SLeaf a (kv_remove key d)) \<and> parent \<noteq> None
           then fix_leaf c lp rp (map_option fst parent) ps g else Some g)"
proof -
  define slot where "slot = rank_less key (map fst d)"
  define d' where "d' = kv_remove key d"
  have s: "slot < length d" "fst (d ! slot) = key" using rank_less_found [OF d(1) slot_def] d(2) by simp_all
  have d': "take slot d @ drop (slot + 1) d = d'" using kv_remove_at [OF d(1) s] by (simp add: d'_def)
  have len: "Suc (length d') = length d" unfolding d'_def by (rule length_kv_remove [OF d(1,2)])
  then have ne: "d' \<noteq> []" "length d' \<ge> 1" using d(3) by auto
  define lk where "lk = (if slot = length d' then Some (fst (d' ! (length d' - 1))) else None)"
  have "erase_leaf c key m a d left right lp rp parent ps =
      (case pass_up parent ps lk of (pk, res) \<Rightarrow>
        let g = \<lparr>f_left = left, f_curr = Some (SLeaf a d'), f_right = right, f_keys = pk, f_mem = m, f_res = res\<rparr>
        in if isunderflow c (SLeaf a d') \<and> parent \<noteq> None then fix_leaf c lp rp (map_option fst parent) ps g else Some g)"
    using s ne unfolding erase_leaf_def find_lower_rank slot_def [symmetric] Let_def d'
    by (simp add: pass_up_def lk_def)
  moreover have "case lk of None \<Rightarrow> maxkey (SLeaf a d') = maxkey (SLeaf a d) | Some k \<Rightarrow> k = maxkey (SLeaf a d')"
  proof (cases "slot = length d'")
    case True
    then show ?thesis using last_conv_max [OF ne(1), of a] by (simp add: lk_def)
  next
    case False
    then have "slot \<noteq> length d - 1" "d \<noteq> []" using len by auto
    then show ?thesis using last_of_removed [OF d(1) _ s] False by (simp add: lk_def maxkey_def d'_def)
  qed
  ultimately show thesis using that [of lk] by (simp only: d'_def)
qed

lemma child_frames:
  assumes fr: "\<forall>j. lp = Some j \<longrightarrow> l < j" "\<forall>j. rp = Some j \<longrightarrow> l < j"
    and "child_left l cs slot left lp = (myleft, mylp)" "child_right l ks cs slot right rp = (myright, myrp)"
  shows "frame_ok l ks cs slot myleft myright mylp myrp"
  using assms by (auto simp: frame_ok_def child_left_def child_right_def split: if_splits)

lemma mem_step_inner: "mem_step m cs m' cs' \<Longrightarrow> mem_step m [SInner l ks cs] m' [SInner l ks' cs']"
proof -
  assume st: "mem_step m cs m' cs'"
  have "st_innernodes m' = X + Suc (sum_list (map ninner cs'))" if "st_innernodes m = X + Suc (sum_list (map ninner cs))" for X
  proof -
    have "st_innernodes m = Suc X + sum_list (map ninner cs)" using that by simp
    then have "st_innernodes m' = Suc X + sum_list (map ninner cs')" using st unfolding mem_step_def by blast
    then show ?thesis by simp
  qed
  then show ?thesis using st by (simp add: mem_step_def)
qed

lemma erase_inner_step:
  assumes slot: "slot = rank_less key ks" "slot < length cs"
    and ch: "child_left l cs slot left lp = (myleft, mylp)" "child_right l ks cs slot right rp = (myright, myrp)"
    and f: "erase_one_descend c key m (cs ! slot) myleft myright mylp myrp (Some (l, ks)) slot = Some f"
    and st: "parent_step l ks cs slot f = (ks', cs', m')" and up: "pass_up parent ps (r_lastkey (f_res f)) = (pk, res)"
    and g: "g = \<lparr>f_left = left, f_curr = Some (SInner l ks' cs'), f_right = right, f_keys = pk, f_mem = m', f_res = res\<rparr>"
  shows "erase_one_descend c key m (SInner l ks cs) left right lp rp parent ps =
    (if r_not_found (f_res f) then
       Some \<lparr>f_left = left, f_curr = Some (SInner l ks cs), f_right = right, f_keys = pkeys parent, f_mem = f_mem f, f_res = f_res f\<rparr>
     else if isunderflow c (SInner l ks' cs') \<and> \<not> (parent = None \<and> length ks' \<ge> 1)
     then fix_inner c lp rp (map_option fst parent) ps g else Some g)"
proof -
  have up': "(case r_lastkey (f_res f) of Some k \<Rightarrow> put_lastkey parent ps k | None \<Rightarrow> (pkeys parent, btree_ok)) = (pk, res)"
    using up by (simp add: pass_up_def)
  have st': "(if r_fixmerge (f_res f) then drop_merged l (f_keys f) (write_back ks cs slot f) slot (f_mem f)
      else (f_keys f, write_back ks cs slot f, f_mem f)) = (ks', cs', m')"
    using st by (simp only: parent_step_def Let_def)
  have "find_lower ks key = slot" using slot(1) by simp
  then show ?thesis
    by (simp only: erase_one_descend.simps Let_def slot(2) ch prod.case if_True f option.case up' st' g)
qed

declare erase_one_descend.simps(2) [simp del]

lemma erase_child:
  fixes n :: "('k::linorder, 'v) snode"
  assumes "kids c l ks cs" "ks \<noteq> []" "skeys (concat (map sentries cs))" "slot = rank_less key ks" "n = cs ! slot"
    "frame_ok l ks cs slot left right lp rp"
  shows "\<exists>f. erase_one_descend c key m n left right lp rp (Some (l, ks)) slot = Some f \<and>
    (if key \<in> fst ` set (sentries n) then removed c key l ks cs slot m f else r_not_found (f_res f) \<and> f_mem f = m)"
  using assms
proof (induction n arbitrary: l ks cs slot left right lp rp)
  case (SLeaf a d)
  note kd = kidsD [OF SLeaf.prems(1)]
  have slot: "slot < length cs" by (rule child_bounds(1) [OF SLeaf.prems(3) kd(5,2,1) SLeaf.prems(4)])
  have n: "cs ! slot = SLeaf a d" "SLeaf a d \<in> set cs" using SLeaf.prems(5) nth_mem [OF slot] by simp_all
  have d: "skeys d" using sorted_child(1) [OF SLeaf.prems(3) slot] n(1) by simp
  have sz: "minleafslots c \<le> length d" "length d \<le> leafslotmax c" "Suc 0 = l" using kd(4) n(2) by auto
  have min: "4 \<le> minleafslots c" by (simp add: minleafslots_def leafslotmax_def)
  show ?case
  proof (cases "key \<in> fst ` set d")
    case False
    with erase_leaf_not_found [OF d False] show ?thesis by (simp add: btree_not_found_def)
  next
    case True
    let ?n = "SLeaf a (kv_remove key d)"
    have len: "Suc (length (kv_remove key d)) = length d" by (rule length_kv_remove [OF d True])
    have "2 \<le> length d" using sz min by simp
    then obtain lk where lk: "case lk of None \<Rightarrow> maxkey ?n = maxkey (SLeaf a d) | Some k \<Rightarrow> k = maxkey ?n"
      and e: "erase_leaf c key m a d left right lp rp (Some (l, ks)) slot =
        (case pass_up (Some (l, ks)) slot lk of (pk, res) \<Rightarrow>
          let g = \<lparr>f_left = left, f_curr = Some ?n, f_right = right, f_keys = pk, f_mem = m, f_res = res\<rparr>
          in if isunderflow c ?n \<and> Some (l, ks) \<noteq> None
             then fix_leaf c lp rp (map_option fst (Some (l, ks))) slot g else Some g)"
      by (rule erase_leaf_found [OF d True])
    obtain pk res where up: "pass_up (Some (l, ks)) slot lk = (pk, res)" by force
    define g where "g = \<lparr>f_left = left, f_curr = Some ?n, f_right = right, f_keys = pk, f_mem = m, f_res = res\<rparr>"
    have eq: "erase_leaf c key m a d left right lp rp (Some (l, ks)) slot =
        (if isunderflow c ?n then fix_leaf c lp rp (Some l) slot g else Some g)"
      using e unfolding up g_def by (simp add: Let_def)
    have n': "sshape c ?n" "Suc (slevel ?n) = l" "sentries ?n = kv_remove key (sentries (cs ! slot))"
      "mem_step m [cs ! slot] m [?n]"
      using n(1) sz len min by (auto simp: mem_step_def)
    note lk' = lk [folded n(1)]
    have "\<exists>f. erase_leaf c key m a d left right lp rp (Some (l, ks)) slot = Some f \<and> removed c key l ks cs slot m f"
    proof (rule removed_step [OF SLeaf.prems(1-4,6) n' lk' up g_def])
      assume u: "isunderflow c ?n" and sc: "short_child c l (cs[slot := ?n]) slot ?n g"
        and fr: "frame_ok l (f_keys g) (cs[slot := ?n]) slot (f_left g) (f_right g) lp rp"
      show "\<exists>f. erase_leaf c key m a d left right lp rp (Some (l, ks)) slot = Some f \<and> repair_ok c l (cs[slot := ?n]) slot g f"
        using fix_leaf_ok [OF sc _ _ fr] u eq len sz(1) by simp
    qed (simp add: eq)
    with True show ?thesis by simp
  qed
next
  case (SInner l1 ks1 cs1)
  note kd = kidsD [OF SInner.prems(1)]
  have slot: "slot < length cs" by (rule child_bounds(1) [OF SInner.prems(3) kd(5,2,1) SInner.prems(4)])
  have n: "cs ! slot = SInner l1 ks1 cs1" "SInner l1 ks1 cs1 \<in> set cs"
    using SInner.prems(5) nth_mem [OF slot] by simp_all
  have sk1: "skeys (concat (map sentries cs1))" using sorted_child(1) [OF SInner.prems(3) slot] n(1) by simp
  have k1: "kids c l1 ks1 cs1" "ks1 \<noteq> []" "length ks1 \<le> innerslotmax c" "mininnerslots c \<le> length ks1" "l = Suc l1"
    using kd(4) n(2) by (auto simp: sshape_kids)
  note kd1 = kidsD [OF k1(1)]
  define slot1 where "slot1 = rank_less key ks1"
  have s1: "slot1 < length cs1" by (rule child_bounds(1) [OF sk1 kd1(5,2,1) slot1_def])
  obtain myleft mylp where cl: "child_left l1 cs1 slot1 left lp = (myleft, mylp)" by force
  obtain myright myrp where cr: "child_right l1 ks1 cs1 slot1 right rp = (myright, myrp)" by force
  have up: "\<forall>j. lp = Some j \<longrightarrow> l1 < j" "\<forall>j. rp = Some j \<longrightarrow> l1 < j"
    using SInner.prems(6) k1(5) by (auto simp: frame_ok_def split: if_splits)
  from SInner.IH [OF nth_mem [OF s1] k1(1,2) sk1 slot1_def refl child_frames [OF up cl cr]] obtain f where
    f: "erase_one_descend c key m (cs1 ! slot1) myleft myright mylp myrp (Some (l1, ks1)) slot1 = Some f"
      "if key \<in> fst ` set (sentries (cs1 ! slot1)) then removed c key l1 ks1 cs1 slot1 m f
       else r_not_found (f_res f) \<and> f_mem f = m" by blast
  have mem: "key \<in> fst ` set (sentries (SInner l1 ks1 cs1)) \<longleftrightarrow> key \<in> fst ` set (sentries (cs1 ! slot1))"
    using kv_remove_child(2) [OF sk1 kd1(5,2,1) slot1_def] by simp
  obtain ks' cs' m' where st: "parent_step l1 ks1 cs1 slot1 f = (ks', cs', m')" by (metis prod_cases3)
  obtain pk res where pu: "pass_up (Some (l, ks)) slot (r_lastkey (f_res f)) = (pk, res)" by force
  let ?n = "SInner l1 ks' cs'"
  define g where "g = \<lparr>f_left = left, f_curr = Some ?n, f_right = right, f_keys = pk, f_mem = m', f_res = res\<rparr>"
  note step = erase_inner_step [OF slot1_def s1 cl cr f(1) st pu g_def]
  show ?case
  proof (cases "key \<in> fst ` set (sentries (cs1 ! slot1))")
    case False
    with f(2) step mem show ?thesis by simp
  next
    case True
    with f(2) st have rm: "\<not> r_not_found (f_res f)" "kids c l1 ks' cs'"
      "concat (map sentries cs') = kv_remove key (concat (map sentries cs1))" "mem_step m cs1 m' cs'"
      "length cs1 \<le> Suc (length cs')" "length cs' \<le> length cs1"
      "case r_lastkey (f_res f) of None \<Rightarrow> maxkey (last cs') = maxkey (last cs1) | Some k \<Rightarrow> k = maxkey (last cs')"
      by (simp_all add: removed_def)
    have eq: "erase_one_descend c key m (SInner l1 ks1 cs1) left right lp rp (Some (l, ks)) slot =
        (if isunderflow c ?n then fix_inner c lp rp (Some l) slot g else Some g)"
      using step rm(1) by simp
    have min: "4 \<le> mininnerslots c" by (simp add: mininnerslots_def innerslotmax_def)
    have len: "length ks1 \<le> Suc (length ks')" "length ks' \<le> length ks1"
      using rm(5,6) kidsD(1) [OF rm(2)] kd1(1) by auto
    then have ne: "ks' \<noteq> []" using k1(4) min by auto
    have n': "sshape c ?n" "Suc (slevel ?n) = l" "sentries ?n = kv_remove key (sentries (cs ! slot))"
      "mem_step m [cs ! slot] m' [?n]"
      using rm(2,3) ne len k1(3,5) n(1) mem_step_inner [OF rm(4)] by (auto simp: sshape_kids)
    have lk: "case r_lastkey (f_res f) of None \<Rightarrow> maxkey ?n = maxkey (cs ! slot) | Some k \<Rightarrow> k = maxkey ?n"
      using rm(7) inner_max [OF rm(2)] inner_max [OF k1(1)] n(1) by (simp split: option.splits)
    have "\<exists>f. erase_one_descend c key m (SInner l1 ks1 cs1) left right lp rp (Some (l, ks)) slot = Some f
        \<and> removed c key l ks cs slot m f"
    proof (rule removed_step [OF SInner.prems(1-4,6) n' lk pu g_def])
      assume u: "isunderflow c ?n" and sc: "short_child c l (cs[slot := ?n]) slot ?n g"
        and fr: "frame_ok l (f_keys g) (cs[slot := ?n]) slot (f_left g) (f_right g) lp rp"
      show "\<exists>f. erase_one_descend c key m (SInner l1 ks1 cs1) left right lp rp (Some (l, ks)) slot = Some f
          \<and> repair_ok c l (cs[slot := ?n]) slot g f"
        using fix_inner_ok [OF sc [unfolded k1(5)] _ _ fr [unfolded k1(5)]] u eq len(1) k1(4,5) by simp
    qed (simp add: eq)
    with True mem show ?thesis by simp
  qed
qed

section \<open>Deletion from the tree\<close>

lemma dll_of_mem_step:
  assumes "mem_step m [r] m' [r']" "dll m (saddrs r)" "st_innernodes m = ninner r"
  shows "dll m' (saddrs r')" "st_innernodes m' = ninner r'"
proof -
  have "dll m ([] @ map fst (leaves_of [r]) @ [])" using assms(2) by simp
  then have "dll m' ([] @ map fst (leaves_of [r']) @ [])" using assms(1) unfolding mem_step_def by blast
  then show "dll m' (saddrs r')" by simp
  have "st_innernodes m = 0 + sum_list (map ninner [r])" using assms(3) by simp
  then have "st_innernodes m' = 0 + sum_list (map ninner [r'])" using assms(1) unfolding mem_step_def by blast
  then show "st_innernodes m' = ninner r'" by simp
qed

lemma erase_root_leaf:
  assumes ok: "stx_ok c s" and r: "m_root s = Some (SLeaf a d)" and key: "key \<in> fst ` set d"
  shows "\<exists>s'. erase_one c s key = Some (s', True) \<and> stx_ok c s' \<and> stx_list s' = kv_remove key d"
proof -
  have d: "skeys d" "length d \<le> leafslotmax c" "dll (m_mem s) [a]" "st_innernodes (m_mem s) = 0" "itemcount s = length d"
    using ok r by (auto simp: stx_ok_def stx_list_def)
  have len: "Suc (length (kv_remove key d)) = length d" by (rule length_kv_remove [OF d(1) key])
  have sk: "skeys (kv_remove key d)" using d(1) by (simp add: kv_remove_def sorted_wrt_map sorted_wrt_filter)
  show ?thesis
  proof (cases "2 \<le> length d")
    case True
    let ?n = "SLeaf a (kv_remove key d)"
    obtain lk where e: "erase_leaf c key (m_mem s) a d None None None None None 0 =
        (case pass_up None 0 lk of (pk, res) \<Rightarrow>
          let g = \<lparr>f_left = None, f_curr = Some ?n, f_right = None, f_keys = pk, f_mem = m_mem s, f_res = res\<rparr>
          in if isunderflow c ?n \<and> (None :: (nat \<times> 'a list) option) \<noteq> None
             then fix_leaf c None None (map_option fst (None :: (nat \<times> 'a list) option)) 0 g else Some g)"
      by (rule erase_leaf_found [OF d(1) key True])
    obtain pk res where up: "pass_up None 0 lk = (pk, res)" by force
    then have "\<not> r_not_found res"
      by (auto simp: pass_up_def put_lastkey_def btree_ok_def btree_update_lastkey_def split: option.splits)
    moreover have "erase_one_descend c key (m_mem s) (SLeaf a d) None None None None None 0 =
        Some \<lparr>f_left = None, f_curr = Some ?n, f_right = None, f_keys = pk, f_mem = m_mem s, f_res = res\<rparr>"
      using e up by (simp add: Let_def)
    ultimately show ?thesis using d len sk True r
      by (auto simp: erase_one_def stx_ok_def stx_list_def Let_def)
  next
    case False
    then obtain x where x: "d = [x]" "fst x = key" using key by (cases d; cases "tl d") auto
    have "0 < minleafslots c" by (simp add: minleafslots_def leafslotmax_def)
    then have "erase_one_descend c key (m_mem s) (SLeaf a d) None None None None None 0 =
        Some \<lparr>f_left = None, f_curr = None, f_right = None, f_keys = [],
          f_mem = (free_node (SLeaf a ([] :: ('a, 'b) kvs)) (m_mem s))\<lparr>m_headleaf := None, m_tailleaf := None\<rparr>, f_res = btree_ok\<rparr>"
      using x by (simp add: erase_leaf_def rank_less_def pkeys_def fix_leaf_def choose_fix_def Let_def)
    moreover have "kv_remove key d = []" using x by (simp add: kv_remove_def)
    ultimately show ?thesis using d r x
      by (auto simp: erase_one_def stx_ok_def stx_list_def Let_def btree_ok_def dll_def free_node_def)
  qed
qed

lemma erase_root_inner:
  assumes ok: "stx_ok c s" and r: "m_root s = Some (SInner l ks cs)" and key: "key \<in> fst ` set (stx_list s)"
  shows "\<exists>s'. erase_one c s key = Some (s', True) \<and> stx_ok c s' \<and> stx_list s' = kv_remove key (stx_list s)"
proof -
  have R: "kids c l ks cs" "ks \<noteq> []" "length ks \<le> innerslotmax c" "skeys (concat (map sentries cs))"
    "dll (m_mem s) (saddrs (SInner l ks cs))" "st_innernodes (m_mem s) = ninner (SInner l ks cs)"
    "stx_list s = concat (map sentries cs)" "itemcount s = length (concat (map sentries cs))"
    using ok r by (auto simp: stx_ok_def stx_list_def sshape_kids)
  note kd = kidsD [OF R(1)]
  define slot where "slot = rank_less key ks"
  have sl: "slot < length cs" by (rule child_bounds(1) [OF R(4) kd(5,2,1) slot_def])
  obtain myleft mylp where cl: "child_left l cs slot (None :: ('a, 'b) snode option) None = (myleft, mylp)" by force
  obtain myright myrp where cr: "child_right l ks cs slot (None :: ('a, 'b) snode option) None = (myright, myrp)" by force
  have fr: "frame_ok l ks cs slot myleft myright mylp myrp" by (rule child_frames [OF _ _ cl cr]) simp_all
  have "key \<in> fst ` set (sentries (cs ! slot))"
    using kv_remove_child(2) [OF R(4) kd(5,2,1) slot_def] key R(7) by simp
  then obtain f where f: "erase_one_descend c key (m_mem s) (cs ! slot) myleft myright mylp myrp (Some (l, ks)) slot = Some f"
    "removed c key l ks cs slot (m_mem s) f"
    using erase_child [OF R(1,2,4) slot_def refl fr, of "m_mem s"] by auto
  obtain ks' cs' m' where st: "parent_step l ks cs slot f = (ks', cs', m')" by (metis prod_cases3)
  have rm: "\<not> r_not_found (f_res f)" "kids c l ks' cs'"
      "concat (map sentries cs') = kv_remove key (concat (map sentries cs))" "mem_step (m_mem s) cs m' cs'"
      "length cs \<le> Suc (length cs')" "length cs' \<le> length cs"
    using f(2) st by (simp_all add: removed_def)
  obtain pk res where pu: "pass_up None 0 (r_lastkey (f_res f)) = (pk, res)" by force
  then have res: "\<not> r_not_found res"
    by (auto simp: pass_up_def put_lastkey_def btree_ok_def btree_update_lastkey_def split: option.splits)
  let ?n = "SInner l ks' cs'"
  define g :: "('a, 'b) sframe" where
    "g = \<lparr>f_left = None, f_curr = Some ?n, f_right = None, f_keys = pk, f_mem = m', f_res = res\<rparr>"
  note step = erase_inner_step [OF slot_def sl cl cr f(1) st pu g_def]
  note mem = dll_of_mem_step [OF mem_step_inner [OF rm(4), of l ks ks'] R(5,6)]
  have sk: "skeys (kv_remove key (concat (map sentries cs)))"
    using R(4) by (simp add: kv_remove_def sorted_wrt_map sorted_wrt_filter)
  have cnt: "length (concat (map sentries cs')) = itemcount s - 1"
    using length_kv_remove [OF R(4), of key] key R(7,8) rm(3) by simp
  have len': "length ks' \<le> innerslotmax c" using rm(6) kidsD(1) [OF rm(2)] kd(1) R(3) by simp
  show ?thesis
  proof (cases "ks' = []")
    case False
    then have "erase_one_descend c key (m_mem s) (SInner l ks cs) None None None None None 0 = Some g"
      using step rm(1) by (simp add: Suc_le_eq)
    then show ?thesis using r R(7) rm(2,3) mem sk cnt len' False res
      by (auto simp: erase_one_def stx_ok_def stx_list_def Let_def sshape_kids g_def)
  next
    case True
    then obtain n where n: "cs' = [n]" using kidsD(1) [OF rm(2)] by (auto simp: length_Suc_conv)
    have ns: "sshape c n" using kidsD(4) [OF rm(2)] n by simp
    have "0 < mininnerslots c" by (simp add: mininnerslots_def innerslotmax_def)
    then have "erase_one_descend c key (m_mem s) (SInner l ks cs) None None None None None 0 =
        Some (g\<lparr>f_curr := Some n, f_res := btree_ok, f_mem := free_node ?n m'\<rparr>)"
      using step rm(1) True n by (simp add: fix_inner_def choose_fix_def g_def)
    then show ?thesis using r R(7) rm(3) mem sk cnt ns n
      by (auto simp: erase_one_def stx_ok_def stx_list_def Let_def btree_ok_def) (simp add: free_node_def)
  qed
qed

lemma erase_one_correct:
  assumes ok: "stx_ok c s"
  shows "\<exists>s'. erase_one c s key = Some (s', key \<in> fst ` set (stx_list s)) \<and> stx_ok c s'
    \<and> stx_list s' = kv_remove key (stx_list s)"
proof (cases "m_root s")
  case None
  with ok show ?thesis by (simp add: erase_one_def stx_no_root kv_remove_def)
next
  case (Some r)
  show ?thesis
  proof (cases "key \<in> fst ` set (stx_list s)")
    case True
    then show ?thesis
      using erase_root_leaf [OF ok] erase_root_inner [OF ok] Some by (cases r) (auto simp: stx_list_def)
  next
    case False
    then have "kv_remove key (stx_list s) = stx_list s" by (rule kv_remove_other)
    moreover have "\<exists>f. erase_one_descend c key (m_mem s) r None None None None None 0 = Some f \<and> r_not_found (f_res f)
        \<and> f_mem f = m_mem s \<and> f_curr f = Some r"
    proof (cases r)
      case (SLeaf a d)
      have "skeys d" "key \<notin> fst ` set d" using ok Some SLeaf False by (auto simp: stx_ok_def stx_list_def)
      then show ?thesis using erase_leaf_not_found [of d key] SLeaf by (simp add: btree_not_found_def)
    next
      case (SInner l ks cs)
      have R: "kids c l ks cs" "ks \<noteq> []" "skeys (concat (map sentries cs))" "key \<notin> fst ` set (concat (map sentries cs))"
        using ok Some SInner False by (auto simp: stx_ok_def stx_list_def sshape_kids)
      note kd = kidsD [OF R(1)]
      define slot where "slot = rank_less key ks"
      have sl: "slot < length cs" by (rule child_bounds(1) [OF R(3) kd(5,2,1) slot_def])
      obtain myleft mylp where cl: "child_left l cs slot (None :: ('a, 'b) snode option) None = (myleft, mylp)" by force
      obtain myright myrp where cr: "child_right l ks cs slot (None :: ('a, 'b) snode option) None = (myright, myrp)" by force
      have fr: "frame_ok l ks cs slot myleft myright mylp myrp" by (rule child_frames [OF _ _ cl cr]) simp_all
      have "key \<notin> fst ` set (sentries (cs ! slot))"
        using kv_remove_child(2) [OF R(3) kd(5,2,1) slot_def] R(4) by simp
      then obtain f where f: "erase_one_descend c key (m_mem s) (cs ! slot) myleft myright mylp myrp (Some (l, ks)) slot = Some f"
        "r_not_found (f_res f)" "f_mem f = m_mem s"
        using erase_child [OF R(1,2,3) slot_def refl fr, of "m_mem s"] by auto
      obtain ks' cs' m' where st: "parent_step l ks cs slot f = (ks', cs', m')" by (metis prod_cases3)
      obtain pk res where pu: "pass_up None 0 (r_lastkey (f_res f)) = (pk, res)" by force
      show ?thesis using erase_inner_step [OF slot_def sl cl cr f(1) st pu refl] f SInner by simp
    qed
    ultimately show ?thesis using False Some ok by (auto simp: erase_one_def Let_def stx_ok_def stx_list_def)
  qed
qed

end
