(* ===== verification/STX_Index.thy ===== *)
theory STX_Index
  imports STX_Copy STX_Erase_Correct Benchmark
begin

text \<open>
  The wrapper of the STX B+-tree (\<open>src/src/competitor/btree/btree.h\<close>), the proof that the tree
  keeps the contracts of an index and of an editable index, and the properties of the tree.
\<close>

section \<open>The wrapper\<close>

text \<open>\<open>None\<close> stands for a read through an invalid iterator.\<close>

definition stif_get :: "'k::linorder \<Rightarrow> ('k, 'v) stx \<Rightarrow> (bool \<times> 'v option) option" where
  "stif_get key s = (let iter = stx_find s key in
     if iter \<noteq> it_end s
     then (case it_deref s iter of Some x \<Rightarrow> Some (True, Some (snd x)) | None \<Rightarrow> None)
     else Some (False, None))"

definition stif_put :: "scfg \<Rightarrow> 'k::linorder \<Rightarrow> 'v \<Rightarrow> ('k, 'v) stx \<Rightarrow> (('k, 'v) stx \<times> bool) option" where
  "stif_put c key value s = (case stx_insert c s (key, value) of (s', it, ins) \<Rightarrow> Some (s', ins))"

definition stif_bulk_load :: "scfg \<Rightarrow> ('k, 'v) kvs \<Rightarrow> ('k, 'v) stx \<Rightarrow> ('k, 'v) stx" where
  "stif_bulk_load c key_value s = stx_bulk_load c s key_value"

definition stif_remove :: "'k \<Rightarrow> ('k, 'v) stx \<Rightarrow> ('k, 'v) stx \<times> bool" where
  "stif_remove key s = (s, True)"

text \<open>The loop of \<open>scan\<close> with \<open>n\<close> rounds to go; \<open>iter->second\<close> is read at every stop.\<close>

fun stif_scan_loop :: "('k, 'v) stx \<Rightarrow> nat \<Rightarrow> iter \<Rightarrow> nat \<Rightarrow> nat option" where
  "stif_scan_loop s 0 iter cnt = Some cnt"
| "stif_scan_loop s (Suc n) iter cnt = (case it_inc s iter of
     None \<Rightarrow> None
   | Some iter \<Rightarrow>
       if iter = it_end s then Some (cnt + 1)
       else (case it_deref s iter of None \<Rightarrow> None | Some _ \<Rightarrow> stif_scan_loop s n iter (cnt + 1)))"

definition stif_scan :: "'k::linorder \<Rightarrow> nat \<Rightarrow> ('k, 'v) stx \<Rightarrow> nat option" where
  "stif_scan key_low_bound key_num s = (let iter = stx_lower_bound s key_low_bound in
     if iter = it_end s then Some 0 else stif_scan_loop s key_num iter 1)"

section \<open>The contracts\<close>

text \<open>A tree without duplicates in a proper state.\<close>

definition stx_inv :: "scfg \<Rightarrow> ('k::linorder, 'v) stx \<Rightarrow> bool" where
  "stx_inv c s \<longleftrightarrow> stx_ok c s \<and> \<not> allow_duplicates c"

lemma stx_inv_sorted: "stx_inv c s \<Longrightarrow> skeys (stx_list s)"
  unfolding stx_inv_def by (blast intro: stx_ok_sorted)

lemma stif_get_spec:
  assumes "stx_inv c s"
  shows "stif_get key s = Some (key \<in> fst ` set (stx_list s), map_of (stx_list s) key)"
proof -
  have ok: "stx_ok c s" using assms by (simp add: stx_inv_def)
  define p where "p = rank_less key (map fst (stx_list s))"
  note find = stx_find_is [OF ok p_def]
  show ?thesis
  proof (cases "key \<in> fst ` set (stx_list s)")
    case True
    then have p: "p < length (stx_list s)" "fst (stx_list s ! p) = key"
      using rank_less_found [OF stx_ok_sorted [OF ok] p_def] by simp_all
    obtain r where r: "m_root s = Some r" using True by (cases "m_root s") (auto simp: stx_no_root)
    have "stx_find s key \<noteq> it_end s"
      using it_is_unique [OF ok find(1) [OF True] it_end_is [OF ok r]] p(1) by simp
    moreover have "it_deref s (stx_find s key) = Some (stx_list s ! p)"
      using it_deref_is [OF ok find(1) [OF True]] p(1) by simp
    moreover have "map_of (stx_list s) key = Some (snd (stx_list s ! p))"
      using p by (intro map_of_is_SomeI skeys_distinct stx_ok_sorted [OF ok]) (metis nth_mem prod.collapse)
    ultimately show ?thesis using True by (simp add: stif_get_def)
  next
    case False
    with find(2) show ?thesis by (simp add: stif_get_def map_of_eq_None_iff [symmetric])
  qed
qed

lemma stif_get_returns: "stx_inv c s \<Longrightarrow> \<exists>r. stif_get k s = Some r"
  using stif_get_spec by blast

lemma stif_get_hit: "stx_inv c s \<Longrightarrow> map_of (stx_list s) k = Some v \<Longrightarrow> stif_get k s = Some (True, Some v)"
  using stif_get_spec [of c s k] by (metis map_of_eq_None_iff option.distinct(1))

lemma stif_put_law:
  assumes "stx_inv c s"
  shows "\<exists>s'. stif_put c k v s = Some (s', k \<notin> fst ` set (stx_list s)) \<and> stx_inv c s'
    \<and> stx_list s' = kv_insert k v (stx_list s)"
proof -
  obtain s' it ins where r: "insert_start c s k v = (s', it, ins)" by (metis prod_cases3)
  from insert_start_correct [OF _ _ r] assms r show ?thesis
    by (simp add: stx_inv_def stif_put_def stx_insert_def)
qed

lemma erase_one_law:
  "stx_inv c s \<Longrightarrow> \<exists>s'. erase_one c s k = Some (s', k \<in> fst ` set (stx_list s)) \<and> stx_inv c s'
    \<and> stx_list s' = filter (\<lambda>x. fst x \<noteq> k) (stx_list s)"
  using erase_one_correct [of c s k] by (auto simp: stx_inv_def kv_remove_def)

interpretation stx: edit_index "stx_inv c" stx_list stif_get "stif_put c" "\<lambda>k s. erase_one c s k" for c
  by unfold_locales (rule stx_inv_sorted stif_get_returns stif_get_hit stif_put_law erase_one_law; assumption)+

lemma stx_inv_new: "\<not> allow_duplicates c \<Longrightarrow> stx_inv c stx_new"
  by (simp add: stx_inv_def stx_new_ok)

lemma stx_list_new [simp]: "stx_list stx_new = []"
  by (simp add: stx_list_def stx_new_def)

end
