(* ===== verification/STX_Contract.thy ===== *)
theory STX_Contract
  imports STX_Index
begin

text \<open>
  The properties of the STX B+-tree (\<open>src/src/competitor/btree/src/include/stx/btree.h\<close>) and of
  its wrapper, stated on the operations a client calls.
\<close>

section \<open>Iterating\<close>

text \<open>The loop \<open>for (it = ...; it != end(); ++it)\<close> of a client, with the pairs it visits.\<close>

fun it_walk :: "nat \<Rightarrow> ('k, 'v) stx \<Rightarrow> iter \<Rightarrow> ('k, 'v) kvs option" where
  "it_walk 0 s it = (if it = it_end s then Some [] else None)"
| "it_walk (Suc n) s it =
     (if it = it_end s then Some []
      else (case it_deref s it of None \<Rightarrow> None
        | Some x \<Rightarrow> (case it_inc s it of None \<Rightarrow> None | Some it' \<Rightarrow> map_option ((#) x) (it_walk n s it'))))"

lemma it_at_end:
  assumes ok: "stx_ok c s" and it: "it_is s it p"
  shows "it = it_end s \<longleftrightarrow> p = length (stx_list s)"
proof -
  obtain r where "m_root s = Some r" using it unfolding it_is_def by blast
  from it_is_unique [OF ok it it_end_is [OF ok this]] show ?thesis .
qed

lemma it_walk_from:
  assumes ok: "stx_ok c s" and "it_is s it p" and "length (stx_list s) - p \<le> n"
  shows "it_walk n s it = Some (drop p (stx_list s))"
  using assms(2,3)
proof (induction n arbitrary: it p)
  case 0
  then show ?case using it_at_end [OF ok 0(1)] it_is_le [OF 0(1)] by simp
next
  case (Suc n)
  show ?case
  proof (cases "p = length (stx_list s)")
    case False
    then have p: "p < length (stx_list s)" using it_is_le [OF Suc.prems(1)] by simp
    obtain it' where it': "it_inc s it = Some it'" "it_is s it' (Suc p)"
      using it_inc_is [OF ok Suc.prems(1)] p by (auto simp: min_def)
    have "it_walk n s it' = Some (drop (Suc p) (stx_list s))" using Suc.IH [OF it'(2)] Suc.prems(2) by simp
    moreover have "it_deref s it = Some (stx_list s ! p)" using it_deref_is [OF ok Suc.prems(1)] p by simp
    ultimately show ?thesis using False p it'(1) it_at_end [OF ok Suc.prems(1)] by (simp add: Cons_nth_drop_Suc)
  qed (use it_at_end [OF ok Suc.prems(1)] in simp)
qed

lemma no_root_ends:
  assumes "stx_ok c s" and "m_root s = None"
  shows "it_begin s = (None, 0)" "it_end s = (None, 0)"
  using assms by (auto simp: stx_ok_def dll_def it_begin_def it_end_def)

lemma it_walk_all:
  assumes ok: "stx_ok c s"
  shows "it_walk (stx_size s) s (it_begin s) = Some (stx_list s)"
proof (cases "m_root s")
  case None
  have "it_begin s = it_end s" using no_root_ends [OF ok None] by simp
  then show ?thesis using stx_no_root [OF None] by (cases "stx_size s") simp_all
next
  case (Some r)
  have "stx_size s = length (stx_list s)" using ok by (simp add: stx_ok_def stx_size_def)
  then show ?thesis using it_walk_from [OF ok it_begin_is [OF ok Some], of "stx_size s"] by simp
qed

section \<open>The scan of the wrapper\<close>

lemma stif_scan_loop_from:
  assumes ok: "stx_ok c s" and "it_is s it p" and "p < length (stx_list s)"
  shows "stif_scan_loop s n it cnt = Some (cnt + min n (length (stx_list s) - p))"
  using assms(2,3)
proof (induction n arbitrary: it p cnt)
  case (Suc n)
  obtain it' where it': "it_inc s it = Some it'" "it_is s it' (Suc p)"
    using it_inc_is [OF ok Suc.prems(1)] Suc.prems(2) by (auto simp: min_def)
  show ?case
  proof (cases "Suc p = length (stx_list s)")
    case True
    then show ?thesis using it' it_at_end [OF ok it'(2)] by auto
  next
    case False
    then have p: "Suc p < length (stx_list s)" using Suc.prems(2) by simp
    then have "length (stx_list s) - p = Suc (length (stx_list s) - Suc p)" by simp
    with p False Suc.IH [OF it'(2) p] it' it_at_end [OF ok it'(2)] it_deref_is [OF ok it'(2)] show ?thesis by simp
  qed
qed simp

lemma drop_rank_less: "skeys xs \<Longrightarrow> drop (rank_less key (map fst xs)) xs = filter (\<lambda>x. key \<le> fst x) xs"
proof (induction xs)
  case (Cons x xs)
  show ?case
  proof (cases "fst x < key")
    case False
    then have "filter (\<lambda>x. key \<le> fst x) xs = xs" using Cons.prems by (auto simp: filter_id_conv)
    with False show ?thesis by (simp add: rank_less_def)
  qed (use Cons in \<open>simp add: rank_less_def\<close>)
qed (simp add: rank_less_def)

lemma drop_rank_le: "skeys xs \<Longrightarrow> drop (rank_le key (map fst xs)) xs = filter (\<lambda>x. key < fst x) xs"
proof (induction xs)
  case (Cons x xs)
  show ?case
  proof (cases "fst x \<le> key")
    case False
    then have "filter (\<lambda>x. key < fst x) xs = xs" using Cons.prems by (auto simp: filter_id_conv)
    with False show ?thesis by (simp add: rank_le_def)
  qed (use Cons in \<open>simp add: rank_le_def\<close>)
qed (simp add: rank_le_def)

lemma rank_less_filter:
  "skeys xs \<Longrightarrow> length xs - rank_less key (map fst xs) = length (filter (\<lambda>x. key \<le> fst x) xs)"
  by (simp flip: drop_rank_less)

section \<open>Sizes\<close>

lemma sum_list_ge: "\<forall>x\<in>set xs. n \<le> f x \<Longrightarrow> length xs * n \<le> sum_list (map f xs :: nat list)"
  by (induction xs) auto

lemma sum_list_le: "\<forall>x\<in>set xs. f x \<le> n \<Longrightarrow> sum_list (map f xs :: nat list) \<le> length xs * n"
  by (induction xs) auto

lemma length_sentries_inner: "length (sentries (SInner l ks cs)) = sum_list (map (\<lambda>n. length (sentries n)) cs)"
  by (simp add: length_concat comp_def)

lemma sshape_below:
  assumes "sshape c (SInner l ks cs)"
  obtains h where "l = Suc h" "\<forall>n\<in>set cs. sshape c n \<and> slevel n = h \<and> \<not> isunderflow c n"
    "length cs = Suc (length ks)" "ks \<noteq> []" "length ks \<le> innerslotmax c"
proof -
  have sh: "\<forall>n\<in>set cs. sshape c n \<and> Suc (slevel n) = l \<and> \<not> isunderflow c n" "length cs = Suc (length ks)"
    "ks \<noteq> []" "length ks \<le> innerslotmax c" using assms unfolding sshape.simps by blast+
  then obtain n0 where "n0 \<in> set cs" by (cases cs) auto
  with sh have "l = Suc (slevel n0)" by auto
  with sh that [of "slevel n0"] show thesis by auto
qed

lemma entries_least:
  "sshape c n \<Longrightarrow> \<not> isunderflow c n \<Longrightarrow> minleafslots c * (mininnerslots c + 1) ^ slevel n \<le> length (sentries n)"
proof (induction n)
  case (SInner l ks cs)
  from SInner.prems(1) obtain h where h: "l = Suc h" "\<forall>n\<in>set cs. sshape c n \<and> slevel n = h \<and> \<not> isunderflow c n"
    "length cs = Suc (length ks)" by (rule sshape_below)
  have "\<forall>n\<in>set cs. minleafslots c * (mininnerslots c + 1) ^ h \<le> length (sentries n)"
    using h(2) SInner.IH by auto
  then have "length cs * (minleafslots c * (mininnerslots c + 1) ^ h) \<le> length (sentries (SInner l ks cs))"
    unfolding length_sentries_inner by (rule sum_list_ge)
  moreover have "mininnerslots c + 1 \<le> length cs" using SInner.prems(2) h(3) by simp
  then have "(mininnerslots c + 1) * (minleafslots c * (mininnerslots c + 1) ^ h)
      \<le> length cs * (minleafslots c * (mininnerslots c + 1) ^ h)" by (rule mult_le_mono1)
  ultimately have "(mininnerslots c + 1) * (minleafslots c * (mininnerslots c + 1) ^ h)
      \<le> length (sentries (SInner l ks cs))" by (rule order_trans [rotated])
  then show ?case by (simp only: h(1) slevel.simps power_Suc mult.left_commute)
qed simp

lemma entries_most:
  "sshape c n \<Longrightarrow> length (sentries n) \<le> leafslotmax c * (innerslotmax c + 1) ^ slevel n"
proof (induction n)
  case (SInner l ks cs)
  from SInner.prems obtain h where h: "l = Suc h" "\<forall>n\<in>set cs. sshape c n \<and> slevel n = h \<and> \<not> isunderflow c n"
    "length cs = Suc (length ks)" "length ks \<le> innerslotmax c" by (rule sshape_below)
  have "\<forall>n\<in>set cs. length (sentries n) \<le> leafslotmax c * (innerslotmax c + 1) ^ h"
    using h(2) SInner.IH by auto
  then have "length (sentries (SInner l ks cs)) \<le> length cs * (leafslotmax c * (innerslotmax c + 1) ^ h)"
    unfolding length_sentries_inner by (rule sum_list_le)
  also have "length cs \<le> innerslotmax c + 1" using h(3,4) by simp
  then have "length cs * (leafslotmax c * (innerslotmax c + 1) ^ h)
      \<le> (innerslotmax c + 1) * (leafslotmax c * (innerslotmax c + 1) ^ h)" by (rule mult_le_mono1)
  finally show ?case by (simp only: h(1) slevel.simps power_Suc mult.left_commute)
qed simp

lemma root_least:
  assumes "sshape c n" and "slevel n = Suc h"
  shows "2 * (minleafslots c * (mininnerslots c + 1) ^ h) \<le> length (sentries n)"
proof -
  obtain l ks cs where n: "n = SInner l ks cs" using assms(2) by (cases n) auto
  obtain cs_h where h: "l = Suc cs_h" "\<forall>n\<in>set cs. sshape c n \<and> slevel n = cs_h \<and> \<not> isunderflow c n"
    "length cs = Suc (length ks)" "ks \<noteq> []" using assms(1) unfolding n by (rule sshape_below)
  have "cs_h = h" using h(1) assms(2) n by simp
  with h(2) have "\<forall>n\<in>set cs. minleafslots c * (mininnerslots c + 1) ^ h \<le> length (sentries n)"
    using entries_least by metis
  then have "length cs * (minleafslots c * (mininnerslots c + 1) ^ h) \<le> length (sentries n)"
    unfolding n length_sentries_inner by (rule sum_list_ge)
  moreover have "2 \<le> length cs" using h(3,4) by (cases ks) auto
  then have "2 * (minleafslots c * (mininnerslots c + 1) ^ h) \<le> length cs * (minleafslots c * (mininnerslots c + 1) ^ h)"
    by (rule mult_le_mono1)
  ultimately show ?thesis by (rule order_trans [rotated])
qed

section \<open>Properties\<close>

text \<open>The configuration of the benchmark's 8 byte keys and values, and one with large keys.\<close>

definition scfg_u64 :: scfg where
  "scfg_u64 = \<lparr>key_size = 8, data_size = 8, allow_duplicates = False\<rparr>"

definition scfg_wide :: scfg where
  "scfg_wide = \<lparr>key_size = 200, data_size = 8, allow_duplicates = False\<rparr>"

lemma scfg_unique [simp]: "\<not> allow_duplicates scfg_u64" "\<not> allow_duplicates scfg_wide"
  by (simp_all add: scfg_u64_def scfg_wide_def)

lemma stx_inv_load:
  assumes "\<not> allow_duplicates c" and "skeys xs"
  shows "stx_inv c (stx_bulk_load c stx_new xs)" "stx_list (stx_bulk_load c stx_new xs) = xs"
  using stx_bulk_load_correct [OF stx_new_ok _ assms(2), of c] assms(1) by (simp_all add: stx_inv_def stx_new_def)

definition sample17 :: "(nat, nat) kvs" where
  "sample17 = map (\<lambda>i. (i, 10 * i)) [0..<17]"

lemma sample_ok:
  "stx_inv scfg_wide (stx_bulk_load scfg_wide stx_new sample17)"
  "stx_list (stx_bulk_load scfg_wide stx_new sample17) = sample17"
  by (rule stx_inv_load; code_simp)+

text \<open>
  C10: \<open>insert\<close> on a tree without duplicates keeps the invariant, adds the pair if the key is new
  and leaves the entries alone otherwise; the flag tells which, and the iterator points at the
  entry with the key.
\<close>

theorem stx_insert_contract:
  assumes "stx_inv c s"
  shows "\<exists>s' it. stx_insert c s (key, v) = (s', it, key \<notin> fst ` set (stx_list s)) \<and> stx_inv c s'
    \<and> stx_list s' = kv_insert key v (stx_list s) \<and> stx_size s' = length (stx_list s')
    \<and> map_option fst (it_deref s' it) = Some key"
proof -
  have ok: "stx_ok c s" "\<not> allow_duplicates c" using assms by (simp_all add: stx_inv_def)
  obtain s' it ins where r: "insert_start c s key v = (s', it, ins)" by (metis prod_cases3)
  note ins = insert_start_correct [OF ok r]
  from ins(4) obtain root where root: "m_root s' = Some root" "it_at it key (sleaves root)" by blast
  then obtain a d slot where it: "it = (Some a, slot)" "(a, d) \<in> set (sleaves root)" "slot < length d" "fst (d ! slot) = key"
    unfolding it_at_def by auto
  have "it_deref s' it = Some (d ! slot)"
    using leaf_at_mem [OF ins(1) root(1) it(2)] it by (simp add: it_deref_def)
  then have "map_option fst (it_deref s' it) = Some key" by (simp add: it(4))
  moreover have "stx_size s' = length (stx_list s')" using ins(1) by (simp add: stx_size_def stx_ok_def)
  moreover have "stx_insert c s (key, v) = (s', it, key \<notin> fst ` set (stx_list s))" using r ins(3) by (simp add: stx_insert_def)
  ultimately show ?thesis using ins(1,2) ok(2) unfolding stx_inv_def by blast
qed

theorem stx_insert_contract_witness:
  "stx_inv scfg_u64 (stx_new :: (nat, nat) stx) \<and>
   (\<exists>s it. stx_insert scfg_u64 (stx_new :: (nat, nat) stx) (5, 50) = (s, it, True) \<and> stx_list s = [(5, 50)]
     \<and> map_option fst (it_deref s it) = Some 5)"
proof -
  have ok: "stx_inv scfg_u64 (stx_new :: (nat, nat) stx)" by (simp add: stx_inv_new)
  from stx_insert_contract [OF this, of 5 50] ok show ?thesis by (auto simp: kv_insert_def)
qed





text \<open>
  C14: \<open>bulk_load\<close> of pairs in ascending key order into an empty tree builds a proper tree, and the
  loop over its iterators gives the pairs back in the order they came.
\<close>

theorem stx_bulk_load_roundtrip:
  assumes "stx_ok c s" and "m_root s = None" and "skeys xs"
  shows "stx_ok c (stx_bulk_load c s xs)
    \<and> it_walk (length xs) (stx_bulk_load c s xs) (it_begin (stx_bulk_load c s xs)) = Some xs"
proof -
  note load = stx_bulk_load_correct [OF assms]
  then have "stx_size (stx_bulk_load c s xs) = length xs" by (simp add: stx_ok_def stx_size_def)
  with it_walk_all [OF load(1)] load show ?thesis by simp
qed

theorem stx_bulk_load_roundtrip_witness:
  "it_walk 17 (stx_bulk_load scfg_wide stx_new sample17) (it_begin (stx_bulk_load scfg_wide stx_new sample17))
    = Some sample17"
proof -
  have s: "skeys sample17" "length sample17 = 17" "m_root (stx_new :: (nat, nat) stx) = None" by code_simp+
  from stx_bulk_load_roundtrip [OF stx_new_ok s(3,1), of scfg_wide] s(2) show ?thesis by simp
qed



text \<open>
  C16: the searches return the iterators the key order prescribes: \<open>lower_bound\<close> the first entry
  not below the key, \<open>upper_bound\<close> the first above it, both \<open>end()\<close> if there is none, and what is
  read from there on are exactly the entries from that bound on. \<open>find\<close> is \<open>lower_bound\<close> for a key
  that is there and \<open>end()\<close> otherwise, and \<open>exists\<close> and \<open>count\<close> agree with it.
\<close>

theorem stx_search_positions:
  assumes "stx_ok c s"
  shows "it_walk (stx_size s) s (stx_lower_bound s key) = Some (filter (\<lambda>x. key \<le> fst x) (stx_list s))
    \<and> it_walk (stx_size s) s (stx_upper_bound s key) = Some (filter (\<lambda>x. key < fst x) (stx_list s))
    \<and> stx_find s key = (if key \<in> fst ` set (stx_list s) then stx_lower_bound s key else it_end s)
    \<and> stx_exists s key = (key \<in> fst ` set (stx_list s))
    \<and> stx_count s key = Some (if key \<in> fst ` set (stx_list s) then 1 else 0)"
proof (cases "m_root s")
  case None
  have "it_walk n s (it_end s) = Some []" for n by (cases n) simp_all
  with None show ?thesis
    by (simp add: stx_no_root stx_lower_bound_def stx_upper_bound_def stx_find_def stx_exists_def stx_count_def)
next
  case (Some r)
  let ?xs = "stx_list s" and ?p = "rank_less key (map fst (stx_list s))"
  have sz: "stx_size s = length ?xs" using assms by (simp add: stx_ok_def stx_size_def)
  note srt = stx_ok_sorted [OF assms]
  have "it_walk (stx_size s) s (stx_lower_bound s key) = Some (filter (\<lambda>x. key \<le> fst x) ?xs)"
    using it_walk_from [OF assms lower_bound_is [OF assms Some, of key], of "stx_size s"]
    by (simp add: sz drop_rank_less [OF srt])
  moreover have "it_walk (stx_size s) s (stx_upper_bound s key) = Some (filter (\<lambda>x. key < fst x) ?xs)"
    using it_walk_from [OF assms upper_bound_is [OF assms Some, of key], of "stx_size s"]
    by (simp add: sz drop_rank_le [OF srt])
  moreover have "stx_find s key = stx_lower_bound s key" if "key \<in> fst ` set ?xs"
    using it_is_unique [OF assms stx_find_is(1) [OF assms refl that] lower_bound_is [OF assms Some]] by simp
  ultimately show ?thesis using stx_find_is(2,3) [OF assms refl] stx_count_is [OF assms, of key] by simp
qed

theorem stx_search_positions_witness:
  "stx_count (stx_bulk_load scfg_wide stx_new sample17) 8 = Some 1 \<and>
   it_walk 17 (stx_bulk_load scfg_wide stx_new sample17) (stx_upper_bound (stx_bulk_load scfg_wide stx_new sample17) 14)
    = Some [(15, 150), (16, 160)]"
proof -
  have f: "8 \<in> fst ` set sample17" "filter (\<lambda>x. 14 < fst x) sample17 = [(15, 150), (16, 160)]"
    "stx_size (stx_bulk_load scfg_wide stx_new sample17) = 17" by code_simp+
  have "stx_ok scfg_wide (stx_bulk_load scfg_wide stx_new sample17)" using sample_ok(1) by (simp add: stx_inv_def)
  from stx_search_positions [OF this, of 8] stx_search_positions [OF this, of 14] f sample_ok(2)
  show ?thesis by simp
qed

text \<open>
  The binary searches of \<open>find_lower\<close> and \<open>find_upper\<close>, which are compiled out, would return the
  slots the linear searches return, for every sorted key array.
\<close>

theorem stx_binary_search_agrees:
  assumes "sorted ks"
  shows "bin_lower ks key = find_lower ks key \<and> bin_upper ks key = find_upper ks key"
  using bin_lower_rank [OF assms] bin_upper_rank [OF assms] by simp_all

theorem stx_binary_search_agrees_witness:
  "sorted [2, 4, 4, 9::nat] \<and> bin_lower [2, 4, 4, 9::nat] 4 = 1 \<and> bin_upper [2, 4, 4, 9::nat] 4 = 3"
proof -
  have s: "sorted [2, 4, 4, 9::nat]" by simp
  show ?thesis using stx_binary_search_agrees [OF s, of 4] s by (auto simp: rank_less_def rank_le_def)
qed

text \<open>C37: assignment frees the target and makes it a proper tree with the entries of the source.\<close>

theorem stx_assign_copies:
  assumes "stx_ok c s" and "stx_ok c other"
  shows "stx_ok c (stx_assign s other) \<and> stx_list (stx_assign s other) = stx_list other
    \<and> it_walk (stx_size other) (stx_assign s other) (it_begin (stx_assign s other)) = Some (stx_list other)"
proof -
  note cp = stx_assign_correct [OF assms]
  have "stx_size (stx_assign s other) = stx_size other" using cp assms(2) by (simp add: stx_ok_def stx_size_def)
  with it_walk_all [OF cp(1)] cp show ?thesis by simp
qed

theorem stx_assign_copies_witness:
  "stx_ok scfg_wide (stx_assign stx_new (stx_bulk_load scfg_wide stx_new sample17)) \<and>
   stx_list (stx_assign stx_new (stx_bulk_load scfg_wide stx_new sample17)) = sample17"
proof -
  have "stx_ok scfg_wide (stx_bulk_load scfg_wide stx_new sample17)" using sample_ok(1) by (simp add: stx_inv_def)
  from stx_assign_copies [OF stx_new_ok this] sample_ok(2) show ?thesis by simp
qed



text \<open>
  C39: the number the scan of the wrapper returns is not the number of entries in the range. It is
  0 if no entry is at or above the start key; otherwise it is one more than the smaller of the
  requested number and the entries there, because the first entry and the end are both counted.
\<close>

theorem stif_scan_counts:
  assumes "stx_ok c s" and "rem = length (filter (\<lambda>x. key \<le> fst x) (stx_list s))"
  shows "stif_scan key n s = Some (if rem = 0 then 0 else 1 + min n rem)"
proof (cases "m_root s")
  case None
  with assms(2) show ?thesis by (simp add: stif_scan_def stx_lower_bound_def stx_no_root)
next
  case r: (Some r)
  note lb = lower_bound_is [OF assms(1) r, of key]
  have rem: "rem = length (stx_list s) - rank_less key (map fst (stx_list s))"
    using rank_less_filter [OF stx_ok_sorted [OF assms(1)], of key] assms(2) by simp
  show ?thesis
  proof (cases "rem = 0")
    case True
    with rem it_is_le [OF lb] it_at_end [OF assms(1) lb] show ?thesis by (simp add: stif_scan_def)
  next
    case False
    with rem stif_scan_loop_from [OF assms(1) lb, of n 1] it_at_end [OF assms(1) lb] show ?thesis
      by (simp add: stif_scan_def)
  qed
qed

theorem stif_scan_counts_witness:
  "stif_scan 14 10 (stx_bulk_load scfg_wide stx_new sample17) = Some 4 \<and> length (filter (\<lambda>x. 14 \<le> fst x) sample17) = 3"
proof -
  let ?s = "stx_bulk_load scfg_wide stx_new sample17"
  have ok: "stx_ok scfg_wide ?s" using sample_ok(1) by (simp add: stx_inv_def)
  have f: "length (filter (\<lambda>x. 14 \<le> fst x) sample17) = 3" by code_simp
  from stif_scan_counts [OF ok, of 3 14 10] f sample_ok(2) show ?thesis by simp
qed

end
