(* ===== verification/Alex_Bits.thy ===== *)
theory Alex_Bits
  imports Prelude
begin

text \<open>
  The bitmap of an ALEX data node: the helper functions of
  \<open>src/src/competitor/alex/src/alex_base.h\<close>, the bit operations of \<open>AlexDataNode\<close> in
  \<open>src/src/competitor/alex/src/alex_nodes.h\<close>, and the proof that the word-level searches agree
  with the plain reading of the bitmap as a sequence of flags. Positions are natural numbers; an
  array of words is a list, and a read past its end gives \<open>None\<close> where the code can reach one.
\<close>

section \<open>Instructions\<close>

text \<open>The population, trailing-zero and leading-zero counts of a 64 bit word.\<close>

definition word_bits :: "u64 \<Rightarrow> bool list" where
  "word_bits w = map (bit w) [0..<64]"

definition mm_popcnt_u64 :: "u64 \<Rightarrow> nat" where
  "mm_popcnt_u64 w = length (filter (\<lambda>b. b) (word_bits w))"

definition tzcnt_u64 :: "u64 \<Rightarrow> nat" where
  "tzcnt_u64 w = length (takeWhile Not (word_bits w))"

definition lzcnt_u64 :: "u64 \<Rightarrow> nat" where
  "lzcnt_u64 w = length (takeWhile Not (rev (word_bits w)))"

section \<open>Helper methods for bitmaps\<close>

definition extract_rightmost_one :: "u64 \<Rightarrow> u64" where
  "extract_rightmost_one w = w AND (- w)"

definition remove_rightmost_one :: "u64 \<Rightarrow> u64" where
  "remove_rightmost_one w = w AND (w - 1)"

definition count_ones :: "u64 \<Rightarrow> nat" where
  "count_ones w = mm_popcnt_u64 w"

definition get_offset :: "nat \<Rightarrow> u64 \<Rightarrow> nat" where
  "get_offset word_id b = word_id * 64 + count_ones (b - 1)"

section \<open>Bits of a node\<close>

definition check_exists :: "u64 list \<Rightarrow> nat \<Rightarrow> bool" where
  "check_exists bitmap pos = (let bitmap_pos = pos div 64; bit_pos = pos - bitmap_pos * 64 in
     bitmap ! bitmap_pos AND push_bit bit_pos 1 \<noteq> 0)"

definition set_bit_at :: "u64 list \<Rightarrow> nat \<Rightarrow> u64 list" where
  "set_bit_at bitmap pos = (let bitmap_pos = pos div 64; bit_pos = pos - bitmap_pos * 64 in
     bitmap[bitmap_pos := bitmap ! bitmap_pos OR push_bit bit_pos 1])"

definition unset_bit_at :: "u64 list \<Rightarrow> nat \<Rightarrow> u64 list" where
  "unset_bit_at bitmap pos = (let bitmap_pos = pos div 64; bit_pos = pos - bitmap_pos * 64 in
     bitmap[bitmap_pos := bitmap ! bitmap_pos AND NOT (push_bit bit_pos 1)])"

text \<open>The loop that looks for a word that is not zero, from the word \<open>idx\<close> with contents \<open>data\<close>.\<close>

function next_word :: "u64 list \<Rightarrow> nat \<Rightarrow> u64 \<Rightarrow> (nat \<times> u64) option" where
  "next_word bitmap idx dat =
     (if dat = 0 then
        if length bitmap \<le> idx + 1 then None else next_word bitmap (idx + 1) (bitmap ! (idx + 1))
      else Some (idx, dat))"
  by auto
termination by (relation "measure (\<lambda>(bitmap, idx, dat). length bitmap - idx)") auto

declare next_word.simps [simp del]

text \<open>\<open>~((1ULL << bit_pos) - 1)\<close> and \<open>(1ULL << bit_pos) - 1\<close>.\<close>

definition upper_mask :: "nat \<Rightarrow> u64" where
  "upper_mask bit_pos = NOT (push_bit bit_pos 1 - 1)"

definition lower_mask :: "nat \<Rightarrow> u64" where
  "lower_mask bit_pos = push_bit bit_pos 1 - 1"

text \<open>
  \<open>get_next_filled_position\<close>; the outer \<open>None\<close> is a read behind the end of the bitmap.
\<close>

definition get_next_filled_position :: "u64 list \<Rightarrow> nat \<Rightarrow> nat \<Rightarrow> bool \<Rightarrow> nat option" where
  "get_next_filled_position bitmap data_capacity pos exclusive =
     (let pos' = (if exclusive then pos + 1 else pos) in
      if exclusive \<and> pos' = data_capacity then Some data_capacity
      else
        let curBitmapIdx = pos' div 64; bit_pos = pos' - curBitmapIdx * 64 in
        if length bitmap \<le> curBitmapIdx then None
        else
          (case next_word bitmap curBitmapIdx (bitmap ! curBitmapIdx AND upper_mask bit_pos) of
             None \<Rightarrow> Some data_capacity
           | Some (idx, dat) \<Rightarrow> Some (get_offset idx (extract_rightmost_one dat))))"

text \<open>\<open>num_keys_in_range\<close>.\<close>

definition num_keys_in_range :: "u64 list \<Rightarrow> nat \<Rightarrow> nat \<Rightarrow> nat option" where
  "num_keys_in_range bitmap left right =
     (let left_bitmap_idx = left div 64; right_bitmap_idx = right div 64;
          left_bit_pos = left - left_bitmap_idx * 64; right_bit_pos = right - right_bitmap_idx * 64 in
      if length bitmap \<le> left_bitmap_idx then None
      else if left_bitmap_idx = right_bitmap_idx then
        Some (mm_popcnt_u64 (bitmap ! left_bitmap_idx AND upper_mask left_bit_pos AND lower_mask right_bit_pos))
      else
        let num = mm_popcnt_u64 (bitmap ! left_bitmap_idx AND upper_mask left_bit_pos)
              + sum_list (map (\<lambda>i. mm_popcnt_u64 (bitmap ! i)) [left_bitmap_idx + 1..<right_bitmap_idx]) in
        if right_bitmap_idx \<noteq> length bitmap
        then Some (num + mm_popcnt_u64 (bitmap ! right_bitmap_idx AND lower_mask right_bit_pos))
        else Some num)"

section \<open>Words\<close>

lemma mod64: "pos - pos div 64 * 64 = pos mod (64::nat)"
  by (simp add: minus_div_mult_eq_mod)

lemma split64: "64 * (p div 64) + p mod 64 = (p::nat)" "p mod 64 < (64::nat)"
  by simp_all

lemma block64: "p div 64 = k \<longleftrightarrow> 64 * k \<le> p \<and> p < 64 * (k + (1::nat))"
  by auto

lemma upt_split: "a \<le> b \<Longrightarrow> b \<le> c \<Longrightarrow> [a..<c] = [a..<b] @ [b..<c::nat]"
  using upt_add_eq_append [of a b "c - b"] by simp

lemma masks: "lower_mask i = mask i" "upper_mask i = NOT (mask i)"
  by (simp_all add: lower_mask_def upper_mask_def push_bit_of_1 mask_eq_exp_minus_1)

lemma bit_masked:
  "i < 64 \<Longrightarrow> bit (w AND upper_mask m) i \<longleftrightarrow> bit w i \<and> m \<le> i"
  "i < 64 \<Longrightarrow> bit (w AND lower_mask m) i \<longleftrightarrow> bit w i \<and> i < m"
  by (auto simp: masks bit_simps possible_bit_word)

lemma word_nonzero_bit: "w \<noteq> (0::u64) \<longleftrightarrow> (\<exists>i<64. bit w i)"
proof
  assume "w \<noteq> 0"
  then obtain i where "bit w i" by (metis bit_0_eq bit_eqI bot_apply bot_bool_def)
  then show "\<exists>i<64. bit w i" using bit_imp_le_length [of w i] by auto
qed auto

lemma least_bit:
  assumes "w \<noteq> (0::u64)"
  obtains i where "i < 64" "bit w i" "\<forall>j<i. \<not> bit w j"
proof -
  define i where "i = (LEAST i. bit w i)"
  have "bit w i" using assms word_nonzero_bit [of w] unfolding i_def by (metis LeastI)
  moreover have "\<forall>j<i. \<not> bit w j" unfolding i_def using not_less_Least by blast
  moreover have "i < 64" using calculation(1) bit_imp_le_length [of w i] by simp
  ultimately show thesis using that by blast
qed

lemma bit_decrement:
  assumes "bit (w::u64) i" "\<forall>j<i. \<not> bit w j" "j < 64"
  shows "bit (w - 1) j = (if j < i then True else if j = i then False else bit w j)"
proof -
  have i: "i < 64" using assms(1) bit_imp_le_length [of w i] by simp
  define v where "v = w AND NOT (mask (Suc i))"
  have "w = v OR 2 ^ i"
    by (rule bit_eqI) (use assms i in \<open>auto simp: v_def bit_simps not_less less_Suc_eq_le le_less possible_bit_word\<close>)
  moreover have "v AND 2 ^ i = 0" by (rule bit_eqI) (auto simp: v_def bit_simps)
  ultimately have "w = v + 2 ^ i" by (metis disjunctive_add_eq_or)
  then have "w - 1 = v + mask i" by (simp add: mask_eq_exp_minus_1)
  moreover have "v AND mask i = 0" by (rule bit_eqI) (auto simp: v_def bit_simps)
  then have "v + mask i = v OR mask i" by (rule disjunctive_add_eq_or)
  ultimately show ?thesis using assms(3) by (auto simp: v_def bit_simps possible_bit_word)
qed

lemma extract_bit:
  assumes "bit (w::u64) i" "\<forall>j<i. \<not> bit w j"
  shows "extract_rightmost_one w = 2 ^ i"
proof (rule bit_eqI)
  fix j assume "possible_bit TYPE(64 word) j"
  then have j: "j < 64" by (simp add: possible_bit_word)
  have "bit (- w) j = (\<not> bit (w - 1) j)" using j by (simp add: bit_minus_iff possible_bit_word)
  then show "bit (extract_rightmost_one w) j = bit (2 ^ i :: u64) j"
    using assms j bit_decrement [OF assms j] by (auto simp: extract_rightmost_one_def bit_simps possible_bit_word)
qed

lemma remove_bit:
  assumes "bit (w::u64) i" "\<forall>j<i. \<not> bit w j" "j < 64"
  shows "bit (remove_rightmost_one w) j = (j \<noteq> i \<and> bit w j)"
  using bit_decrement [OF assms] assms by (auto simp: remove_rightmost_one_def bit_simps)

lemma popcnt_mask: "i \<le> 64 \<Longrightarrow> mm_popcnt_u64 (mask i) = i"
proof -
  assume "i \<le> 64"
  then have "[0..<64] = [0..<i] @ [i..<64]" by (metis le0 upt_add_eq_append le_add_diff_inverse)
  then show ?thesis
    using \<open>i \<le> 64\<close> by (simp add: mm_popcnt_u64_def word_bits_def filter_map comp_def bit_mask_iff possible_bit_word filter_id_conv
        filter_empty_conv)
qed

lemma get_offset_bit: "i < 64 \<Longrightarrow> get_offset k (2 ^ i) = 64 * k + i"
  by (simp add: get_offset_def count_ones_def popcnt_mask flip: mask_eq_exp_minus_1)

section \<open>The bitmap as a sequence of flags\<close>

lemma check_exists_bit: "check_exists bm p = bit (bm ! (p div 64)) (p mod 64)"
  unfolding check_exists_def Let_def mod64 by (simp add: bit_iff_and_push_bit_not_eq_0)

lemma check_exists_at: "i < 64 \<Longrightarrow> check_exists bm (64 * k + i) = bit (bm ! k) i"
  by (simp add: check_exists_bit)

lemma length_set_bit_at [simp]: "length (set_bit_at bm p) = length bm" "length (unset_bit_at bm p) = length bm"
  by (simp_all add: set_bit_at_def unset_bit_at_def Let_def)

lemma div64_less: "p < 64 * n \<longleftrightarrow> p div 64 < (n::nat)"
  by (simp add: div_less_iff_less_mult mult.commute)

lemma same_bit: "p div 64 = q div 64 \<Longrightarrow> p mod 64 = q mod (64::nat) \<Longrightarrow> p = q"
  by (metis div_mult_mod_eq)

lemma check_set_bit [simp]:
  assumes "q < 64 * length bm"
  shows "check_exists (set_bit_at bm q) p \<longleftrightarrow> p = q \<or> check_exists bm p"
proof -
  have q: "q div 64 < length bm" using assms by (simp add: div64_less)
  show ?thesis
  proof (cases "p div 64 = q div 64")
    case True
    then show ?thesis using q same_bit [OF True]
      by (auto simp: check_exists_bit set_bit_at_def Let_def mod64 bit_simps possible_bit_word)
  qed (auto simp: check_exists_bit set_bit_at_def Let_def)
qed

lemma check_unset_bit [simp]:
  assumes "q < 64 * length bm"
  shows "check_exists (unset_bit_at bm q) p \<longleftrightarrow> p \<noteq> q \<and> check_exists bm p"
proof -
  have q: "q div 64 < length bm" using assms by (simp add: div64_less)
  show ?thesis
  proof (cases "p div 64 = q div 64")
    case True
    then show ?thesis using q same_bit [OF True]
      by (auto simp: check_exists_bit unset_bit_at_def Let_def mod64 bit_simps possible_bit_word)
  qed (auto simp: check_exists_bit unset_bit_at_def Let_def)
qed

text \<open>A bitmap that fits an array: just enough words, and no flag behind the end of the array.\<close>

definition bitmap_ok :: "u64 list \<Rightarrow> nat \<Rightarrow> bool" where
  "bitmap_ok bm cap \<longleftrightarrow> length bm = (cap + 63) div 64 \<and> (\<forall>p. cap \<le> p \<longrightarrow> p < 64 * length bm \<longrightarrow> \<not> check_exists bm p)"

lemma bitmap_ok_code [code]:
  "bitmap_ok bm cap \<longleftrightarrow> length bm = (cap + 63) div 64 \<and> list_all (\<lambda>p. \<not> check_exists bm p) [cap..<64 * length bm]"
  by (auto simp: bitmap_ok_def list_all_iff)

lemma bitmap_ok_fits: "bitmap_ok bm cap \<Longrightarrow> p < cap \<Longrightarrow> p < 64 * length bm"
proof -
  assume "bitmap_ok bm cap" "p < cap"
  then have "length bm = (cap + 63) div 64" "p < cap" by (auto simp: bitmap_ok_def)
  then show ?thesis by linarith
qed

lemma bitmap_ok_set: "bitmap_ok bm cap \<Longrightarrow> p < cap \<Longrightarrow> bitmap_ok (set_bit_at bm p) cap"
  using bitmap_ok_fits [of bm cap p] by (auto simp: bitmap_ok_def)

lemma bitmap_ok_unset: "bitmap_ok bm cap \<Longrightarrow> p < cap \<Longrightarrow> bitmap_ok (unset_bit_at bm p) cap"
  using bitmap_ok_fits [of bm cap p] by (auto simp: bitmap_ok_def)

lemma bitmap_ok_new: "bitmap_ok (replicate ((cap + 63) div 64) 0) cap"
  by (auto simp: bitmap_ok_def check_exists_bit div64_less)

lemma check_new: "p < 64 * n \<Longrightarrow> \<not> check_exists (replicate n 0) p"
  by (simp add: check_exists_bit div64_less)

section \<open>Searching for the next flag\<close>

lemma next_word_spec:
  "idx < length bm \<Longrightarrow> (case next_word bm idx dat of
     None \<Rightarrow> dat = 0 \<and> (\<forall>k. idx < k \<longrightarrow> k < length bm \<longrightarrow> bm ! k = 0)
   | Some (i, d) \<Rightarrow> d \<noteq> 0 \<and> i < length bm \<and> (i = idx \<and> d = dat
       \<or> idx < i \<and> d = bm ! i \<and> dat = 0 \<and> (\<forall>k. idx < k \<longrightarrow> k < i \<longrightarrow> bm ! k = 0)))"
proof (induction bm idx dat rule: next_word.induct)
  case (1 bm idx dat)
  show ?case
  proof (cases "dat = 0 \<and> idx + 1 < length bm")
    case True
    have IH: "case next_word bm (idx + 1) (bm ! (idx + 1)) of
       None \<Rightarrow> bm ! (idx + 1) = 0 \<and> (\<forall>k. idx + 1 < k \<longrightarrow> k < length bm \<longrightarrow> bm ! k = 0)
     | Some (i, d) \<Rightarrow> d \<noteq> 0 \<and> i < length bm \<and> (i = idx + 1 \<and> d = bm ! (idx + 1)
       \<or> idx + 1 < i \<and> d = bm ! i \<and> bm ! (idx + 1) = 0 \<and> (\<forall>k. idx + 1 < k \<longrightarrow> k < i \<longrightarrow> bm ! k = 0))"
      using "1.IH" True by simp
    have step: "next_word bm idx dat = next_word bm (idx + 1) (bm ! (idx + 1))"
      using True by (subst next_word.simps) simp
    have le: "idx < k \<Longrightarrow> k = idx + 1 \<or> idx + 1 < k" for k by auto
    show ?thesis
    proof (cases "next_word bm (idx + 1) (bm ! (idx + 1))")
      case None
      with IH True le show ?thesis unfolding step by fastforce
    next
      case (Some x)
      obtain i d where x: "x = (i, d)" by (cases x)
      have res: "d \<noteq> 0" "i < length bm" "i = idx + 1 \<and> d = bm ! (idx + 1)
       \<or> idx + 1 < i \<and> d = bm ! i \<and> bm ! (idx + 1) = 0 \<and> (\<forall>k. idx + 1 < k \<longrightarrow> k < i \<longrightarrow> bm ! k = 0)"
        using IH unfolding Some x by simp_all
      from res(3) have "idx < i" "d = bm ! i" "\<forall>k. idx < k \<longrightarrow> k < i \<longrightarrow> bm ! k = 0"
        using le by (metis less_add_one less_trans not_less_iff_gr_or_eq)+
      with res True Some x show ?thesis unfolding step by simp
    qed
  next
    case False
    then show ?thesis using "1.prems" by (subst next_word.simps) auto
  qed
qed

text \<open>The next flagged position: what the search has to return.\<close>

definition next_flag :: "(nat \<Rightarrow> bool) \<Rightarrow> nat \<Rightarrow> nat \<Rightarrow> nat \<Rightarrow> bool" where
  "next_flag ex cap p q \<longleftrightarrow> p \<le> q \<and> q \<le> cap \<and> (\<forall>j. p \<le> j \<longrightarrow> j < q \<longrightarrow> \<not> ex j) \<and> (q < cap \<longrightarrow> ex q)"

lemma next_flag_unique: "next_flag ex cap p q \<Longrightarrow> next_flag ex cap p q' \<Longrightarrow> q = q'"
proof -
  have "\<not> q < q'" if "next_flag ex cap p q" "next_flag ex cap p q'" for q q'
    using that unfolding next_flag_def by auto
  then show "next_flag ex cap p q \<Longrightarrow> next_flag ex cap p q' \<Longrightarrow> q = q'" by (meson linorder_neqE_nat)
qed

lemma word_zero_bits: "bm ! k = 0 \<Longrightarrow> i < 64 \<Longrightarrow> \<not> check_exists bm (64 * k + i)"
  by (simp add: check_exists_at)

lemma found_bit:
  assumes "d \<noteq> (0::u64)"
  obtains i where "i < 64" "bit d i" "\<forall>j<i. \<not> bit d j" "get_offset k (extract_rightmost_one d) = 64 * k + i"
proof -
  obtain i where i: "i < 64" "bit d i" "\<forall>j<i. \<not> bit d j" by (rule least_bit [OF assms])
  moreover have "get_offset k (extract_rightmost_one d) = 64 * k + i"
    using i by (simp add: extract_bit get_offset_bit)
  ultimately show thesis using that by blast
qed

text \<open>The word in hand of a search that still has to look at the positions from \<open>p\<close> on.\<close>

definition pending :: "u64 list \<Rightarrow> nat \<Rightarrow> u64 \<Rightarrow> nat \<Rightarrow> bool" where
  "pending bm idx dat p \<longleftrightarrow> idx < length bm \<and> 64 * idx \<le> p \<and> p \<le> 64 * idx + 64
     \<and> (\<forall>i<64. bit dat i \<longleftrightarrow> p \<le> 64 * idx + i \<and> check_exists bm (64 * idx + i))"

lemma pending_masked:
  assumes "p < 64 * length bm"
  shows "pending bm (p div 64) (bm ! (p div 64) AND upper_mask (p mod 64)) p"
proof -
  have "p \<le> 64 * (p div 64) + i \<longleftrightarrow> p mod 64 \<le> i" for i using split64 [of p] by linarith
  moreover have "p div 64 < length bm" using assms by (simp add: div64_less)
  moreover have "64 * (p div 64) \<le> p" "p \<le> 64 * (p div 64) + 64" using split64 [of p] by linarith+
  ultimately show ?thesis unfolding pending_def by (simp add: bit_masked check_exists_at conj_commute)
qed

lemma pending_zero:
  assumes "pending bm idx 0 p" "p \<le> j" "j div 64 = idx"
  shows "\<not> check_exists bm j"
proof -
  have "j = 64 * idx + j mod 64" "j mod 64 < 64" using assms(3) by auto
  with assms(1,2) show ?thesis unfolding pending_def by (metis bit_0_eq bot_apply bot_bool_def)
qed

lemma pending_none:
  assumes "pending bm idx dat p" and none: "next_word bm idx dat = None" and "p \<le> j" "j < 64 * length bm"
  shows "\<not> check_exists bm j"
proof -
  have idx: "idx < length bm" using assms(1) by (simp add: pending_def)
  have nw: "dat = 0" "\<forall>k. idx < k \<longrightarrow> k < length bm \<longrightarrow> bm ! k = 0"
    using next_word_spec [OF idx, of dat] unfolding none by simp_all
  show ?thesis
  proof (cases "j div 64 = idx")
    case False
    have "64 * idx \<le> p" using assms(1) by (simp add: pending_def)
    then have "idx < j div 64" using False assms(3) by linarith
    moreover have "j div 64 < length bm" using assms(4) by (simp add: div64_less)
    ultimately show ?thesis using nw(2) by (simp add: check_exists_bit)
  qed (use pending_zero assms(1,3) nw(1) in blast)
qed

lemma pending_some:
  assumes pd: "pending bm idx dat p" and some: "next_word bm idx dat = Some (k, d)"
  obtains q where "get_offset k (extract_rightmost_one d) = q" "p \<le> q" "check_exists bm q" "q < 64 * length bm"
    "\<forall>j. p \<le> j \<longrightarrow> j < q \<longrightarrow> \<not> check_exists bm j" "pending bm k (remove_rightmost_one d) (q + 1)"
proof -
  have idx: "idx < length bm" "64 * idx \<le> p" "p \<le> 64 * idx + 64" using pd by (simp_all add: pending_def)
  have nw: "d \<noteq> 0" "k < length bm" "k = idx \<and> d = dat \<or> idx < k \<and> d = bm ! k \<and> dat = 0
       \<and> (\<forall>j. idx < j \<longrightarrow> j < k \<longrightarrow> bm ! j = 0)" using next_word_spec [OF idx(1), of dat] unfolding some by simp_all
  obtain i where i: "i < 64" "bit d i" "\<forall>j<i. \<not> bit d j" "get_offset k (extract_rightmost_one d) = 64 * k + i"
    by (rule found_bit [OF nw(1)])
  have d: "bit d j \<longleftrightarrow> p \<le> 64 * k + j \<and> check_exists bm (64 * k + j)" if "j < 64" for j
  proof -
    have "idx < k \<Longrightarrow> p \<le> 64 * k + j" using idx(3) by linarith
    then show ?thesis using nw(3) pd that unfolding pending_def by (auto simp: check_exists_at)
  qed
  have none: "\<not> check_exists bm j" if "p \<le> j" "j < 64 * k + i" for j
  proof (cases "j div 64 = k")
    case True
    then have "j = 64 * k + j mod 64" "j mod 64 < i" using that(2) split64 [of j] by linarith+
    with i(1,3) d [of "j mod 64"] that(1) show ?thesis by auto
  next
    case False
    then have lt: "j div 64 < k" "idx \<le> j div 64" using that i(1) idx(2) by linarith+
    then have nz: "dat = 0" "\<forall>j. idx < j \<longrightarrow> j < k \<longrightarrow> bm ! j = 0" using nw(3) by auto
    show ?thesis
    proof (cases "j div 64 = idx")
      case False
      then show ?thesis using nz(2) lt by (simp add: check_exists_bit)
    qed (use pending_zero pd nz(1) that(1) in blast)
  qed
  have "pending bm k (remove_rightmost_one d) (64 * k + i + 1)"
  proof -
    have "bit (remove_rightmost_one d) j \<longleftrightarrow> 64 * k + i + 1 \<le> 64 * k + j \<and> check_exists bm (64 * k + j)" if "j < 64" for j
    proof (cases j i rule: linorder_cases)
      case less
      then show ?thesis using remove_bit [OF i(2,3) that] i(3) by simp
    next
      case greater
      moreover have "p \<le> 64 * k + i" using d [OF i(1)] i(2) by simp
      ultimately show ?thesis using remove_bit [OF i(2,3) that] d [OF that] by auto
    qed (use remove_bit [OF i(2,3) that] in simp)
    then show ?thesis unfolding pending_def using nw(2) i(1) by simp
  qed
  moreover have "64 * k + i < 64 * length bm" using nw(2) i(1) by linarith
  ultimately show thesis using that [OF i(4)] i(1,2) d [of i] none by blast
qed

lemma pending_next:
  assumes ok: "bitmap_ok bm cap" and pd: "pending bm idx dat p" and "p \<le> cap"
  shows "next_flag (check_exists bm) cap p (case next_word bm idx dat of
      None \<Rightarrow> cap | Some (k, d) \<Rightarrow> get_offset k (extract_rightmost_one d))"
proof (cases "next_word bm idx dat")
  case None
  then show ?thesis using pending_none [OF pd None] bitmap_ok_fits [OF ok] assms(3) by (auto simp: next_flag_def)
next
  case (Some x)
  obtain k d where x: "x = (k, d)" by (cases x)
  obtain q where q: "get_offset k (extract_rightmost_one d) = q" "p \<le> q" "check_exists bm q" "q < 64 * length bm"
    "\<forall>j. p \<le> j \<longrightarrow> j < q \<longrightarrow> \<not> check_exists bm j" by (rule pending_some [OF pd Some [unfolded x]])
  moreover have "q < cap" using ok q(3,4) unfolding bitmap_ok_def by (meson not_less)
  ultimately show ?thesis using Some x by (auto simp: next_flag_def)
qed

lemma get_next_filled_spec:
  assumes ok: "bitmap_ok bm cap" and "pos < 64 * length bm" and "pos \<le> cap"
  shows "\<exists>q. get_next_filled_position bm cap pos False = Some q \<and> next_flag (check_exists bm) cap pos q"
proof -
  have pd: "pending bm (pos div 64) (bm ! (pos div 64) AND upper_mask (pos mod 64)) pos"
    by (rule pending_masked [OF assms(2)])
  have "\<not> length bm \<le> pos div 64" using assms(2) by (simp add: div64_less)
  then show ?thesis using pending_next [OF ok pd assms(3)]
    by (auto simp: get_next_filled_position_def mod64 Let_def split: option.splits)
qed

lemma get_next_filled_after:
  assumes ok: "bitmap_ok bm cap" and "pos < cap"
  shows "\<exists>q. get_next_filled_position bm cap pos True = Some q \<and> next_flag (check_exists bm) cap (pos + 1) q"
proof (cases "pos + 1 = cap")
  case True
  then show ?thesis by (auto simp: get_next_filled_position_def next_flag_def)
next
  case False
  then have "pos + 1 < cap" using assms(2) by simp
  moreover have "get_next_filled_position bm cap pos True = get_next_filled_position bm cap (pos + 1) False"
    using False by (simp add: get_next_filled_position_def)
  ultimately show ?thesis using get_next_filled_spec [OF ok bitmap_ok_fits [OF ok], of "pos + 1"] by simp
qed

section \<open>Counting flags\<close>

lemma popcnt_filter: "mm_popcnt_u64 w = length (filter (bit w) [0..<64])"
  by (simp add: mm_popcnt_u64_def word_bits_def filter_map comp_def)

lemma shift_upt: "map (\<lambda>i. 64 * k + i) [0..<64] = [64 * k..<64 * k + (64::nat)]"
  by (simp add: map_add_upt add.commute)

lemma popcnt_flags:
  assumes "\<forall>i<64. bit w i \<longleftrightarrow> l \<le> 64 * k + i \<and> 64 * k + i < r \<and> check_exists bm (64 * k + i)"
    and "64 * k \<le> l" "r \<le> 64 * k + 64" "l \<le> r"
  shows "mm_popcnt_u64 w = length (filter (check_exists bm) [l..<r])"
proof -
  have "mm_popcnt_u64 w = length (filter (\<lambda>i. l \<le> 64 * k + i \<and> 64 * k + i < r \<and> check_exists bm (64 * k + i)) [0..<64])"
    unfolding popcnt_filter using assms(1) by (intro arg_cong [of _ _ length] filter_cong) auto
  also have "\<dots> = length (filter (\<lambda>j. l \<le> j \<and> j < r \<and> check_exists bm j) (map (\<lambda>i. 64 * k + i) [0..<64]))"
    by (simp add: filter_map comp_def)
  also have "\<dots> = length (filter (\<lambda>j. l \<le> j \<and> j < r \<and> check_exists bm j) ([64 * k..<l] @ [l..<r] @ [r..<64 * k + 64]))"
    using assms(2-4) by (simp only: shift_upt upt_split [of "64 * k" l "64 * k + 64"] upt_split [of l r "64 * k + 64"] le_trans [of l r])
  also have "\<dots> = length (filter (check_exists bm) [l..<r])"
    by (simp add: filter_empty_conv) (auto intro!: arg_cong [of _ _ length] filter_cong)
  finally show ?thesis .
qed

lemma popcnt_words:
  "length (filter (check_exists bm) [64 * a..<64 * b]) = (\<Sum>i\<leftarrow>[a..<b]. mm_popcnt_u64 (bm ! i))"
proof (induction b)
  case (Suc b)
  show ?case
  proof (cases "a \<le> b")
    case True
    have "[64 * a..<64 * Suc b] = [64 * a..<64 * b] @ [64 * b..<64 * b + 64]"
      using upt_split [of "64 * a" "64 * b" "64 * Suc b"] True by (simp add: add.commute)
    moreover have "mm_popcnt_u64 (bm ! b) = length (filter (check_exists bm) [64 * b..<64 * b + 64])"
      by (rule popcnt_flags) (auto simp: check_exists_at)
    ultimately show ?thesis using Suc True by simp
  qed simp
qed simp

lemma num_keys_in_range_spec:
  assumes "left \<le> right" "right \<le> 64 * length bm" "left < 64 * length bm"
  shows "num_keys_in_range bm left right = Some (length (filter (check_exists bm) [left..<right]))"
proof -
  let ?l = "left div 64" and ?r = "right div 64"
  have l: "?l < length bm" using assms(3) by (simp add: div64_less)
  have up: "left \<le> 64 * ?l + i \<longleftrightarrow> \<not> i < left mod 64" for i using split64 [of left] by linarith
  have lo: "64 * ?r + i < right \<longleftrightarrow> i < right mod 64" for i using split64 [of right] by linarith
  show ?thesis
  proof (cases "?l = ?r")
    case True
    have "mm_popcnt_u64 (bm ! ?l AND upper_mask (left mod 64) AND lower_mask (right mod 64))
        = length (filter (check_exists bm) [left..<right])"
    proof (rule popcnt_flags [where k = ?l])
      show "\<forall>i<64. bit (bm ! ?l AND upper_mask (left mod 64) AND lower_mask (right mod 64)) i \<longleftrightarrow>
          left \<le> 64 * ?l + i \<and> 64 * ?l + i < right \<and> check_exists bm (64 * ?l + i)"
        using True up lo by (auto simp: bit_masked check_exists_at simp flip: and.assoc)
    qed (use True assms(1) split64 [of left] split64 [of right] in linarith)+
    with True l show ?thesis unfolding num_keys_in_range_def Let_def mod64 by simp
  next
    case False
    then have lr: "?l + 1 \<le> ?r" using assms(1) div_le_mono [of left right 64] by simp
    then have s: "[left..<right] = [left..<64 * (?l + 1)] @ [64 * (?l + 1)..<64 * ?r] @ [64 * ?r..<right]"
      using upt_split [of left "64 * (?l + 1)" right] upt_split [of "64 * (?l + 1)" "64 * ?r" right]
        split64 [of left] split64 [of right] by simp
    have first: "mm_popcnt_u64 (bm ! ?l AND upper_mask (left mod 64))
        = length (filter (check_exists bm) [left..<64 * (?l + 1)])"
    proof (rule popcnt_flags [where k = ?l])
      show "\<forall>i<64. bit (bm ! ?l AND upper_mask (left mod 64)) i \<longleftrightarrow>
          left \<le> 64 * ?l + i \<and> 64 * ?l + i < 64 * (?l + 1) \<and> check_exists bm (64 * ?l + i)"
      proof (intro allI impI)
        fix i :: nat assume i: "i < 64"
        show "bit (bm ! ?l AND upper_mask (left mod 64)) i \<longleftrightarrow>
          left \<le> 64 * ?l + i \<and> 64 * ?l + i < 64 * (?l + 1) \<and> check_exists bm (64 * ?l + i)"
          unfolding bit_masked(1) [OF i] check_exists_at [OF i] up using i by auto
      qed
    qed (insert split64 [of left], simp_all, linarith?)
    have last: "mm_popcnt_u64 (bm ! ?r AND lower_mask (right mod 64)) = length (filter (check_exists bm) [64 * ?r..<right])"
    proof (rule popcnt_flags [where k = ?r])
      show "\<forall>i<64. bit (bm ! ?r AND lower_mask (right mod 64)) i \<longleftrightarrow>
          64 * ?r \<le> 64 * ?r + i \<and> 64 * ?r + i < right \<and> check_exists bm (64 * ?r + i)"
      proof (intro allI impI)
        fix i :: nat assume i: "i < 64"
        show "bit (bm ! ?r AND lower_mask (right mod 64)) i \<longleftrightarrow>
          64 * ?r \<le> 64 * ?r + i \<and> 64 * ?r + i < right \<and> check_exists bm (64 * ?r + i)"
          unfolding bit_masked(2) [OF i] check_exists_at [OF i] lo by auto
      qed
    qed (use split64 [of right] in linarith)+
    have mid: "(\<Sum>i\<leftarrow>[?l + 1..<?r]. mm_popcnt_u64 (bm ! i)) = length (filter (check_exists bm) [64 * (?l + 1)..<64 * ?r])"
      by (rule popcnt_words [symmetric])
    have end0: "length (filter (check_exists bm) [64 * ?r..<right]) = 0" if e: "?r = length bm"
    proof -
      have "[64 * ?r..<right] = []" unfolding e using assms(2) by (metis upt_conv_Nil)
      then show ?thesis by (simp only: filter.simps list.size)
    qed
    have nl: "\<not> length bm \<le> ?l" using l by simp
    show ?thesis
      unfolding num_keys_in_range_def Let_def mod64 if_not_P [OF nl] if_not_P [OF False] first last mid s
        filter_append length_append using end0 by simp
  qed
qed

end
