(* ===== verification/Alex_Gap.thy ===== *)
theory Alex_Gap
  imports Alex_Bits
begin

text \<open>
  \<open>closest_gap\<close> of an ALEX data node (\<open>src/src/competitor/alex/src/alex_nodes.h\<close>): the version
  with leading and trailing zero counts that is compiled in, and the plain one. Shifting keys
  towards a gap needs a gap with no other gap on the way, and the search returns such a gap
  whenever the node has one.
\<close>

section \<open>The searches\<close>

text \<open>The last gap of word \<open>k\<close> and the first one; \<open>-1\<close> is a word without gaps.\<close>

definition left_gap_pos :: "u64 list \<Rightarrow> nat \<Rightarrow> int" where
  "left_gap_pos bm k = int ((k + 1) * 64) - int (lzcnt_u64 (NOT (bm ! k))) - 1"

definition right_gap_pos :: "u64 list \<Rightarrow> nat \<Rightarrow> nat" where
  "right_gap_pos bm k = k * 64 + tzcnt_u64 (NOT (bm ! k))"

definition pick_gap :: "nat \<Rightarrow> nat \<Rightarrow> int \<Rightarrow> nat \<Rightarrow> int" where
  "pick_gap cap pos lg rg = (if int pos - lg \<le> int rg - int pos \<or> cap \<le> rg then lg else int rg)"

text \<open>The loop over the words at distance \<open>d\<close> on both sides: a gap, or the distance it ends with.\<close>

function gap_loop :: "u64 list \<Rightarrow> nat \<Rightarrow> nat \<Rightarrow> nat \<Rightarrow> nat \<Rightarrow> nat \<Rightarrow> nat \<Rightarrow> int + nat" where
  "gap_loop bm cap pos bitmap_pos bit_pos max_offset d =
     (if d \<le> max_offset then
        let left = bm ! (bitmap_pos - d); right = bm ! (bitmap_pos + d) in
        if left \<noteq> -1 \<and> right \<noteq> -1 then
          Inl (pick_gap cap pos (left_gap_pos bm (bitmap_pos - d)) (right_gap_pos bm (bitmap_pos + d)))
        else if left \<noteq> -1 then
          if 32 < bit_pos \<and> bitmap_pos + d + 1 < length bm \<and> bm ! (bitmap_pos + d + 1) \<noteq> -1
          then Inl (pick_gap cap pos (left_gap_pos bm (bitmap_pos - d)) (right_gap_pos bm (bitmap_pos + d + 1)))
          else Inl (left_gap_pos bm (bitmap_pos - d))
        else if right \<noteq> -1 \<and> right_gap_pos bm (bitmap_pos + d) < cap then
          if bit_pos < 32 \<and> 0 < bitmap_pos - d \<and> bm ! (bitmap_pos - d - 1) \<noteq> -1
          then Inl (pick_gap cap pos (left_gap_pos bm (bitmap_pos - d - 1)) (right_gap_pos bm (bitmap_pos + d)))
          else Inl (int (right_gap_pos bm (bitmap_pos + d)))
        else gap_loop bm cap pos bitmap_pos bit_pos max_offset (d + 1)
      else Inr d)"
  by auto
termination by (relation "measure (\<lambda>(bm, cap, pos, bp, b, mx, d). Suc mx - d)") auto

declare gap_loop.simps [simp del]

text \<open>The loops over the words that are left, downwards from \<open>n - 1\<close> and upwards from \<open>i\<close>.\<close>

fun gap_scan_left :: "u64 list \<Rightarrow> nat \<Rightarrow> int" where
  "gap_scan_left bm 0 = -1"
| "gap_scan_left bm (Suc i) = (if bm ! i \<noteq> -1 then left_gap_pos bm i else gap_scan_left bm i)"

function gap_scan_right :: "u64 list \<Rightarrow> nat \<Rightarrow> nat \<Rightarrow> nat \<Rightarrow> int" where
  "gap_scan_right bm cap right_bitmap_pos i =
     (if i \<le> right_bitmap_pos then
        if bm ! i \<noteq> -1 then (if cap \<le> right_gap_pos bm i then -1 else int (right_gap_pos bm i))
        else gap_scan_right bm cap right_bitmap_pos (i + 1)
      else -1)"
  by auto
termination by (relation "measure (\<lambda>(bm, cap, r, i). Suc r - i)") auto

declare gap_scan_right.simps [simp del]

definition closest_gap_outside :: "u64 list \<Rightarrow> nat \<Rightarrow> nat \<Rightarrow> int" where
  "closest_gap_outside bm cap pos = (let
     bitmap_pos = pos div 64;
     bit_pos = pos - bitmap_pos * 64;
     right_bitmap_pos = (cap - 1) div 64;
     max_left = bitmap_pos;
     max_right = right_bitmap_pos - bitmap_pos
   in case gap_loop bm cap pos bitmap_pos bit_pos (min max_left max_right) 1 of
        Inl g \<Rightarrow> g
      | Inr d \<Rightarrow>
          if max_right < max_left then gap_scan_left bm (bitmap_pos + 1 - d)
          else gap_scan_right bm cap right_bitmap_pos (bitmap_pos + d))"

definition closest_gap_inside :: "u64 list \<Rightarrow> nat \<Rightarrow> nat \<Rightarrow> int" where
  "closest_gap_inside bm cap pos = (let
     bitmap_pos = pos div 64;
     bit_pos = pos - bitmap_pos * 64;
     bitmap_data = bm ! bitmap_pos;
     right_gaps = NOT (bitmap_data OR lower_mask bit_pos);
     right_distance =
       (if right_gaps \<noteq> 0 then int (tzcnt_u64 right_gaps) - int bit_pos
        else if bitmap_pos + 1 < length bm
        then 64 + int (tzcnt_u64 (NOT (bm ! (bitmap_pos + 1)))) - int bit_pos else 64);
     left_gaps = NOT bitmap_data AND lower_mask bit_pos;
     left_distance =
       (if left_gaps \<noteq> 0 then int bit_pos - (63 - int (lzcnt_u64 left_gaps))
        else if 0 < bitmap_pos
        then int bit_pos + int (lzcnt_u64 (NOT (bm ! (bitmap_pos - 1)))) + 1 else 64)
   in if right_distance < left_distance \<and> int pos + right_distance < int cap
      then int pos + right_distance else int pos - left_distance)"

definition closest_gap :: "u64 list \<Rightarrow> nat \<Rightarrow> nat \<Rightarrow> int" where
  "closest_gap bm cap pos0 = (let
     pos = min pos0 (cap - 1);
     bitmap_pos = pos div 64
   in if bm ! bitmap_pos = -1 \<or>
        (bitmap_pos = length bm - 1 \<and> mm_popcnt_u64 (bm ! bitmap_pos) = cap - (length bm - 1) * 64)
      then closest_gap_outside bm cap pos
      else closest_gap_inside bm cap pos)"

text \<open>The version without the counting instructions.\<close>

function slow_gap_loop :: "u64 list \<Rightarrow> nat \<Rightarrow> nat \<Rightarrow> nat \<Rightarrow> int + nat" where
  "slow_gap_loop bm pos max_offset d =
     (if d \<le> max_offset then
        if \<not> check_exists bm (pos - d) then Inl (int (pos - d))
        else if \<not> check_exists bm (pos + d) then Inl (int (pos + d))
        else slow_gap_loop bm pos max_offset (d + 1)
      else Inr d)"
  by auto
termination by (relation "measure (\<lambda>(bm, pos, mx, d). Suc mx - d)") auto

declare slow_gap_loop.simps [simp del]

fun slow_scan_left :: "u64 list \<Rightarrow> nat \<Rightarrow> int" where
  "slow_scan_left bm 0 = -1"
| "slow_scan_left bm (Suc i) = (if \<not> check_exists bm i then int i else slow_scan_left bm i)"

function slow_scan_right :: "u64 list \<Rightarrow> nat \<Rightarrow> nat \<Rightarrow> int" where
  "slow_scan_right bm cap i =
     (if i < cap then if \<not> check_exists bm i then int i else slow_scan_right bm cap (i + 1) else -1)"
  by auto
termination by (relation "measure (\<lambda>(bm, cap, i). cap - i)") auto

declare slow_scan_right.simps [simp del]

definition slow_closest_gap :: "u64 list \<Rightarrow> nat \<Rightarrow> nat \<Rightarrow> int" where
  "slow_closest_gap bm cap pos = (let
     max_left_offset = int pos;
     max_right_offset = int cap - int pos - 1
   in case slow_gap_loop bm pos (nat (min max_left_offset max_right_offset)) 1 of
        Inl g \<Rightarrow> g
      | Inr d \<Rightarrow>
          if max_right_offset < max_left_offset then slow_scan_left bm (pos + 1 - d)
          else slow_scan_right bm cap (pos + d))"

section \<open>Gaps of a word\<close>

lemma takeWhile_Not_length:
  assumes "i < length xs" "xs ! i" "\<forall>j<i. \<not> xs ! j"
  shows "length (takeWhile Not xs) = i"
proof -
  have "takeWhile Not xs = take i xs" by (rule takeWhile_eq_take_P_nth) (use assms in auto)
  then show ?thesis using assms(1) by simp
qed

lemma takeWhile_Not_all: "\<forall>j<length xs. \<not> xs ! j \<Longrightarrow> length (takeWhile Not xs) = length xs"
  by (metis (full_types) in_set_conv_nth takeWhile_eq_all_conv)

lemma tzcnt_least: "i < 64 \<Longrightarrow> bit w i \<Longrightarrow> \<forall>j<i. \<not> bit w j \<Longrightarrow> tzcnt_u64 w = i"
  unfolding tzcnt_u64_def by (rule takeWhile_Not_length) (auto simp: word_bits_def)

lemma tzcnt_zero: "tzcnt_u64 0 = 64"
  unfolding tzcnt_u64_def by (subst takeWhile_Not_all) (auto simp: word_bits_def)

lemma rev_word_bits: "j < 64 \<Longrightarrow> rev (word_bits w) ! j = bit w (63 - j)"
  by (simp add: word_bits_def rev_nth)

lemma lzcnt_greatest:
  assumes "i < 64" "bit w i" "\<forall>j. i < j \<longrightarrow> j < 64 \<longrightarrow> \<not> bit w j"
  shows "lzcnt_u64 w = 63 - i"
  unfolding lzcnt_u64_def
proof (rule takeWhile_Not_length)
  show "rev (word_bits w) ! (63 - i)" using assms(1,2) by (simp add: rev_word_bits)
  show "\<forall>j<63 - i. \<not> rev (word_bits w) ! j" using assms(3) by (auto simp: rev_word_bits)
qed (simp add: word_bits_def)

lemma lzcnt_zero: "lzcnt_u64 0 = 64"
  unfolding lzcnt_u64_def by (subst takeWhile_Not_all) (simp_all add: word_bits_def rev_nth)

lemma greatest_bit:
  assumes "w \<noteq> (0::u64)"
  obtains i where "i < 64" "bit w i" "\<forall>j. i < j \<longrightarrow> j < 64 \<longrightarrow> \<not> bit w j"
proof -
  define i where "i = Max {i. i < 64 \<and> bit w i}"
  have f: "finite {i. i < 64 \<and> bit w i}" "{i. i < 64 \<and> bit w i} \<noteq> {}"
    using assms word_nonzero_bit [of w] by auto
  have "i \<in> {i. i < 64 \<and> bit w i}" unfolding i_def by (rule Max_in [OF f])
  moreover have "\<not> bit w j" if "i < j" "j < 64" for j
    using Max_ge [OF f(1), of j] that unfolding i_def by (auto simp: not_less [symmetric])
  ultimately show thesis using that by blast
qed

lemma all_ones: "w = (-1::u64) \<longleftrightarrow> (\<forall>i<64. bit w i)"
  by (auto intro!: bit_eqI simp: possible_bit_word)

lemma not_full: "w \<noteq> (-1::u64) \<longleftrightarrow> NOT w \<noteq> 0"
  by (metis bit.compl_zero bit.double_compl)

lemma right_gap:
  assumes "bm ! k \<noteq> -1"
  obtains i where "i < 64" "right_gap_pos bm k = 64 * k + i" "\<not> check_exists bm (64 * k + i)"
    "\<forall>j. 64 * k \<le> j \<longrightarrow> j < 64 * k + i \<longrightarrow> check_exists bm j"
proof -
  obtain i where i: "i < 64" "bit (NOT (bm ! k)) i" "\<forall>j<i. \<not> bit (NOT (bm ! k)) j"
    using least_bit assms not_full by blast
  have nb: "bit (NOT (bm ! k)) j \<longleftrightarrow> \<not> bit (bm ! k) j" if "j < 64" for j using that by (simp add: bit_not_iff possible_bit_word)
  have "check_exists bm j" if "64 * k \<le> j" "j < 64 * k + i" for j
  proof -
    define x where "x = j - 64 * k"
    then have x: "j = 64 * k + x" using that(1) by simp
    then have "x < i" "x < 64" using that(2) i(1) by simp_all
    then have "bit (bm ! k) x" using i(3) nb by blast
    then show ?thesis unfolding x check_exists_at [OF \<open>x < 64\<close>] .
  qed
  moreover have "right_gap_pos bm k = 64 * k + i" using tzcnt_least [OF i] by (simp add: right_gap_pos_def)
  moreover have "\<not> check_exists bm (64 * k + i)" using i nb [of i] by (simp add: check_exists_at)
  ultimately show thesis using that [OF i(1)] by blast
qed

lemma left_gap:
  assumes "bm ! k \<noteq> -1"
  obtains i where "i < 64" "left_gap_pos bm k = int (64 * k + i)" "\<not> check_exists bm (64 * k + i)"
    "\<forall>j. 64 * k + i < j \<longrightarrow> j < 64 * k + 64 \<longrightarrow> check_exists bm j"
proof -
  obtain i where i: "i < 64" "bit (NOT (bm ! k)) i" "\<forall>j. i < j \<longrightarrow> j < 64 \<longrightarrow> \<not> bit (NOT (bm ! k)) j"
    using greatest_bit assms not_full by blast
  have nb: "bit (NOT (bm ! k)) j \<longleftrightarrow> \<not> bit (bm ! k) j" if "j < 64" for j using that by (simp add: bit_not_iff possible_bit_word)
  have "check_exists bm j" if "64 * k + i < j" "j < 64 * k + 64" for j
  proof -
    define x where "x = j - 64 * k"
    then have x: "j = 64 * k + x" using that(1) by simp
    then have "i < x" "x < 64" using that by simp_all
    then have "bit (bm ! k) x" using i(3) nb by blast
    then show ?thesis unfolding x check_exists_at [OF \<open>x < 64\<close>] .
  qed
  moreover have "left_gap_pos bm k = int (64 * k + i)"
    using lzcnt_greatest [OF i] i(1) by (simp add: left_gap_pos_def of_nat_diff)
  moreover have "\<not> check_exists bm (64 * k + i)" using i nb [of i] by (simp add: check_exists_at)
  ultimately show thesis using that [OF i(1)] by blast
qed

lemma full_word:
  assumes "bm ! k = -1" "64 * k \<le> j" "j < 64 * k + 64"
  shows "check_exists bm j"
proof -
  obtain x where x: "j = 64 * k + x" "x < 64" using assms(2,3) by (metis add_less_cancel_left le_Suc_ex)
  then show ?thesis using assms(1) all_ones [of "bm ! k"] by (simp add: check_exists_at)
qed

section \<open>A gap without gaps on the way\<close>

definition gap_ok :: "u64 list \<Rightarrow> nat \<Rightarrow> nat \<Rightarrow> int \<Rightarrow> bool" where
  "gap_ok bm cap pos g \<longleftrightarrow> 0 \<le> g \<and> g < int cap \<and> \<not> check_exists bm (nat g)
     \<and> (\<forall>j. int pos \<le> int j \<and> int j < g \<or> g < int j \<and> int j \<le> int pos \<longrightarrow> check_exists bm j)"

lemma gap_okI:
  assumes "g < cap" "\<not> check_exists bm g" "\<forall>j. pos \<le> j \<and> j < g \<or> g < j \<and> j \<le> pos \<longrightarrow> check_exists bm j"
  shows "gap_ok bm cap pos (int g)"
  using assms by (auto simp: gap_ok_def)

lemma gap_okE:
  assumes "gap_ok bm cap pos g"
  obtains k where "g = int k" "k < cap" "\<not> check_exists bm k" "\<forall>j. pos \<le> j \<and> j < k \<or> k < j \<and> j \<le> pos \<longrightarrow> check_exists bm j"
proof -
  have "g = int (nat g)" using assms by (simp add: gap_ok_def)
  then show thesis using assms that [of "nat g"] unfolding gap_ok_def by (metis nat_less_iff of_nat_le_iff of_nat_less_iff of_nat_0_le_iff)
qed

text \<open>The words between distance \<open>d\<close> on the left and on the right have no gap.\<close>

definition searched :: "u64 list \<Rightarrow> nat \<Rightarrow> nat \<Rightarrow> nat \<Rightarrow> bool" where
  "searched bm cap bp d \<longleftrightarrow> (\<forall>j<cap. 64 * (bp + 1) \<le> j + 64 * d \<and> j < 64 * (bp + d) \<longrightarrow> check_exists bm j)"

lemma searched_left:
  assumes s: "searched bm cap bp d" and "d \<le> bp" "bm ! (bp - d) \<noteq> -1" "pos div 64 = bp" "pos < cap" "1 \<le> d"
  shows "gap_ok bm cap pos (left_gap_pos bm (bp - d))"
proof -
  obtain i where i: "i < 64" "left_gap_pos bm (bp - d) = int (64 * (bp - d) + i)" "\<not> check_exists bm (64 * (bp - d) + i)"
    "\<forall>j. 64 * (bp - d) + i < j \<longrightarrow> j < 64 * (bp - d) + 64 \<longrightarrow> check_exists bm j" by (rule left_gap [OF assms(3)])
  let ?g = "64 * (bp - d) + i"
  have "64 * bp \<le> pos" and lt2: "pos < 64 * (bp + 1)" using assms(4) block64 [of pos bp] by simp_all
  then have lt: "?g < pos" "pos < 64 * (bp + 1)" using assms(2,6) i(1) by (simp_all add: diff_mult_distrib2)
  have "check_exists bm j" if "?g < j" "j \<le> pos" for j
  proof (cases "j < 64 * (bp - d) + 64")
    case False
    then have "64 * (bp + 1) \<le> j + 64 * d" using assms(2) by (simp add: diff_mult_distrib2)
    moreover have "j < 64 * (bp + d)" using that(2) lt(2) assms(6) by simp
    ultimately show ?thesis using s that(2) assms(5) unfolding searched_def by simp
  qed (use i(4) that in blast)
  then show ?thesis unfolding i(2) using i(3) lt(1) assms(5) by (intro gap_okI) auto
qed

lemma searched_right:
  assumes s: "searched bm cap bp d" and "bm ! (bp + d) \<noteq> -1" "right_gap_pos bm (bp + d) < cap" "pos div 64 = bp" "1 \<le> d"
  shows "gap_ok bm cap pos (int (right_gap_pos bm (bp + d)))"
proof -
  obtain i where i: "i < 64" "right_gap_pos bm (bp + d) = 64 * (bp + d) + i" "\<not> check_exists bm (64 * (bp + d) + i)"
    "\<forall>j. 64 * (bp + d) \<le> j \<longrightarrow> j < 64 * (bp + d) + i \<longrightarrow> check_exists bm j" by (rule right_gap [OF assms(2)])
  have lt: "pos < 64 * (bp + 1)" "64 * bp \<le> pos" using assms(4) block64 [of pos bp] by simp_all
  have "check_exists bm j" if "pos \<le> j" "j < 64 * (bp + d) + i" for j
  proof (cases "64 * (bp + d) \<le> j")
    case False
    moreover have "64 * 1 \<le> 64 * d" using assms(5) by (rule mult_le_mono2)
    ultimately have "j < 64 * (bp + d)" "64 * (bp + 1) \<le> j + 64 * d" using that(1) lt unfolding distrib_left by linarith+
    moreover have "j < cap" using that(2) assms(3) i(2) by simp
    ultimately show ?thesis using s unfolding searched_def by blast
  qed (use i(4) that in blast)
  then show ?thesis unfolding i(2) using i(3) assms(3,5) lt(1) by (intro gap_okI) (auto simp: i(2))
qed

lemma pick_gap_ok: "gap_ok bm cap pos lg \<Longrightarrow> rg < cap \<longrightarrow> gap_ok bm cap pos (int rg) \<Longrightarrow> gap_ok bm cap pos (pick_gap cap pos lg rg)"
  by (auto simp: pick_gap_def)

lemma searched_step:
  assumes s: "searched bm cap bp d" and "d \<le> bp" "bm ! (bp - d) = -1"
    and "bm ! (bp + d) = -1 \<or> cap \<le> right_gap_pos bm (bp + d)"
  shows "searched bm cap bp (d + 1)"
  unfolding searched_def
proof (intro allI impI, elim conjE)
  fix j assume j: "j < cap" "64 * (bp + 1) \<le> j + 64 * (d + 1)" "j < 64 * (bp + (d + 1))"
  consider "j < 64 * (bp - d) + 64" | "64 * (bp - d) + 64 \<le> j" "j < 64 * (bp + d)" | "64 * (bp + d) \<le> j" by linarith
  then show "check_exists bm j"
  proof cases
    case 1
    then show ?thesis using full_word [OF assms(3), of j] j(2) assms(2) by (simp add: diff_mult_distrib2)
  next
    case 2
    then have "64 * (bp + 1) \<le> j + 64 * d" using assms(2) by (simp add: diff_mult_distrib2)
    then show ?thesis using s 2 j(1) unfolding searched_def by simp
  next
    case 3
    show ?thesis
    proof (cases "bm ! (bp + d) = -1")
      case True
      then show ?thesis using full_word [OF True 3] j(3) by simp
    next
      case False
      then obtain i where "right_gap_pos bm (bp + d) = 64 * (bp + d) + i"
        "\<forall>j. 64 * (bp + d) \<le> j \<longrightarrow> j < 64 * (bp + d) + i \<longrightarrow> check_exists bm j" by (rule right_gap)
      then show ?thesis using assms(4) False j(1) 3 by auto
    qed
  qed
qed

text \<open>If the right word is full as well, the gap one word further is the next one to the right, and the same to the left.\<close>

lemma searched_right_next:
  assumes s: "searched bm cap bp d" and "d \<le> bp" "bm ! (bp + d) = -1" "bm ! (bp + d + 1) \<noteq> -1"
    "right_gap_pos bm (bp + d + 1) < cap" "pos div 64 = bp" "1 \<le> d"
  shows "gap_ok bm cap pos (int (right_gap_pos bm (bp + d + 1)))"
proof -
  have half: "check_exists bm j" if "64 * bp \<le> j" "j < 64 * (bp + (d + 1))" "j < cap" for j
  proof (cases "j < 64 * (bp + d)")
    case True
    moreover have "64 * 1 \<le> 64 * d" using assms(7) by (rule mult_le_mono2)
    then have "64 * (bp + 1) \<le> j + 64 * d" using that(1) unfolding distrib_left by linarith
    ultimately show ?thesis using s that(3) unfolding searched_def by blast
  qed (use full_word [OF assms(3), of j] that in simp)
  obtain i where i: "right_gap_pos bm (bp + d + 1) = 64 * (bp + d + 1) + i" "\<not> check_exists bm (64 * (bp + d + 1) + i)"
    "\<forall>j. 64 * (bp + d + 1) \<le> j \<longrightarrow> j < 64 * (bp + d + 1) + i \<longrightarrow> check_exists bm j" by (rule right_gap [OF assms(4)])
  have lt: "64 * bp \<le> pos" "pos < 64 * (bp + 1)" using assms(6) block64 [of pos bp] by simp_all
  have "check_exists bm j" if "pos \<le> j" "j < 64 * (bp + d + 1) + i" for j
  proof (cases "64 * (bp + d + 1) \<le> j")
    case False
    then show ?thesis using half [of j] that lt(1) assms(5) i(1) by simp
  qed (use i(3) that in blast)
  moreover have "\<not> (64 * (bp + d + 1) + i < j \<and> j \<le> pos)" for j using lt(2) unfolding distrib_left by linarith
  ultimately show ?thesis unfolding i(1) using i(2) assms(5) unfolding i(1) by (intro gap_okI) blast+
qed

lemma searched_left_next:
  assumes s: "searched bm cap bp d" and "d < bp" "bm ! (bp - d) = -1" "bm ! (bp - d - 1) \<noteq> -1" "pos div 64 = bp" "pos < cap" "1 \<le> d"
  shows "gap_ok bm cap pos (left_gap_pos bm (bp - d - 1))"
proof -
  obtain i where i: "i < 64" "left_gap_pos bm (bp - d - 1) = int (64 * (bp - d - 1) + i)" "\<not> check_exists bm (64 * (bp - d - 1) + i)"
    "\<forall>j. 64 * (bp - d - 1) + i < j \<longrightarrow> j < 64 * (bp - d - 1) + 64 \<longrightarrow> check_exists bm j" by (rule left_gap [OF assms(4)])
  let ?g = "64 * (bp - d - 1) + i"
  have "64 * bp \<le> pos" and lt2: "pos < 64 * (bp + 1)" using assms(5) block64 [of pos bp] by simp_all
  moreover have b: "64 * (bp - d - 1) + 64 = 64 * (bp - d)" "64 * (bp - d) + 64 * d = 64 * bp"
    using assms(2) by (simp_all add: diff_mult_distrib2)
  ultimately have lt: "?g < pos" using i(1) by linarith
  have "check_exists bm j" if j: "?g < j" "j \<le> pos" for j
  proof -
    consider "j < 64 * (bp - d - 1) + 64" | "64 * (bp - d) \<le> j" "j < 64 * (bp - d) + 64" | "64 * (bp - d) + 64 \<le> j"
      using b by linarith
    then show ?thesis
    proof cases
      case 1
      with i(4) j(1) show ?thesis by blast
    next
      case 2
      then show ?thesis by (rule full_word [OF assms(3)])
    next
      case 3
      then have "64 * (bp + 1) \<le> j + 64 * d" using b by simp
      moreover have "64 * 1 \<le> 64 * d" using assms(7) by (rule mult_le_mono2)
      then have "j < 64 * (bp + d)" using j(2) lt2 by simp
      ultimately show ?thesis using s j(2) assms(6) unfolding searched_def by simp
    qed
  qed
  then show ?thesis unfolding i(2) using i(3) lt assms(6) by (intro gap_okI) auto
qed

lemma gap_loop_spec:
  assumes "pos div 64 = bp" "pos < cap" "mx \<le> bp" "1 \<le> d" "searched bm cap bp d"
  shows "case gap_loop bm cap pos bp b mx d of
      Inl g \<Rightarrow> gap_ok bm cap pos g
    | Inr d' \<Rightarrow> d' = max d (mx + 1) \<and> searched bm cap bp d'"
  using assms
proof (induction bm cap pos bp b mx d rule: gap_loop.induct)
  case (1 bm cap pos bp b mx d)
  note p = "1.prems"
  show ?case
  proof (cases "d \<le> mx")
    case True
    then have d: "d \<le> bp" using p(3) by simp
    have L: "gap_ok bm cap pos (left_gap_pos bm (bp - d))" if "bm ! (bp - d) \<noteq> -1"
      by (rule searched_left [OF p(5) d that p(1,2,4)])
    have R: "gap_ok bm cap pos (int (right_gap_pos bm (bp + d)))" if "bm ! (bp + d) \<noteq> -1" "right_gap_pos bm (bp + d) < cap"
      by (rule searched_right [OF p(5) that p(1,4)])
    consider (both) "bm ! (bp - d) \<noteq> -1" "bm ! (bp + d) \<noteq> -1" | (left) "bm ! (bp - d) \<noteq> -1" "bm ! (bp + d) = -1"
      | (right) "bm ! (bp - d) = -1" "bm ! (bp + d) \<noteq> -1" "right_gap_pos bm (bp + d) < cap"
      | (none) "bm ! (bp - d) = -1" "bm ! (bp + d) = -1 \<or> cap \<le> right_gap_pos bm (bp + d)" by linarith
    then show ?thesis
    proof cases
      case both
      then have "gap_loop bm cap pos bp b mx d = Inl (pick_gap cap pos (left_gap_pos bm (bp - d)) (right_gap_pos bm (bp + d)))"
        using True by (subst gap_loop.simps) simp
      then show ?thesis using pick_gap_ok L R both by simp
    next
      case left
      have "gap_ok bm cap pos (pick_gap cap pos (left_gap_pos bm (bp - d)) (right_gap_pos bm (bp + d + 1)))"
        if "bm ! (bp + d + 1) \<noteq> -1"
        using searched_right_next [OF p(5) d left(2) that _ p(1,4)] L left(1) by (auto intro: pick_gap_ok)
      then show ?thesis using True left L by (subst gap_loop.simps) simp
    next
      case right
      have "gap_ok bm cap pos (pick_gap cap pos (left_gap_pos bm (bp - d - 1)) (right_gap_pos bm (bp + d)))"
        if "d < bp" "bm ! (bp - d - 1) \<noteq> -1"
        using searched_left_next [OF p(5) that(1) right(1) that(2) p(1,2,4)] R right(2,3) by (auto intro: pick_gap_ok)
      then show ?thesis using True right R by (subst gap_loop.simps) simp
    next
      case none
      have step: "gap_loop bm cap pos bp b mx d = gap_loop bm cap pos bp b mx (d + 1)"
        using True none by (subst gap_loop.simps) auto
      have "case gap_loop bm cap pos bp b mx (d + 1) of Inl g \<Rightarrow> gap_ok bm cap pos g
        | Inr d' \<Rightarrow> d' = max (d + 1) (mx + 1) \<and> searched bm cap bp d'"
        by (rule "1.IH" [OF True refl refl]) (use none p searched_step [OF p(5) d none] in auto)
      then show ?thesis unfolding step using True by (auto split: sum.splits)
    qed
  next
    case False
    then show ?thesis using p(5) by (subst gap_loop.simps) simp
  qed
qed

section \<open>The search succeeds\<close>

lemma gap_scan_left_spec:
  assumes "\<not> check_exists bm j" "j < 64 * n" "pos < cap" "64 * n \<le> pos"
    and "\<forall>j. 64 * n \<le> j \<longrightarrow> j \<le> pos \<longrightarrow> check_exists bm j"
  shows "gap_ok bm cap pos (gap_scan_left bm n)"
  using assms(2,4,5)
proof (induction n)
  case (Suc n)
  show ?case
  proof (cases "bm ! n = -1")
    case True
    have full: "check_exists bm x" if "64 * n \<le> x" "x \<le> pos" for x
      using full_word [OF True that(1)] Suc.prems(3) that(2) by (cases "x < 64 * n + 64") auto
    have "j < 64 * n" using full_word [OF True, of j] assms(1) Suc.prems(1) by (cases "64 * n \<le> j") auto
    then show ?thesis using Suc.IH full True Suc.prems(2) by simp
  next
    case False
    then obtain i where i: "i < 64" "left_gap_pos bm n = int (64 * n + i)" "\<not> check_exists bm (64 * n + i)"
      "\<forall>j. 64 * n + i < j \<longrightarrow> j < 64 * n + 64 \<longrightarrow> check_exists bm j" by (rule left_gap)
    have "check_exists bm x" if "64 * n + i < x" "x \<le> pos" for x
      using i(4) Suc.prems(3) that by (cases "x < 64 * n + 64") auto
    moreover have "64 * n + i < pos" using Suc.prems(2) i(1) by simp
    ultimately have "gap_ok bm cap pos (int (64 * n + i))" using i(3) assms(3) by (intro gap_okI) auto
    then show ?thesis using False by (simp add: i(2))
  qed
qed simp

lemma gap_scan_right_spec:
  assumes "\<not> check_exists bm j" "64 * i \<le> j" "j < cap" "j div 64 \<le> r" "pos < 64 * i"
    and "\<forall>j. pos \<le> j \<longrightarrow> j < 64 * i \<longrightarrow> check_exists bm j"
  shows "gap_ok bm cap pos (gap_scan_right bm cap r i)"
  using assms
proof (induction bm cap r i rule: gap_scan_right.induct)
  case (1 bm cap r i)
  note p = "1.prems"
  have r: "i \<le> r" using p(2,4) by linarith
  show ?case
  proof (cases "bm ! i = -1")
    case True
    have le: "64 * (i + 1) \<le> j" using full_word [OF True p(2)] p(1) by force
    have "check_exists bm x" if "pos \<le> x" "x < 64 * (i + 1)" for x
      using p(6) full_word [OF True, of x] that by (cases "x < 64 * i") auto
    then have "gap_ok bm cap pos (gap_scan_right bm cap r (i + 1))"
      using "1.IH" [OF r _ p(1) le p(3,4)] True p(5) by simp
    then show ?thesis using r True by (subst gap_scan_right.simps) simp
  next
    case False
    then obtain x where x: "x < 64" "right_gap_pos bm i = 64 * i + x" "\<not> check_exists bm (64 * i + x)"
      "\<forall>j. 64 * i \<le> j \<longrightarrow> j < 64 * i + x \<longrightarrow> check_exists bm j" by (rule right_gap)
    have le: "64 * i + x \<le> j" using x(4) p(1,2) by (meson not_less)
    have "check_exists bm y" if "pos \<le> y" "y < 64 * i + x" for y
      using p(6) x(4) that by (cases "y < 64 * i") auto
    then have "gap_ok bm cap pos (int (64 * i + x))" using x(3) le p(3,5) by (intro gap_okI) auto
    then show ?thesis using r False le p(3) by (subst gap_scan_right.simps) (simp add: x(2))
  qed
qed

lemma closest_gap_outside_spec:
  assumes gap: "j < cap" "\<not> check_exists bm j" and pos: "pos < cap"
    and full: "\<forall>j<cap. j div 64 = pos div 64 \<longrightarrow> check_exists bm j"
  shows "gap_ok bm cap pos (closest_gap_outside bm cap pos)"
proof -
  define bp where "bp = pos div 64"
  define rp where "rp = (cap - 1) div 64"
  have bnd: "64 * bp \<le> pos" "pos < 64 * (bp + 1)" using block64 [of pos bp] by (simp_all add: bp_def)
  have le: "bp \<le> rp" unfolding bp_def rp_def using pos by (intro div_le_mono) simp
  have capr: "cap \<le> 64 * (rp + 1)" using block64 [of "cap - 1" rp] by (simp add: rp_def)
  have "searched bm cap bp 1"
    unfolding searched_def using full block64 [of _ bp] by (auto simp: bp_def)
  note loop = gap_loop_spec [where b = "pos - bp * 64" and mx = "min bp (rp - bp)", OF bp_def [symmetric] pos _ order_refl this]
  show ?thesis
  proof (cases "gap_loop bm cap pos bp (pos - bp * 64) (min bp (rp - bp)) 1")
    case (Inl g)
    then show ?thesis using loop by (simp add: closest_gap_outside_def Let_def bp_def rp_def)
  next
    case (Inr d)
    then have d: "d = min bp (rp - bp) + 1" "searched bm cap bp d" using loop by auto
    show ?thesis
    proof (cases "rp - bp < bp")
      case True
      then have d1: "d = rp - bp + 1" using d(1) by simp
      define e where "e = bp + 1 - d"
      have e: "bp + 1 = e + d" "bp + d = rp + 1" using d1 le True by (simp_all add: e_def)
      then have ep: "64 * e \<le> pos" using bnd(1) d1 by simp
      have flag: "check_exists bm x" if "64 * e \<le> x" "x < cap" for x
      proof -
        have "64 * (bp + 1) \<le> x + 64 * d" using that(1) unfolding e(1) by simp
        moreover have "x < 64 * (bp + d)" using that(2) capr unfolding e(2) by simp
        ultimately show ?thesis using d(2) that(2) unfolding searched_def by blast
      qed
      then have "j < 64 * e" using gap by (meson not_less)
      then have "gap_ok bm cap pos (gap_scan_left bm e)"
        using gap_scan_left_spec [OF gap(2) _ pos ep] flag pos by auto
      then have "gap_ok bm cap pos (gap_scan_left bm (bp + 1 - d))" unfolding e_def .
      then show ?thesis using Inr True by (simp add: closest_gap_outside_def Let_def bp_def rp_def)
    next
      case False
      then have d1: "d = bp + 1" using d(1) le by simp
      have flag: "check_exists bm x" if "x < 64 * (bp + d)" "x < cap" for x
        using d(2) that d1 unfolding searched_def by simp
      then have "64 * (bp + d) \<le> j" using gap by (meson not_less)
      moreover have "j div 64 \<le> rp" unfolding rp_def using gap(1) by (intro div_le_mono) simp
      moreover have "pos < 64 * (bp + d)" using bnd(2) unfolding d1 by simp
      ultimately have "gap_ok bm cap pos (gap_scan_right bm cap rp (bp + d))"
        using flag gap by (intro gap_scan_right_spec [OF gap(2)]) auto
      then show ?thesis using Inr False by (simp add: closest_gap_outside_def Let_def bp_def rp_def)
    qed
  qed
qed

lemma bit_lower_mask: "i < 64 \<Longrightarrow> bit (lower_mask m) i \<longleftrightarrow> i < m"
  using bit_masked(2) [of i "-1" m] by simp

lemma right_inside:
  assumes "b < 64" and rg: "rg = NOT (bm ! k OR lower_mask b)"
  shows "rg \<noteq> 0 \<Longrightarrow> \<exists>x. b \<le> x \<and> x < 64 \<and> tzcnt_u64 rg = x \<and> \<not> check_exists bm (64 * k + x)
      \<and> (\<forall>j. b \<le> j \<longrightarrow> j < x \<longrightarrow> check_exists bm (64 * k + j))"
    and "rg = 0 \<Longrightarrow> \<forall>j. b \<le> j \<longrightarrow> j < 64 \<longrightarrow> check_exists bm (64 * k + j)"
proof -
  have bits: "bit rg i \<longleftrightarrow> \<not> bit (bm ! k) i \<and> b \<le> i" if "i < 64" for i
    using that by (auto simp: rg bit_simps possible_bit_word bit_lower_mask)
  show "\<exists>x. b \<le> x \<and> x < 64 \<and> tzcnt_u64 rg = x \<and> \<not> check_exists bm (64 * k + x)
      \<and> (\<forall>j. b \<le> j \<longrightarrow> j < x \<longrightarrow> check_exists bm (64 * k + j))" if "rg \<noteq> 0"
  proof -
    obtain x where x: "x < 64" "bit rg x" "\<forall>j<x. \<not> bit rg j" by (rule least_bit [OF \<open>rg \<noteq> 0\<close>])
    have "check_exists bm (64 * k + j)" if "b \<le> j" "j < x" for j
      using bits [of j] x(1,3) that by (auto simp: check_exists_at)
    then show ?thesis using tzcnt_least [OF x] bits [OF x(1)] x(1,2) by (auto simp: check_exists_at)
  qed
  show "\<forall>j. b \<le> j \<longrightarrow> j < 64 \<longrightarrow> check_exists bm (64 * k + j)" if "rg = 0"
    using bits that by (auto simp: check_exists_at)
qed

lemma left_inside:
  assumes "b < 64" and lg: "lg = NOT (bm ! k) AND lower_mask b"
  shows "lg \<noteq> 0 \<Longrightarrow> \<exists>x. x < b \<and> lzcnt_u64 lg = 63 - x \<and> \<not> check_exists bm (64 * k + x)
      \<and> (\<forall>j. x < j \<longrightarrow> j < b \<longrightarrow> check_exists bm (64 * k + j))"
    and "lg = 0 \<Longrightarrow> \<forall>j<b. check_exists bm (64 * k + j)"
proof -
  have bits: "bit lg i \<longleftrightarrow> \<not> bit (bm ! k) i \<and> i < b" if "i < 64" for i
    using that bit_masked(2) [OF that, of "NOT (bm ! k)" b] by (simp add: lg bit_not_iff possible_bit_word)
  show "\<exists>x. x < b \<and> lzcnt_u64 lg = 63 - x \<and> \<not> check_exists bm (64 * k + x)
      \<and> (\<forall>j. x < j \<longrightarrow> j < b \<longrightarrow> check_exists bm (64 * k + j))" if "lg \<noteq> 0"
  proof -
    obtain x where x: "x < 64" "bit lg x" "\<forall>j. x < j \<longrightarrow> j < 64 \<longrightarrow> \<not> bit lg j" by (rule greatest_bit [OF \<open>lg \<noteq> 0\<close>])
    have "check_exists bm (64 * k + j)" if "x < j" "j < b" for j
      using bits [of j] x(3) that assms(1) by (auto simp: check_exists_at)
    then show ?thesis using lzcnt_greatest [OF x] bits [OF x(1)] x(1,2) by (auto simp: check_exists_at)
  qed
  show "\<forall>j<b. check_exists bm (64 * k + j)" if "lg = 0"
  proof (intro allI impI)
    fix j assume "j < b"
    then show "check_exists bm (64 * k + j)" using bits [of j] \<open>lg = 0\<close> assms(1) by (simp add: check_exists_at)
  qed
qed

text \<open>A gap at distance \<open>r\<close> to the right or \<open>l\<close> to the left with no gap on the way.\<close>

lemma gap_right_ok:
  assumes "\<not> check_exists bm (pos + r)" "pos + r < cap" "\<forall>j<r. check_exists bm (pos + j)"
  shows "gap_ok bm cap pos (int pos + int r)"
proof -
  have "check_exists bm j" if "pos \<le> j" "j < pos + r" for j
    using assms(3) that by (metis le_Suc_ex nat_add_left_cancel_less)
  then have "gap_ok bm cap pos (int (pos + r))" using assms(1,2) by (intro gap_okI) auto
  then show ?thesis by simp
qed

lemma gap_left_ok:
  assumes "\<not> check_exists bm (pos - l)" "pos < cap" "l \<le> pos" "0 < l" "\<forall>j. 0 < j \<longrightarrow> j < l \<longrightarrow> check_exists bm (pos - j)"
    and "check_exists bm pos"
  shows "gap_ok bm cap pos (int pos - int l)"
proof -
  have "check_exists bm j" if "pos - l < j" "j \<le> pos" for j
  proof (cases "j = pos")
    case False
    then show ?thesis using assms(5) [rule_format, of "pos - j"] that assms(3) by simp
  qed (use assms(6) in simp)
  then have "gap_ok bm cap pos (int (pos - l))" using assms(1-4) by (intro gap_okI) auto
  then show ?thesis using assms(3) by (simp add: of_nat_diff)
qed

lemma closest_gap_inside_spec:
  assumes pos: "pos < cap" and gap: "g < cap" "g div 64 = pos div 64" "\<not> check_exists bm g"
  shows "gap_ok bm cap pos (closest_gap_inside bm cap pos)"
proof -
  define bp where "bp = pos div 64"
  define b where "b = pos mod 64"
  define rg where "rg = NOT (bm ! bp OR lower_mask b)"
  define lg where "lg = NOT (bm ! bp) AND lower_mask b"
  define rd where "rd = (if rg \<noteq> 0 then int (tzcnt_u64 rg) - int b
     else if bp + 1 < length bm then 64 + int (tzcnt_u64 (NOT (bm ! (bp + 1)))) - int b else 64)"
  define ld where "ld = (if lg \<noteq> 0 then int b - (63 - int (lzcnt_u64 lg))
     else if 0 < bp then int b + int (lzcnt_u64 (NOT (bm ! (bp - 1)))) + 1 else 64)"
  have res: "closest_gap_inside bm cap pos = (if rd < ld \<and> int pos + rd < int cap then int pos + rd else int pos - ld)"
    unfolding rd_def ld_def rg_def lg_def b_def bp_def closest_gap_inside_def Let_def mod64 by (rule refl)
  have b: "b < 64" "pos = 64 * bp + b" by (simp_all add: b_def bp_def)
  note R = right_inside [OF b(1) rg_def] and L = left_inside [OF b(1) lg_def]
  define gx where "gx = g mod 64"
  have gx: "gx < 64" "g = 64 * bp + gx" using gap(2) split64 [of g] by (simp_all add: gx_def bp_def)
  show ?thesis
  proof (cases "rd < ld \<and> int pos + rd < int cap")
    case True
    have "gap_ok bm cap pos (int pos + rd)"
    proof (cases "rg = 0")
      case False
      then obtain x where x: "b \<le> x" "x < 64" "tzcnt_u64 rg = x" "\<not> check_exists bm (64 * bp + x)"
        "\<forall>j. b \<le> j \<longrightarrow> j < x \<longrightarrow> check_exists bm (64 * bp + j)" using R(1) by blast
      have rd: "rd = int (x - b)" using False x(1,3) by (simp add: rd_def of_nat_diff)
      have "gap_ok bm cap pos (int pos + int (x - b))"
        using x True by (intro gap_right_ok) (auto simp: b(2) rd add.assoc)
      then show ?thesis by (simp add: rd)
    next
      case rg0: True
      have fl: "check_exists bm (64 * bp + j)" if "b \<le> j" "j < 64" for j using R(2) rg0 that by blast
      then have "gx < b" using gap(3) gx by (meson not_less)
      then have "lg \<noteq> 0" using L(2) gap(3) gx(2) by blast
      then obtain y where y: "y < b" "lzcnt_u64 lg = 63 - y" using L(1) by blast
      have "ld = int b - int y" using \<open>lg \<noteq> 0\<close> y b(1) by (simp add: ld_def of_nat_diff)
      then have ld: "rd < 64" using True b(1) by simp
      then have nx: "bp + 1 < length bm" "rd = 64 + int (tzcnt_u64 (NOT (bm ! (bp + 1)))) - int b"
        using rg0 by (auto simp: rd_def split: if_splits)
      have nf: "bm ! (bp + 1) \<noteq> -1" using ld nx(2) b(1) by (auto simp: tzcnt_zero)
      obtain i where i: "i < 64" "right_gap_pos bm (bp + 1) = 64 * (bp + 1) + i" "\<not> check_exists bm (64 * (bp + 1) + i)"
        "\<forall>j. 64 * (bp + 1) \<le> j \<longrightarrow> j < 64 * (bp + 1) + i \<longrightarrow> check_exists bm j" by (rule right_gap [OF nf])
      have r: "rd = int (64 - b + i)" using nx(2) i(2) b(1) by (simp add: right_gap_pos_def of_nat_diff)
      have e: "pos + (64 - b + i) = 64 * (bp + 1) + i" using b by simp
      have "check_exists bm (pos + j)" if "j < 64 - b + i" for j
      proof (cases "b + j < 64")
        case True
        then show ?thesis using fl [of "b + j"] by (simp add: b(2) add.assoc)
      next
        case False
        then have "64 * (bp + 1) \<le> pos + j" "pos + j < 64 * (bp + 1) + i" using that b by simp_all
        then show ?thesis using i(4) by blast
      qed
      moreover have "pos + (64 - b + i) < cap" using True r by linarith
      ultimately have "gap_ok bm cap pos (int pos + int (64 - b + i))"
        using i(3) unfolding e [symmetric] by (intro gap_right_ok) auto
      then show ?thesis unfolding r .
    qed
    then show ?thesis unfolding res if_P [OF True] .
  next
    case False
    have "gap_ok bm cap pos (int pos - ld)"
    proof (cases "lg = 0")
      case lg: False
      then obtain y where y: "y < b" "lzcnt_u64 lg = 63 - y" "\<not> check_exists bm (64 * bp + y)"
        "\<forall>j. y < j \<longrightarrow> j < b \<longrightarrow> check_exists bm (64 * bp + j)" using L(1) by blast
      have ld: "ld = int (b - y)" using lg y b(1) by (simp add: ld_def of_nat_diff)
      have "check_exists bm pos"
      proof (rule ccontr)
        assume n: "\<not> check_exists bm pos"
        then have "rg \<noteq> 0" using R(2) b by blast
        then obtain x where x: "b \<le> x" "tzcnt_u64 rg = x" "\<forall>j. b \<le> j \<longrightarrow> j < x \<longrightarrow> check_exists bm (64 * bp + j)" using R(1) by blast
        then have "x = b" using n b(2) by (metis le_neq_implies_less order_refl)
        then have "rd = 0" using \<open>rg \<noteq> 0\<close> x(2) by (simp add: rd_def)
        then show False using False pos y(1) ld by simp
      qed
      moreover have "check_exists bm (pos - j)" if "0 < j" "j < b - y" for j
      proof -
        have "pos - j = 64 * bp + (b - j)" using that b(2) by simp
        then show ?thesis using y(4) [rule_format, of "b - j"] that by simp
      qed
      moreover have "pos - (b - y) = 64 * bp + y" using b(2) y(1) by simp
      ultimately have "gap_ok bm cap pos (int pos - int (b - y))"
        using y(1,3) pos b(2) by (intro gap_left_ok) auto
      then show ?thesis by (simp add: ld)
    next
      case lg0: True
      have fl: "check_exists bm (64 * bp + j)" if "j < b" for j using L(2) lg0 that by blast
      then have gb: "b \<le> gx" using gap(3) gx(2) by (meson not_less)
      then have "rg \<noteq> 0" using R(2) gap(3) gx by blast
      then obtain x where x: "b \<le> x" "x < 64" "tzcnt_u64 rg = x"
        "\<forall>j. b \<le> j \<longrightarrow> j < x \<longrightarrow> check_exists bm (64 * bp + j)" using R(1) by blast
      have "x \<le> gx" using x(4) gb gap(3) gx(2) by (meson not_less)
      have rd: "rd = int (x - b)" using \<open>rg \<noteq> 0\<close> x(1,3) by (simp add: rd_def of_nat_diff)
      have "int pos + rd < int cap" using \<open>x \<le> gx\<close> gap(1) gx(2) x(1) by (simp add: rd b(2))
      then have le: "ld \<le> int (x - b)" using False rd by simp
      then have bp0: "0 < bp" "ld = int b + int (lzcnt_u64 (NOT (bm ! (bp - 1)))) + 1"
        using lg0 x(2) by (auto simp: ld_def split: if_splits)
      have nf: "bm ! (bp - 1) \<noteq> -1" using le bp0(2) x(2) by (auto simp: lzcnt_zero)
      obtain i where i: "i < 64" "left_gap_pos bm (bp - 1) = int (64 * (bp - 1) + i)" "\<not> check_exists bm (64 * (bp - 1) + i)"
        "\<forall>j. 64 * (bp - 1) + i < j \<longrightarrow> j < 64 * (bp - 1) + 64 \<longrightarrow> check_exists bm j" by (rule left_gap [OF nf])
      have bpe: "64 * (bp - 1) + 64 = 64 * bp" using bp0(1) by (simp add: diff_mult_distrib2)
      have lz: "lzcnt_u64 (NOT (bm ! (bp - 1))) = 63 - i"
        using i(1,2) bp0(1) unfolding left_gap_pos_def by (simp add: of_nat_diff)
      have ld: "ld = int (b + (64 - i))" using bp0(2) lz i(1) by (simp add: of_nat_diff)
      have "x \<noteq> b" using le ld i(1) by simp
      then have ex: "check_exists bm pos" using x(1,4) b(2) by simp
      have e: "pos - (b + (64 - i)) = 64 * (bp - 1) + i" "b + (64 - i) \<le> pos" using b(2) bpe i(1) by linarith+
      have "check_exists bm (pos - j)" if "0 < j" "j < b + (64 - i)" for j
      proof (cases "j \<le> b")
        case True
        then have "pos - j = 64 * bp + (b - j)" using b(2) by simp
        then show ?thesis using fl [of "b - j"] that(1) True by simp
      next
        case False
        then have "64 * (bp - 1) + i < pos - j" "pos - j < 64 * (bp - 1) + 64" using b(2) bpe that i(1) by linarith+
        then show ?thesis using i(4) by blast
      qed
      then have "gap_ok bm cap pos (int pos - int (b + (64 - i)))"
        using e i(3) pos ex i(1) by (intro gap_left_ok) auto
      then show ?thesis unfolding ld .
    qed
    then show ?thesis unfolding res if_not_P [OF False] .
  qed
qed

lemma popcnt_last_block:
  assumes "bitmap_ok bm cap" "0 < cap" "k = length bm - 1"
  shows "mm_popcnt_u64 (bm ! k) = length (filter (check_exists bm) [64 * k..<cap])"
proof -
  have len: "length bm = (cap + 63) div 64" and out: "\<forall>p. cap \<le> p \<longrightarrow> p < 64 * length bm \<longrightarrow> \<not> check_exists bm p"
    using assms(1) by (auto simp: bitmap_ok_def)
  have k: "64 * k < cap" "cap \<le> 64 * k + 64" "Suc k = length bm" using len assms(2,3) by auto
  show ?thesis
  proof (rule popcnt_flags [where k = k])
    show "\<forall>i<64. bit (bm ! k) i \<longleftrightarrow> 64 * k \<le> 64 * k + i \<and> 64 * k + i < cap \<and> check_exists bm (64 * k + i)"
    proof (intro allI impI)
      fix i :: nat assume i: "i < 64"
      have "64 * k + i < 64 * length bm" using k(3) i by (simp flip: k(3))
      then show "bit (bm ! k) i \<longleftrightarrow> 64 * k \<le> 64 * k + i \<and> 64 * k + i < cap \<and> check_exists bm (64 * k + i)"
        using out i by (auto simp: check_exists_at not_less [symmetric])
    qed
  qed (use k in simp_all)
qed

lemma closest_gap_spec:
  assumes ok: "bitmap_ok bm cap" and gap: "j < cap" "\<not> check_exists bm j"
  shows "gap_ok bm cap (min pos0 (cap - 1)) (closest_gap bm cap pos0)"
proof -
  define pos where "pos = min pos0 (cap - 1)"
  define k where "k = pos div 64"
  have pos: "pos < cap" "64 * k \<le> pos" "pos < 64 * (k + 1)" using gap(1) block64 [of pos k] by (auto simp: pos_def k_def)
  have kl: "k < length bm" using bitmap_ok_fits [OF ok pos(1)] by (simp add: k_def div64_less)
  let ?last = "k = length bm - 1 \<and> mm_popcnt_u64 (bm ! k) = cap - (length bm - 1) * 64"
  have full: "check_exists bm x" if "x < cap" "x div 64 = k" "bm ! k = -1 \<or> ?last" for x
  proof (cases "bm ! k = -1")
    case True
    then show ?thesis using full_word [OF True, of x] that(2) block64 [of x k] by simp
  next
    case False
    then have l: "k = length bm - 1" "length (filter (check_exists bm) [64 * k..<cap]) = length [64 * k..<cap]"
      using that(3) popcnt_last_block [OF ok _ refl] gap(1) by (auto simp: mult.commute)
    moreover have "x \<in> set [64 * k..<cap]" using that(1,2) block64 [of x k] by simp
    ultimately show ?thesis using length_filter_less [of x "[64 * k..<cap]" "check_exists bm"] by fastforce
  qed
  show ?thesis
  proof (cases "bm ! k = -1 \<or> ?last")
    case True
    then have "closest_gap bm cap pos0 = closest_gap_outside bm cap pos"
      unfolding closest_gap_def Let_def pos_def k_def by (rule if_P)
    moreover have "\<forall>j<cap. j div 64 = pos div 64 \<longrightarrow> check_exists bm j" using full True unfolding k_def by blast
    ultimately show ?thesis using closest_gap_outside_spec [OF gap pos(1)] by (simp add: pos_def)
  next
    case False
    then have "closest_gap bm cap pos0 = closest_gap_inside bm cap pos"
      unfolding closest_gap_def Let_def pos_def k_def by (rule if_not_P)
    moreover have "\<exists>g<cap. g div 64 = k \<and> \<not> check_exists bm g"
    proof (rule ccontr)
      assume "\<not> ?thesis"
      then have all: "check_exists bm x" if "x < cap" "x div 64 = k" for x using that by blast
      show False
      proof (cases "64 * (k + 1) \<le> cap")
        case True
        have "bit (bm ! k) i" if "i < 64" for i
          using all [of "64 * k + i"] that True by (simp add: check_exists_at)
        then show False using False all_ones by blast
      next
        case nt: False
        then have "k = length bm - 1" using ok pos kl unfolding bitmap_ok_def by auto
        moreover have "filter (check_exists bm) [64 * k..<cap] = [64 * k..<cap]"
          using all nt block64 [of _ k] by (auto simp: filter_id_conv)
        ultimately show False using False popcnt_last_block [OF ok _ refl] gap(1) by (simp add: mult.commute)
      qed
    qed
    ultimately show ?thesis using closest_gap_inside_spec [OF pos(1)] by (metis k_def pos_def)
  qed
qed

section \<open>The version without the counting instructions\<close>

text \<open>The positions closer than \<open>d\<close> are filled.\<close>

definition near_filled :: "u64 list \<Rightarrow> nat \<Rightarrow> nat \<Rightarrow> nat \<Rightarrow> bool" where
  "near_filled bm cap pos d \<longleftrightarrow> (\<forall>j<cap. j < pos + d \<and> pos < j + d \<longrightarrow> check_exists bm j)"

lemma near_filled_step:
  "near_filled bm cap pos d \<Longrightarrow> check_exists bm (pos - d) \<Longrightarrow> check_exists bm (pos + d) \<Longrightarrow> near_filled bm cap pos (d + 1)"
proof -
  assume a: "near_filled bm cap pos d" "check_exists bm (pos - d)" "check_exists bm (pos + d)"
  have "check_exists bm j" if j: "j < cap" "j < pos + (d + 1)" "pos < j + (d + 1)" for j
  proof -
    consider "j = pos + d" | "j = pos - d" | "j < pos + d" "pos < j + d" using j by linarith
    then show ?thesis using a j(1) by cases (auto simp: near_filled_def)
  qed
  then show ?thesis by (auto simp: near_filled_def)
qed

lemma slow_gap_loop_spec:
  assumes "near_filled bm cap pos d" "mx \<le> pos" "pos + mx < cap" "1 \<le> d" "pos < cap"
  shows "case slow_gap_loop bm pos mx d of Inl g \<Rightarrow> gap_ok bm cap pos g | Inr d' \<Rightarrow> d' = max d (mx + 1) \<and> near_filled bm cap pos d'"
  using assms
proof (induction bm pos mx d rule: slow_gap_loop.induct)
  case (1 bm pos mx d)
  note p = "1.prems"
  show ?case
  proof (cases "d \<le> mx")
    case False
    then show ?thesis using p by (subst slow_gap_loop.simps) auto
  next
    case le: True
    consider "\<not> check_exists bm (pos - d)" | "check_exists bm (pos - d)" "\<not> check_exists bm (pos + d)"
      | "check_exists bm (pos - d)" "check_exists bm (pos + d)" by blast
    then show ?thesis
    proof cases
      case 1
      then have "gap_ok bm cap pos (int (pos - d))"
        using le p by (intro gap_okI) (auto simp: near_filled_def)
      then show ?thesis using le 1 by (subst slow_gap_loop.simps) simp
    next
      case 2
      then have "gap_ok bm cap pos (int (pos + d))"
        using le p by (intro gap_okI) (auto simp: near_filled_def)
      then show ?thesis using le 2 by (subst slow_gap_loop.simps) simp
    next
      case 3
      then have "case slow_gap_loop bm pos mx (d + 1) of Inl g \<Rightarrow> gap_ok bm cap pos g
          | Inr d' \<Rightarrow> d' = max (d + 1) (mx + 1) \<and> near_filled bm cap pos d'"
        using "1.IH" [OF le] near_filled_step [OF p(1)] p by simp
      moreover have "slow_gap_loop bm pos mx d = slow_gap_loop bm pos mx (d + 1)"
        using le 3 by (subst slow_gap_loop.simps) simp
      ultimately show ?thesis using le by (simp split: sum.splits)
    qed
  qed
qed

lemma slow_scan_left_spec:
  "(\<forall>j. i \<le> j \<longrightarrow> j < hi \<longrightarrow> check_exists bm j) \<Longrightarrow> j0 < i \<Longrightarrow> \<not> check_exists bm j0 \<Longrightarrow>
    \<exists>g. slow_scan_left bm i = int g \<and> g < i \<and> \<not> check_exists bm g \<and> (\<forall>j. g < j \<longrightarrow> j < hi \<longrightarrow> check_exists bm j)"
proof (induction i)
  case (Suc i)
  show ?case
  proof (cases "check_exists bm i")
    case True
    moreover have "j0 < i" using Suc.prems True by (auto simp: less_Suc_eq)
    moreover have "check_exists bm j" if "i \<le> j" "j < hi" for j using Suc.prems(1) True that by (cases "j = i") auto
    ultimately have "\<forall>j. i \<le> j \<longrightarrow> j < hi \<longrightarrow> check_exists bm j" "j0 < i" by blast+
    then show ?thesis using Suc.IH Suc.prems(3) True by auto
  qed (use Suc.prems in \<open>auto intro!: exI [of _ i]\<close>)
qed simp

lemma slow_scan_right_spec:
  "(\<forall>j. lo \<le> j \<longrightarrow> j < i \<longrightarrow> check_exists bm j) \<Longrightarrow> i \<le> j0 \<Longrightarrow> j0 < cap \<Longrightarrow> \<not> check_exists bm j0 \<Longrightarrow>
    \<exists>g. slow_scan_right bm cap i = int g \<and> g < cap \<and> i \<le> g \<and> \<not> check_exists bm g \<and> (\<forall>j. lo \<le> j \<longrightarrow> j < g \<longrightarrow> check_exists bm j)"
proof (induction bm cap i rule: slow_scan_right.induct)
  case (1 bm cap i)
  have i: "i < cap" using "1.prems" by simp
  show ?case
  proof (cases "check_exists bm i")
    case True
    then have "\<forall>j. lo \<le> j \<longrightarrow> j < i + 1 \<longrightarrow> check_exists bm j" "i + 1 \<le> j0"
      using "1.prems" by (auto simp: less_Suc_eq le_eq_less_or_eq)
    then obtain g where "slow_scan_right bm cap (i + 1) = int g" "g < cap" "i + 1 \<le> g" "\<not> check_exists bm g"
      "\<forall>j. lo \<le> j \<longrightarrow> j < g \<longrightarrow> check_exists bm j" using "1.IH" [OF i] True "1.prems"(3,4) by auto
    then show ?thesis using i True by (subst slow_scan_right.simps) auto
  next
    case False
    then show ?thesis using i "1.prems"(1) by (subst slow_scan_right.simps) auto
  qed
qed

text \<open>The plain search also finds a gap without gaps on the way, from a filled position or the end.\<close>

lemma slow_closest_gap_spec:
  assumes gap: "j0 < cap" "\<not> check_exists bm j0" and pos: "pos \<le> cap" "pos < cap \<longrightarrow> check_exists bm pos"
  shows "gap_ok bm cap (min pos (cap - 1)) (slow_closest_gap bm cap pos)"
proof (cases "pos = cap")
  case True
  obtain g where g: "slow_scan_left bm cap = int g" "g < cap" "\<not> check_exists bm g" "\<forall>j. g < j \<longrightarrow> j < cap \<longrightarrow> check_exists bm j"
    using slow_scan_left_spec [of cap cap bm j0] gap by auto
  have "slow_gap_loop bm pos (nat (min (int pos) (int cap - int pos - 1))) 1 = Inr 1"
    using True by (subst slow_gap_loop.simps) simp
  then have "slow_closest_gap bm cap pos = int g" using True g(1) gap(1) by (simp add: slow_closest_gap_def Let_def)
  then show ?thesis using g(2-4) True by (auto intro!: gap_okI)
next
  case False
  define mx where "mx = nat (min (int pos) (int cap - int pos - 1))"
  have p: "pos < cap" "check_exists bm pos" using False pos by auto
  have mx: "mx \<le> pos" "pos + mx < cap" using p(1) by (auto simp: mx_def)
  have "near_filled bm cap pos 1" using p(2) by (auto simp: near_filled_def less_Suc_eq_le le_antisym)
  note loop = slow_gap_loop_spec [OF this mx order_refl p(1)]
  show ?thesis
  proof (cases "slow_gap_loop bm pos mx 1")
    case (Inl g)
    then show ?thesis using loop p(1) by (simp add: slow_closest_gap_def Let_def mx_def)
  next
    case (Inr d)
    then have d: "d = mx + 1" "near_filled bm cap pos d" using loop by auto
    have nf: "check_exists bm j" if "j < cap" "j \<le> pos + mx" "pos \<le> j + mx" for j
      using d that by (auto simp: near_filled_def)
    show ?thesis
    proof (cases "int cap - int pos - 1 < int pos")
      case left: True
      then have m: "pos + mx = cap - 1" using p(1) by (auto simp: mx_def)
      have "j0 < pos - mx" using nf [of j0] gap m mx by linarith
      then obtain g where g: "slow_scan_left bm (pos - mx) = int g" "g < pos - mx" "\<not> check_exists bm g"
        "\<forall>j. g < j \<longrightarrow> j < pos + 1 \<longrightarrow> check_exists bm j"
        using slow_scan_left_spec [of "pos - mx" "pos + 1" bm j0] nf gap(2) p(1) by auto
      have "slow_closest_gap bm cap pos = int g" using left Inr d(1) g(1) by (simp add: slow_closest_gap_def Let_def mx_def)
      then show ?thesis using g p(1) by (auto intro!: gap_okI)
    next
      case right: False
      then have m: "mx = pos" using p(1) by (auto simp: mx_def)
      have "pos + mx + 1 \<le> j0" using nf [of j0] gap m by linarith
      then obtain g where g: "slow_scan_right bm cap (pos + mx + 1) = int g" "g < cap" "pos + mx + 1 \<le> g" "\<not> check_exists bm g"
        "\<forall>j. pos \<le> j \<longrightarrow> j < g \<longrightarrow> check_exists bm j"
        using slow_scan_right_spec [of pos "pos + mx + 1" bm j0 cap] nf gap by auto
      have "slow_closest_gap bm cap pos = int g" using right Inr d(1) g(1) by (simp add: slow_closest_gap_def Let_def mx_def)
      then show ?thesis using g p(1) by (auto intro!: gap_okI)
    qed
  qed
qed

end
