(* ===== verification/Alex_Node.thy ===== *)
theory Alex_Node
  imports Alex_Gap
begin

text \<open>
  The data node of ALEX: \<open>AlexDataNode\<close> of \<open>src/src/competitor/alex/src/alex_nodes.h\<close> and the linear
  model of \<open>alex_base.h\<close>. Keys sit in an array with gaps; a gap repeats the key to its right, a
  bitmap tells keys from gaps, and a linear model predicts where a key should be.

  The arrays are lists of their allocated length, so \<open>data_capacity_\<close> and \<open>bitmap_size_\<close> are
  lengths. Floating-point arithmetic is a parameter: a record of the operations the code uses on
  values of type \<open>'d\<close> (\<open>double\<close> and \<open>long double\<close>), so every statement holds for whatever the
  arithmetic rounds to. The leaf links belong to the tree above and are not part of the node.
\<close>

section \<open>Floating-point arithmetic\<close>

record 'd arith =
  fadd :: "'d \<Rightarrow> 'd \<Rightarrow> 'd"
  fsub :: "'d \<Rightarrow> 'd \<Rightarrow> 'd"
  fmul :: "'d \<Rightarrow> 'd \<Rightarrow> 'd"
  fdiv :: "'d \<Rightarrow> 'd \<Rightarrow> 'd"
  fneg :: "'d \<Rightarrow> 'd"

text \<open>
  Both formats, comparisons, conversions from integers, keys and to \<open>int\<close>, the decimal literal
  \<open>p / q\<close>, the largest and lowest value, the difference of two keys, and the logarithm of an integer.
\<close>

record ('k, 'd) fpops =
  dbl :: "'d arith"
  ldbl :: "'d arith"
  flt :: "'d \<Rightarrow> 'd \<Rightarrow> bool"
  fle :: "'d \<Rightarrow> 'd \<Rightarrow> bool"
  of_i :: "int \<Rightarrow> 'd"
  of_key :: "'k \<Rightarrow> 'd"
  to_i :: "'d \<Rightarrow> int"
  to_double :: "'d \<Rightarrow> 'd"
  flit :: "int \<Rightarrow> int \<Rightarrow> 'd"
  fmax_value :: 'd
  flowest :: 'd
  key_sub :: "'k \<Rightarrow> 'k \<Rightarrow> 'k"
  flog2 :: "int \<Rightarrow> 'd"

definition fmin :: "('k, 'd) fpops \<Rightarrow> 'd \<Rightarrow> 'd \<Rightarrow> 'd" where
  "fmin f a b = (if flt f b a then b else a)"

definition fmax :: "('k, 'd) fpops \<Rightarrow> 'd \<Rightarrow> 'd \<Rightarrow> 'd" where
  "fmax f a b = (if flt f a b then b else a)"

text \<open>
  The template parameters and constants of a node: the arithmetic, the largest and the smallest
  value of the key type, whether duplicates are allowed, and what fresh memory holds.
\<close>

record ('k, 'v, 'd) acfg =
  fp :: "('k, 'd) fpops"
  kEndSentinel :: 'k
  kLowest :: 'k
  adup :: bool
  junk_key :: 'k
  junk_payload :: 'v

definition kMaxDensity :: "('k, 'v, 'd) acfg \<Rightarrow> 'd" where
  "kMaxDensity c = flit (fp c) 8 10"

definition kInitDensity :: "('k, 'v, 'd) acfg \<Rightarrow> 'd" where
  "kInitDensity c = flit (fp c) 7 10"

definition kMinDensity :: "('k, 'v, 'd) acfg \<Rightarrow> 'd" where
  "kMinDensity c = flit (fp c) 6 10"

definition kAppendMostlyThreshold :: "('k, 'v, 'd) acfg \<Rightarrow> 'd" where
  "kAppendMostlyThreshold c = flit (fp c) 9 10"

section \<open>The linear model\<close>

record 'd lmodel =
  lm_a :: 'd
  lm_b :: 'd

definition lm_expand :: "('k, 'd) fpops \<Rightarrow> 'd \<Rightarrow> 'd lmodel \<Rightarrow> 'd lmodel" where
  "lm_expand f expansion_factor m =
     m\<lparr>lm_a := fmul (dbl f) (lm_a m) expansion_factor, lm_b := fmul (dbl f) (lm_b m) expansion_factor\<rparr>"

definition lm_predict :: "('k, 'd) fpops \<Rightarrow> 'd lmodel \<Rightarrow> 'k \<Rightarrow> int" where
  "lm_predict f m key = to_i f (fadd (dbl f) (fmul (dbl f) (lm_a m) (of_key f key)) (lm_b m))"

record ('k, 'd) lbuilder =
  lb_count :: nat
  x_sum :: 'd
  y_sum :: 'd
  xx_sum :: 'd
  xy_sum :: 'd
  x_min :: 'k
  x_max :: 'k
  y_min :: 'd
  y_max :: 'd

definition lb_new :: "('k, 'v, 'd) acfg \<Rightarrow> ('k, 'd) lbuilder" where
  "lb_new c = (let f = fp c; zero = of_i f 0 in
     \<lparr>lb_count = 0, x_sum = zero, y_sum = zero, xx_sum = zero, xy_sum = zero, x_min = kEndSentinel c,
      x_max = kLowest c, y_min = fmax_value f, y_max = flowest f\<rparr>)"

definition lb_add :: "('k::linorder, 'd) fpops \<Rightarrow> 'k \<Rightarrow> nat \<Rightarrow> ('k, 'd) lbuilder \<Rightarrow> ('k, 'd) lbuilder" where
  "lb_add f x y b = (let l = ldbl f; fx = of_key f x; fy = of_i f (int y) in
     b\<lparr>lb_count := lb_count b + 1,
       x_sum := fadd l (x_sum b) fx,
       y_sum := fadd l (y_sum b) fy,
       xx_sum := fadd l (xx_sum b) (fmul l fx fx),
       xy_sum := fadd l (xy_sum b) (fmul l fx fy),
       x_min := (if x_min b < x then x_min b else x),
       x_max := (if x < x_max b then x_max b else x),
       y_min := fmin f fy (y_min b),
       y_max := fmax f fy (y_max b)\<rparr>)"

definition lb_build :: "('k, 'd) fpops \<Rightarrow> ('k, 'd) lbuilder \<Rightarrow> 'd lmodel" where
  "lb_build f b = (let
     l = ldbl f; d = dbl f; zero = of_i f 0; cnt = of_i f (int (lb_count b));
     den = fsub l (fmul l cnt (xx_sum b)) (fmul l (x_sum b) (x_sum b))
   in if lb_count b \<le> 1 then \<lparr>lm_a = zero, lm_b = to_double f (y_sum b)\<rparr>
      else if fle f den zero \<and> fle f zero den then \<lparr>lm_a = zero, lm_b = fdiv d (to_double f (y_sum b)) cnt\<rparr>
      else (let
        slope = to_double f (fdiv l (fsub l (fmul l cnt (xy_sum b)) (fmul l (x_sum b) (y_sum b))) den);
        intercept = to_double f (fdiv l (fsub l (y_sum b) (fmul l slope (x_sum b))) cnt)
      in if fle f slope zero then
           (let a = fdiv d (fsub d (y_max b) (y_min b)) (of_key f (key_sub f (x_max b) (x_min b))) in
            \<lparr>lm_a = a, lm_b = fmul d (fneg d (of_key f (x_min b))) a\<rparr>)
         else \<lparr>lm_a = slope, lm_b = intercept\<rparr>))"

text \<open>The model built from keys and their ranks.\<close>

definition train :: "('k::linorder, 'v, 'd) acfg \<Rightarrow> 'k list \<Rightarrow> 'd lmodel" where
  "train c ks = lb_build (fp c) (fold (\<lambda>(i, x). lb_add (fp c) x i) (enumerate 0 ks) (lb_new c))"

section \<open>The node\<close>

record ('k, 'v, 'd) anode =
  key_slots :: "'k list"
  payload_slots :: "'v list"
  bitmap :: "u64 list"
  num_keys :: nat
  an_model :: "'d lmodel"
  an_cost :: 'd
  expansion_threshold :: 'd
  contraction_threshold :: 'd
  max_slots :: nat
  num_shifts :: nat
  num_exp_search_iterations :: nat
  num_lookups :: nat
  num_inserts :: nat
  num_resizes :: nat
  max_key :: 'k
  min_key :: 'k
  num_right_out_of_bounds_inserts :: nat
  num_left_out_of_bounds_inserts :: nat
  expected_avg_exp_search_iterations :: 'd
  expected_avg_shifts :: 'd

abbreviation data_capacity :: "('k, 'v, 'd) anode \<Rightarrow> nat" where
  "data_capacity n \<equiv> length (key_slots n)"

abbreviation an_exists :: "('k, 'v, 'd) anode \<Rightarrow> nat \<Rightarrow> bool" where
  "an_exists n \<equiv> check_exists (bitmap n)"

text \<open>A node before it is loaded.\<close>

definition an_new :: "('k, 'v, 'd) acfg \<Rightarrow> nat \<Rightarrow> ('k, 'v, 'd) anode" where
  "an_new c max_data_node_slots = (let f = fp c; zero = of_i f 0 in
     \<lparr>key_slots = [], payload_slots = [], bitmap = [], num_keys = 0, an_model = \<lparr>lm_a = zero, lm_b = zero\<rparr>,
      an_cost = zero, expansion_threshold = of_i f 1, contraction_threshold = zero,
      max_slots = max_data_node_slots, num_shifts = 0, num_exp_search_iterations = 0, num_lookups = 0,
      num_inserts = 0, num_resizes = 0, max_key = kLowest c, min_key = kEndSentinel c,
      num_right_out_of_bounds_inserts = 0, num_left_out_of_bounds_inserts = 0, expected_avg_exp_search_iterations = zero,
      expected_avg_shifts = zero\<rparr>)"

definition akey_less :: "'k::linorder \<Rightarrow> 'k \<Rightarrow> bool" where
  "akey_less a b = (a < b)"

definition akey_lessequal :: "'k::linorder \<Rightarrow> 'k \<Rightarrow> bool" where
  "akey_lessequal a b = (\<not> b < a)"

definition akey_greater :: "'k::linorder \<Rightarrow> 'k \<Rightarrow> bool" where
  "akey_greater a b = (b < a)"

definition akey_greaterequal :: "'k::linorder \<Rightarrow> 'k \<Rightarrow> bool" where
  "akey_greaterequal a b = (\<not> a < b)"

definition akey_equal :: "'k::linorder \<Rightarrow> 'k \<Rightarrow> bool" where
  "akey_equal a b = (\<not> a < b \<and> \<not> b < a)"

text \<open>First and last key and their positions.\<close>

definition first_pos :: "('k, 'v, 'd) anode \<Rightarrow> nat" where
  "first_pos n = (case find (an_exists n) [0..<data_capacity n] of Some i \<Rightarrow> i | None \<Rightarrow> 0)"

definition last_pos :: "('k, 'v, 'd) anode \<Rightarrow> nat" where
  "last_pos n = (case find (an_exists n) (rev [0..<data_capacity n]) of Some i \<Rightarrow> i | None \<Rightarrow> 0)"

definition first_key :: "('k, 'v, 'd) acfg \<Rightarrow> ('k, 'v, 'd) anode \<Rightarrow> 'k" where
  "first_key c n = (case find (an_exists n) [0..<data_capacity n] of Some i \<Rightarrow> key_slots n ! i | None \<Rightarrow> kEndSentinel c)"

definition last_key :: "('k, 'v, 'd) acfg \<Rightarrow> ('k, 'v, 'd) anode \<Rightarrow> 'k" where
  "last_key c n = (case find (an_exists n) (rev [0..<data_capacity n]) of Some i \<Rightarrow> key_slots n ! i | None \<Rightarrow> kLowest c)"

section \<open>The iterator\<close>

text \<open>The current position (\<open>None\<close> for -1), the position in the bitmap and the cached word.\<close>

type_synonym aiter = "nat option \<times> nat \<times> u64"

definition ait_inc :: "u64 list \<Rightarrow> aiter \<Rightarrow> aiter" where
  "ait_inc bm it = (case it of (_, idx, dat) \<Rightarrow>
     (case next_word bm idx dat of
        None \<Rightarrow> (None, length bm, 0)
      | Some (k, d) \<Rightarrow> (Some (get_offset k (extract_rightmost_one d)), k, remove_rightmost_one d)))"

text \<open>The constructor at a position; \<open>None\<close> is a read behind the bitmap.\<close>

definition ait_at :: "u64 list \<Rightarrow> nat \<Rightarrow> aiter option" where
  "ait_at bm idx = (let bi = idx div 64; bit_pos = idx - bi * 64 in
     if length bm \<le> bi then None
     else Some (ait_inc bm (Some idx, bi, bm ! bi AND upper_mask bit_pos)))"

text \<open>The positions an iterator visits until it is at the end; the bitmap has room for \<open>fuel\<close>.\<close>

fun ait_walk :: "nat \<Rightarrow> u64 list \<Rightarrow> aiter \<Rightarrow> nat list option" where
  "ait_walk 0 bm it = (if fst it = None then Some [] else None)"
| "ait_walk (Suc fuel) bm it = (case fst it of
     None \<Rightarrow> Some []
   | Some p \<Rightarrow> map_option ((#) p) (ait_walk fuel bm (ait_inc bm it)))"

definition an_items :: "('k, 'v, 'd) anode \<Rightarrow> nat \<Rightarrow> (nat \<times> 'k \<times> 'v) list option" where
  "an_items n left = (case ait_at (bitmap n) left of
     None \<Rightarrow> None
   | Some it \<Rightarrow> map_option (map (\<lambda>i. (i, key_slots n ! i, payload_slots n ! i)))
       (ait_walk (64 * length (bitmap n)) (bitmap n) it))"

section \<open>Cost\<close>

definition shifts_per_insert :: "('k, 'v, 'd) acfg \<Rightarrow> ('k, 'v, 'd) anode \<Rightarrow> 'd" where
  "shifts_per_insert c n = (let f = fp c in
     if num_inserts n = 0 then of_i f 0
     else fdiv (dbl f) (of_i f (int (num_shifts n))) (of_i f (int (num_inserts n))))"

definition exp_search_iterations_per_operation :: "('k, 'v, 'd) acfg \<Rightarrow> ('k, 'v, 'd) anode \<Rightarrow> 'd" where
  "exp_search_iterations_per_operation c n = (let f = fp c in
     if num_inserts n + num_lookups n = 0 then of_i f 0
     else fdiv (dbl f) (of_i f (int (num_exp_search_iterations n))) (of_i f (int (num_inserts n + num_lookups n))))"

definition empirical_cost :: "('k, 'v, 'd) acfg \<Rightarrow> ('k, 'v, 'd) anode \<Rightarrow> 'd" where
  "empirical_cost c n = (let f = fp c; d = dbl f in
     if num_inserts n + num_lookups n = 0 then of_i f 0
     else (let frac = fdiv d (of_i f (int (num_inserts n))) (of_i f (int (num_inserts n + num_lookups n))) in
       fadd d (fmul d (flit f 20 1) (exp_search_iterations_per_operation c n))
         (fmul d (fmul d (flit f 5 10) (shifts_per_insert c n)) frac)))"

definition frac_inserts :: "('k, 'v, 'd) acfg \<Rightarrow> ('k, 'v, 'd) anode \<Rightarrow> 'd" where
  "frac_inserts c n = (let f = fp c; num_ops = num_inserts n + num_lookups n in
     if num_ops = 0 then of_i f 0 else fdiv (dbl f) (of_i f (int (num_inserts n))) (of_i f (int num_ops)))"

definition reset_stats :: "('k, 'v, 'd) anode \<Rightarrow> ('k, 'v, 'd) anode" where
  "reset_stats n = n\<lparr>num_shifts := 0, num_exp_search_iterations := 0, num_lookups := 0, num_inserts := 0,
     num_resizes := 0\<rparr>"

definition significant_cost_deviation :: "('k, 'v, 'd) acfg \<Rightarrow> ('k, 'v, 'd) anode \<Rightarrow> bool" where
  "significant_cost_deviation c n = (let f = fp c; emp_cost = empirical_cost c n in
     flt f (flit f 20 1) emp_cost \<and> flt f (fmul (dbl f) (flit f 15 10) (an_cost n)) emp_cost)"

definition catastrophic_cost :: "('k, 'v, 'd) acfg \<Rightarrow> ('k, 'v, 'd) anode \<Rightarrow> bool" where
  "catastrophic_cost c n = (let f = fp c in
     flt f (of_i f 100) (shifts_per_insert c n) \<or> flt f (of_i f 100) (expected_avg_shifts n))"

definition is_append_mostly_right :: "('k, 'v, 'd) acfg \<Rightarrow> ('k, 'v, 'd) anode \<Rightarrow> bool" where
  "is_append_mostly_right c n = (let f = fp c in flt f (kAppendMostlyThreshold c)
     (fdiv (dbl f) (of_i f (int (num_right_out_of_bounds_inserts n))) (of_i f (int (num_inserts n)))))"

definition is_append_mostly_left :: "('k, 'v, 'd) acfg \<Rightarrow> ('k, 'v, 'd) anode \<Rightarrow> bool" where
  "is_append_mostly_left c n = (let f = fp c in flt f (kAppendMostlyThreshold c)
     (fdiv (dbl f) (of_i f (int (num_left_out_of_bounds_inserts n))) (of_i f (int (num_inserts n)))))"

section \<open>Bulk loading\<close>

text \<open>The arrays of a node under construction.\<close>

type_synonym ('k, 'v) arrays = "'k list \<times> 'v list \<times> u64 list"

definition new_capacity :: "('k, 'v, 'd) acfg \<Rightarrow> nat \<Rightarrow> 'd \<Rightarrow> nat" where
  "new_capacity c n density =
     nat (max (to_i (fp c) (fdiv (dbl (fp c)) (of_i (fp c) (int n)) density)) (int n + 1))"

definition new_arrays :: "('k, 'v, 'd) acfg \<Rightarrow> nat \<Rightarrow> ('k, 'v) arrays" where
  "new_arrays c cap = (replicate cap (junk_key c), replicate cap (junk_payload c), replicate ((cap + 63) div 64) 0)"

definition an_initialize :: "('k, 'v, 'd) acfg \<Rightarrow> nat \<Rightarrow> 'd \<Rightarrow> ('k, 'v, 'd) anode \<Rightarrow> ('k, 'v, 'd) anode" where
  "an_initialize c n density node = (case new_arrays c (new_capacity c n density) of (ks, ps, bm) \<Rightarrow>
     node\<lparr>num_keys := n, key_slots := ks, payload_slots := ps, bitmap := bm\<rparr>)"

definition fill_keys :: "nat \<Rightarrow> nat \<Rightarrow> 'k \<Rightarrow> 'k list \<Rightarrow> 'k list" where
  "fill_keys lo hi k ks = fold (\<lambda>j ks. ks[j := k]) [lo..<hi] ks"

text \<open>Writing items to consecutive positions.\<close>

fun put_items :: "nat \<Rightarrow> (nat \<times> 'k \<times> 'v) list \<Rightarrow> ('k, 'v) arrays \<Rightarrow> ('k, 'v) arrays" where
  "put_items pos [] A = A"
| "put_items pos ((i, k, v) # xs) (ks, ps, bm) = put_items (pos + 1) xs (ks[pos := k], ps[pos := v], set_bit_at bm pos)"

text \<open>
  The loop of the model-based inserts over the items an iterator still has, those at or behind
  \<open>right\<close> excluded; \<open>nxt\<close> is \<open>last_position + 1\<close> and \<open>kr\<close> is \<open>keys_remaining\<close>. The items that no longer fit
  after the predicted position go to the end of the array; \<open>None\<close> is a read of an iterator at
  its end. The result has the position behind the last item.
\<close>

fun model_inserts :: "('k, 'd) fpops \<Rightarrow> 'd lmodel \<Rightarrow> nat \<Rightarrow> nat \<Rightarrow> nat \<Rightarrow> nat \<Rightarrow> (nat \<times> 'k \<times> 'v) list \<Rightarrow>
    ('k, 'v) arrays \<Rightarrow> (('k, 'v) arrays \<times> nat) option" where
  "model_inserts f m cap right kr nxt [] A = Some (A, nxt)"
| "model_inserts f m cap right kr nxt ((i, k, v) # xs) (ks, ps, bm) =
     (if \<not> i < right then Some ((ks, ps, bm), nxt)
      else (let position = max (lm_predict f m k) (int nxt) in
        if int cap - position < int kr then
          (let pos = cap - kr in
           if length ((i, k, v) # xs) < kr then None
           else Some (put_items pos (take kr ((i, k, v) # xs)) (fill_keys nxt pos k ks, ps, bm), cap))
        else (let p = nat position in
          model_inserts f m cap right (kr - 1) (p + 1) xs
            ((fill_keys nxt p k ks)[p := k], ps[p := v], set_bit_at bm p))))"

definition new_expansion_threshold :: "('k, 'v, 'd) acfg \<Rightarrow> nat \<Rightarrow> nat \<Rightarrow> 'd" where
  "new_expansion_threshold c cap n = (let f = fp c in
     fmin f (fmax f (fmul (dbl f) (of_i f (int cap)) (kMaxDensity c)) (of_i f (int n + 1))) (of_i f (int cap)))"

definition new_contraction_threshold :: "('k, 'v, 'd) acfg \<Rightarrow> nat \<Rightarrow> 'd" where
  "new_contraction_threshold c cap = fmul (dbl (fp c)) (of_i (fp c) (int cap)) (kMinDensity c)"

text \<open>A node without keys: every slot is a gap at the end.\<close>

definition load_nothing :: "('k, 'v, 'd) acfg \<Rightarrow> ('k, 'v, 'd) anode \<Rightarrow> ('k, 'v, 'd) anode" where
  "load_nothing c n = n\<lparr>expansion_threshold := of_i (fp c) (int (data_capacity n)),
     contraction_threshold := of_i (fp c) 0, key_slots := fill_keys 0 (data_capacity n) (kEndSentinel c) (key_slots n)\<rparr>"

text \<open>The rest of a load: the items by the model, the sentinel behind them, the thresholds.\<close>

definition load_items :: "('k, 'v, 'd) acfg \<Rightarrow> nat \<Rightarrow> (nat \<times> 'k \<times> 'v) list \<Rightarrow> ('k, 'v) arrays \<Rightarrow>
    ('k, 'v, 'd) anode \<Rightarrow> ('k, 'v, 'd) anode option" where
  "load_items c right items A n = (let cap = length (fst A) in
     case model_inserts (fp c) (an_model n) cap right (num_keys n) 0 items A of
       None \<Rightarrow> None
     | Some ((ks, ps, bm), nxt) \<Rightarrow>
         Some (n\<lparr>key_slots := fill_keys nxt cap (kEndSentinel c) ks, payload_slots := ps, bitmap := bm,
                 expansion_threshold := new_expansion_threshold c cap (num_keys n),
                 contraction_threshold := new_contraction_threshold c cap\<rparr>))"

definition an_bulk_load :: "('k::linorder, 'v, 'd) acfg \<Rightarrow> ('k, 'v) kvs \<Rightarrow> 'd lmodel option \<Rightarrow>
    ('k, 'v, 'd) anode \<Rightarrow> ('k, 'v, 'd) anode option" where
  "an_bulk_load c values pretrained_model n = (let
     f = fp c;
     n = an_initialize c (length values) (kInitDensity c) n
   in if values = [] then Some (load_nothing c n)
      else (let
        m = (case pretrained_model of Some m \<Rightarrow> m | None \<Rightarrow> train c (map fst values));
        m = lm_expand f (fdiv (dbl f) (of_i f (int (data_capacity n))) (of_i f (int (length values)))) m;
        items = enumerate 0 values
      in case load_items c (length values) items (key_slots n, payload_slots n, bitmap n) (n\<lparr>an_model := m\<rparr>) of
           None \<Rightarrow> None
         | Some n \<Rightarrow> Some (n\<lparr>min_key := fst (values ! 0), max_key := fst (values ! (length values - 1))\<rparr>)))"

text \<open>
  Loading from the positions \<open>left\<close> to \<open>right\<close> of another node; \<open>pre\<close> is a model with the number of
  keys if they were computed before.
\<close>

definition bulk_load_from_existing :: "('k::linorder, 'v, 'd) acfg \<Rightarrow> ('k, 'v, 'd) anode \<Rightarrow> nat \<Rightarrow> nat \<Rightarrow> bool \<Rightarrow> bool \<Rightarrow>
    ('d lmodel \<times> nat) option \<Rightarrow> ('k, 'v, 'd) anode \<Rightarrow> ('k, 'v, 'd) anode option" where
  "bulk_load_from_existing c node left right keep_left keep_right pre n =
   (if map_option snd pre = Some 0
    then Some (load_nothing c ((an_initialize c 0 (kMinDensity c) n)\<lparr>an_model := fst (the pre)\<rparr>))
    else case an_items node left of
     None \<Rightarrow> None
   | Some items \<Rightarrow> (let
       f = fp c; d = dbl f;
       inside = takeWhile (\<lambda>x. fst x < right) items;
       (m, actual) = (case pre of
          Some (m, k) \<Rightarrow> (m, k)
        | None \<Rightarrow> (train c (map (\<lambda>x. fst (snd x)) inside), length inside));
       n = an_initialize c actual (kMinDensity c) n
     in if actual = 0 then Some (load_nothing c (n\<lparr>an_model := m\<rparr>))
        else (let
          fa = of_i f (int actual); fn = of_i f (int (num_keys n)); cap = of_i f (int (data_capacity n));
          m = (if keep_left then lm_expand f (fdiv d (fdiv d fa (kMaxDensity c)) fn) m
               else if keep_right then
                 (let m = lm_expand f (fdiv d (fdiv d fa (kMaxDensity c)) fn) m in
                  m\<lparr>lm_b := fadd d (lm_b m) (fsub d cap (fdiv d fa (kMaxDensity c)))\<rparr>)
               else lm_expand f (fdiv d cap fn) m)
        in case load_items c right items (key_slots n, payload_slots n, bitmap n) (n\<lparr>an_model := m\<rparr>) of
             None \<Rightarrow> None
           | Some n \<Rightarrow> Some (n\<lparr>min_key := min_key node, max_key := max_key node\<rparr>))))"

definition an_resize :: "('k::linorder, 'v, 'd) acfg \<Rightarrow> 'd \<Rightarrow> bool \<Rightarrow> bool \<Rightarrow> bool \<Rightarrow>
    ('k, 'v, 'd) anode \<Rightarrow> ('k, 'v, 'd) anode option" where
  "an_resize c target_density force_retrain keep_left keep_right n =
     (if num_keys n = 0 then Some n
      else (case an_items n 0 of
        None \<Rightarrow> None
      | Some items \<Rightarrow> (let
          f = fp c; d = dbl f;
          cap = new_capacity c (num_keys n) target_density;
          fcap = of_i f (int (data_capacity n)); fn = of_i f (int (num_keys n));
          diff = of_i f (int cap - int (data_capacity n));
          m = (if num_keys n < 50 \<or> force_retrain then
                 (let m = train c (map (\<lambda>x. fst (snd x)) items) in
                  if keep_left then lm_expand f (fdiv d fcap fn) m
                  else if keep_right then
                    (let m = lm_expand f (fdiv d fcap fn) m in m\<lparr>lm_b := fadd d (lm_b m) diff\<rparr>)
                  else lm_expand f (fdiv d (of_i f (int cap)) fn) m)
               else if keep_right then (an_model n)\<lparr>lm_b := fadd d (lm_b (an_model n)) diff\<rparr>
               else if \<not> keep_left then lm_expand f (fdiv d (of_i f (int cap)) fcap) (an_model n)
               else an_model n)
        in load_items c (data_capacity n) items (new_arrays c cap) (n\<lparr>an_model := m\<rparr>))))"

section \<open>Searching\<close>

definition predict_position :: "('k, 'v, 'd) acfg \<Rightarrow> ('k, 'v, 'd) anode \<Rightarrow> 'k \<Rightarrow> nat" where
  "predict_position c n key = nat (max (min (lm_predict (fp c) (an_model n) key) (int (data_capacity n) - 1)) 0)"

function binary_search_upper_bound :: "'k::linorder list \<Rightarrow> nat \<Rightarrow> nat \<Rightarrow> 'k \<Rightarrow> nat" where
  "binary_search_upper_bound ks l r key =
     (if l < r then
        let mid = l + (r - l) div 2 in
        if akey_lessequal (ks ! mid) key then binary_search_upper_bound ks (mid + 1) r key
        else binary_search_upper_bound ks l mid key
      else l)"
  by auto
termination by (relation "measure (\<lambda>(ks, l, r, key). r - l)") auto

function binary_search_lower_bound :: "'k::linorder list \<Rightarrow> nat \<Rightarrow> nat \<Rightarrow> 'k \<Rightarrow> nat" where
  "binary_search_lower_bound ks l r key =
     (if l < r then
        let mid = l + (r - l) div 2 in
        if akey_greaterequal (ks ! mid) key then binary_search_lower_bound ks l mid key
        else binary_search_lower_bound ks (mid + 1) r key
      else l)"
  by auto
termination by (relation "measure (\<lambda>(ks, l, r, key). r - l)") auto

text \<open>The doubling loop after \<open>e\<close> iterations, when \<open>bound\<close> is \<open>2 ^ e\<close>.\<close>

function exp_loop :: "(nat \<Rightarrow> bool) \<Rightarrow> nat \<Rightarrow> nat \<Rightarrow> nat" where
  "exp_loop P sz e = (if 2 ^ e < sz \<and> P (2 ^ e) then exp_loop P sz (e + 1) else e)"
  by auto
termination
proof (relation "measure (\<lambda>(P, sz, e). sz - 2 ^ e)")
  fix P :: "nat \<Rightarrow> bool" and sz e :: nat
  assume "2 ^ e < sz \<and> P (2 ^ e)"
  then show "((P, sz, e + 1), P, sz, e) \<in> measure (\<lambda>(P, sz, e). sz - 2 ^ e)"
    by (auto intro!: diff_less_mono2)
qed simp

declare binary_search_upper_bound.simps [simp del] binary_search_lower_bound.simps [simp del] exp_loop.simps [simp del]

text \<open>The position found and the number of iterations.\<close>

definition exponential_search_upper_bound :: "'k::linorder list \<Rightarrow> nat \<Rightarrow> 'k \<Rightarrow> nat \<times> nat" where
  "exponential_search_upper_bound ks m key =
     (if akey_greater (ks ! m) key then
        let sz = m; e = exp_loop (\<lambda>bound. akey_greater (ks ! (m - bound)) key) sz 0; bound = 2 ^ e in
        (binary_search_upper_bound ks (m - min bound sz) (m - bound div 2) key, e)
      else
        let sz = length ks - m; e = exp_loop (\<lambda>bound. akey_lessequal (ks ! (m + bound)) key) sz 0; bound = 2 ^ e in
        (binary_search_upper_bound ks (m + bound div 2) (m + min bound sz) key, e))"

definition exponential_search_lower_bound :: "'k::linorder list \<Rightarrow> nat \<Rightarrow> 'k \<Rightarrow> nat \<times> nat" where
  "exponential_search_lower_bound ks m key =
     (if akey_greaterequal (ks ! m) key then
        let sz = m; e = exp_loop (\<lambda>bound. akey_greaterequal (ks ! (m - bound)) key) sz 0; bound = 2 ^ e in
        (binary_search_lower_bound ks (m - min bound sz) (m - bound div 2) key, e)
      else
        let sz = length ks - m; e = exp_loop (\<lambda>bound. akey_less (ks ! (m + bound)) key) sz 0; bound = 2 ^ e in
        (binary_search_lower_bound ks (m + bound div 2) (m + min bound sz) key, e))"

text \<open>Each search counts its iterations and, where the code does, the lookup.\<close>

definition an_search :: "bool \<Rightarrow> nat \<times> nat \<Rightarrow> ('k, 'v, 'd) anode \<Rightarrow> ('k, 'v, 'd) anode \<times> nat" where
  "an_search lookup r n = (n\<lparr>num_lookups := num_lookups n + (if lookup then 1 else 0),
     num_exp_search_iterations := num_exp_search_iterations n + snd r\<rparr>, fst r)"

definition an_upper_bound :: "('k::linorder, 'v, 'd) acfg \<Rightarrow> ('k, 'v, 'd) anode \<Rightarrow> 'k \<Rightarrow> ('k, 'v, 'd) anode \<times> nat" where
  "an_upper_bound c n key =
     an_search True (exponential_search_upper_bound (key_slots n) (predict_position c n key) key) n"

definition an_lower_bound :: "('k::linorder, 'v, 'd) acfg \<Rightarrow> ('k, 'v, 'd) anode \<Rightarrow> 'k \<Rightarrow> ('k, 'v, 'd) anode \<times> nat" where
  "an_lower_bound c n key =
     an_search True (exponential_search_lower_bound (key_slots n) (predict_position c n key) key) n"

text \<open>\<open>find_key\<close>; \<open>None\<close> is the result -1.\<close>

definition find_key :: "('k::linorder, 'v, 'd) acfg \<Rightarrow> ('k, 'v, 'd) anode \<Rightarrow> 'k \<Rightarrow> ('k, 'v, 'd) anode \<times> nat option" where
  "find_key c n key = (case an_upper_bound c n key of (n', pos) \<Rightarrow>
     (n', if pos = 0 \<or> \<not> akey_equal (key_slots n ! (pos - 1)) key then None else Some (pos - 1)))"

text \<open>\<open>find_lower\<close> and \<open>find_upper\<close>; \<open>None\<close> is a read behind the bitmap.\<close>

definition an_find_lower :: "('k::linorder, 'v, 'd) acfg \<Rightarrow> ('k, 'v, 'd) anode \<Rightarrow> 'k \<Rightarrow> (('k, 'v, 'd) anode \<times> nat) option" where
  "an_find_lower c n key = (case an_lower_bound c n key of (n', pos) \<Rightarrow>
     map_option (Pair n') (get_next_filled_position (bitmap n) (data_capacity n) pos False))"

definition an_find_upper :: "('k::linorder, 'v, 'd) acfg \<Rightarrow> ('k, 'v, 'd) anode \<Rightarrow> 'k \<Rightarrow> (('k, 'v, 'd) anode \<times> nat) option" where
  "an_find_upper c n key = (case an_upper_bound c n key of (n', pos) \<Rightarrow>
     map_option (Pair n') (get_next_filled_position (bitmap n) (data_capacity n) pos False))"

definition find_insert_position :: "('k::linorder, 'v, 'd) acfg \<Rightarrow> ('k, 'v, 'd) anode \<Rightarrow> 'k \<Rightarrow>
    (('k, 'v, 'd) anode \<times> nat \<times> nat) option" where
  "find_insert_position c n key = (let
     predicted_pos = predict_position c n key;
     (n', pos) = an_search False (exponential_search_upper_bound (key_slots n) predicted_pos key) n
   in if predicted_pos \<le> pos \<or> an_exists n pos then Some (n', pos, pos)
      else (case get_next_filled_position (bitmap n) (data_capacity n) pos True of
          None \<Rightarrow> None
        | Some q \<Rightarrow> Some (n', min predicted_pos (q - 1), pos)))"

section \<open>Insertion\<close>

text \<open>The loop that overwrites the gaps below \<open>p\<close>.\<close>

fun fill_gaps :: "u64 list \<Rightarrow> 'k \<Rightarrow> nat \<Rightarrow> 'k list \<Rightarrow> 'k list" where
  "fill_gaps bm key 0 ks = ks"
| "fill_gaps bm key (Suc p) ks = (if \<not> check_exists bm p then fill_gaps bm key p (ks[p := key]) else ks)"

definition insert_element_at :: "'k \<Rightarrow> 'v \<Rightarrow> nat \<Rightarrow> ('k, 'v, 'd) anode \<Rightarrow> ('k, 'v, 'd) anode" where
  "insert_element_at key payload pos n = (let bm = set_bit_at (bitmap n) pos in
     n\<lparr>key_slots := fill_gaps bm key pos ((key_slots n)[pos := key]),
       payload_slots := (payload_slots n)[pos := payload], bitmap := bm\<rparr>)"

text \<open>\<open>for (i = gap; i > pos; i--) xs[i] = xs[i - 1]\<close> and \<open>for (i = gap; i < e; i++) xs[i] = xs[i + 1]\<close>.\<close>

fun shift_up :: "nat \<Rightarrow> nat \<Rightarrow> 'a list \<Rightarrow> 'a list" where
  "shift_up pos 0 xs = xs"
| "shift_up pos (Suc i) xs = (if pos < Suc i then shift_up pos i (xs[Suc i := xs ! i]) else xs)"

function shift_down :: "nat \<Rightarrow> nat \<Rightarrow> 'a list \<Rightarrow> 'a list" where
  "shift_down i e xs = (if i < e then shift_down (i + 1) e (xs[i := xs ! (i + 1)]) else xs)"
  by auto
termination by (relation "measure (\<lambda>(i, e, xs). e - i)") auto

declare shift_down.simps [simp del]

text \<open>\<open>None\<close> is a write through the position -1 of a node without gaps.\<close>

definition insert_using_shifts :: "'k \<Rightarrow> 'v \<Rightarrow> nat \<Rightarrow> ('k, 'v, 'd) anode \<Rightarrow> (('k, 'v, 'd) anode \<times> nat) option" where
  "insert_using_shifts key payload pos n = (let gap = closest_gap (bitmap n) (data_capacity n) pos in
     if gap < 0 then None
     else (let g = nat gap; n = n\<lparr>bitmap := set_bit_at (bitmap n) g\<rparr> in
       if pos \<le> g then
         Some (insert_element_at key payload pos
           (n\<lparr>key_slots := shift_up pos g (key_slots n), payload_slots := shift_up pos g (payload_slots n),
              num_shifts := num_shifts n + (g - pos)\<rparr>), pos)
       else
         Some (insert_element_at key payload (pos - 1)
           (n\<lparr>key_slots := shift_down g (pos - 1) (key_slots n), payload_slots := shift_down g (pos - 1) (payload_slots n),
              num_shifts := num_shifts n + (pos - g - 1)\<rparr>), pos - 1)))"

text \<open>The bookkeeping at the end of an insertion.\<close>

definition note_insert :: "'k::linorder \<Rightarrow> ('k, 'v, 'd) anode \<Rightarrow> ('k, 'v, 'd) anode" where
  "note_insert key n = (let
     n = n\<lparr>num_keys := num_keys n + 1, num_inserts := num_inserts n + 1\<rparr>;
     n = (if max_key n < key
          then n\<lparr>max_key := key, num_right_out_of_bounds_inserts := num_right_out_of_bounds_inserts n + 1\<rparr> else n)
   in if key < min_key n
      then n\<lparr>min_key := key, num_left_out_of_bounds_inserts := num_left_out_of_bounds_inserts n + 1\<rparr> else n)"

text \<open>The flag 0 to 3 or -1 and the position, -1 if nothing was inserted.\<close>

definition an_insert_into :: "('k::linorder, 'v, 'd) acfg \<Rightarrow> 'k \<Rightarrow> 'v \<Rightarrow> ('k, 'v, 'd) anode \<Rightarrow>
    (('k, 'v, 'd) anode \<times> int \<times> int) option" where
  "an_insert_into c key payload n = (case find_insert_position c n key of
     None \<Rightarrow> None
   | Some (n, insertion_position, upper_bound_pos) \<Rightarrow>
       if \<not> adup c \<and> 0 < upper_bound_pos \<and> akey_equal (key_slots n ! (upper_bound_pos - 1)) key
       then Some (n, -1, int upper_bound_pos - 1)
       else if insertion_position < data_capacity n \<and> \<not> an_exists n insertion_position
       then Some (note_insert key (insert_element_at key payload insertion_position n), 0, int insertion_position)
       else (case insert_using_shifts key payload insertion_position n of
           None \<Rightarrow> None
         | Some (n, p) \<Rightarrow> Some (note_insert key n, 0, int p)))"

definition an_insert :: "('k::linorder, 'v, 'd) acfg \<Rightarrow> 'k \<Rightarrow> 'v \<Rightarrow> ('k, 'v, 'd) anode \<Rightarrow>
    (('k, 'v, 'd) anode \<times> int \<times> int) option" where
  "an_insert c key payload n = (let f = fp c in
     if num_inserts n mod 64 = 0 \<and> catastrophic_cost c n then Some (n, 2, -1)
     else if fle f (expansion_threshold n) (of_i f (int (num_keys n))) then
       if significant_cost_deviation c n then Some (n, 1, -1)
       else if catastrophic_cost c n then Some (n, 2, -1)
       else if flt f (fmul (dbl f) (of_i f (int (max_slots n))) (kMinDensity c)) (of_i f (int (num_keys n)))
       then Some (n, 3, -1)
       else (case an_resize c (kMinDensity c) False (is_append_mostly_right c n) (is_append_mostly_left c n) n of
           None \<Rightarrow> None
         | Some n \<Rightarrow> an_insert_into c key payload (n\<lparr>num_resizes := num_resizes n + 1\<rparr>))
     else an_insert_into c key payload n)"

section \<open>Deletion\<close>

definition contract :: "('k::linorder, 'v, 'd) acfg \<Rightarrow> ('k, 'v, 'd) anode \<Rightarrow> ('k, 'v, 'd) anode option" where
  "contract c n = (let f = fp c in
     if flt f (of_i f (int (num_keys n))) (contraction_threshold n) then
       map_option (\<lambda>n. n\<lparr>num_resizes := num_resizes n + 1\<rparr>) (an_resize c (kMaxDensity c) False False False n)
     else Some n)"

definition erase_one_at :: "('k::linorder, 'v, 'd) acfg \<Rightarrow> nat \<Rightarrow> ('k, 'v, 'd) anode \<Rightarrow> ('k, 'v, 'd) anode option" where
  "erase_one_at c pos n = (let
     next_key = (if pos = data_capacity n - 1 then kEndSentinel c else key_slots n ! (pos + 1));
     bm = unset_bit_at (bitmap n) pos
   in contract c (n\<lparr>key_slots := fill_gaps bm next_key pos ((key_slots n)[pos := next_key]), bitmap := bm,
        num_keys := num_keys n - 1\<rparr>))"

definition an_erase_one :: "('k::linorder, 'v, 'd) acfg \<Rightarrow> 'k \<Rightarrow> ('k, 'v, 'd) anode \<Rightarrow> (('k, 'v, 'd) anode \<times> nat) option" where
  "an_erase_one c key n = (case an_find_lower c n key of
     None \<Rightarrow> None
   | Some (n, pos) \<Rightarrow>
       if pos = data_capacity n \<or> \<not> akey_equal (key_slots n ! pos) key then Some (n, 0)
       else map_option (\<lambda>n. (n, 1)) (erase_one_at c pos n))"

text \<open>The loop that erases positions below \<open>p\<close> while their key satisfies \<open>P\<close>, with the number erased.\<close>

fun aerase_loop :: "('k \<Rightarrow> bool) \<Rightarrow> 'k \<Rightarrow> nat \<Rightarrow> 'k list \<times> u64 list \<Rightarrow> nat \<Rightarrow> ('k list \<times> u64 list) \<times> nat" where
  "aerase_loop P next_key 0 A cnt = (A, cnt)"
| "aerase_loop P next_key (Suc p) (ks, bm) cnt =
     (if P (ks ! p)
      then aerase_loop P next_key p (ks[p := next_key], unset_bit_at bm p) (cnt + (if check_exists bm p then 1 else 0))
      else ((ks, bm), cnt))"

definition erase_below :: "('k::linorder, 'v, 'd) acfg \<Rightarrow> ('k \<Rightarrow> bool) \<Rightarrow> nat \<Rightarrow> ('k, 'v, 'd) anode \<Rightarrow>
    (('k, 'v, 'd) anode \<times> nat) option" where
  "erase_below c P pos n = (let
     next_key = (if pos = data_capacity n then kEndSentinel c else key_slots n ! pos)
   in case aerase_loop P next_key pos (key_slots n, bitmap n) 0 of ((ks, bm), num_erased) \<Rightarrow>
        map_option (\<lambda>n. (n, num_erased))
          (contract c (n\<lparr>key_slots := ks, bitmap := bm, num_keys := num_keys n - num_erased\<rparr>)))"

definition an_erase :: "('k::linorder, 'v, 'd) acfg \<Rightarrow> 'k \<Rightarrow> ('k, 'v, 'd) anode \<Rightarrow> (('k, 'v, 'd) anode \<times> nat) option" where
  "an_erase c key n = (case an_upper_bound c n key of (n, pos) \<Rightarrow>
     if pos = 0 \<or> \<not> akey_equal (key_slots n ! (pos - 1)) key then Some (n, 0)
     else erase_below c (\<lambda>k. akey_equal k key) pos n)"

definition an_erase_range :: "('k::linorder, 'v, 'd) acfg \<Rightarrow> 'k \<Rightarrow> 'k \<Rightarrow> bool \<Rightarrow> ('k, 'v, 'd) anode \<Rightarrow>
    (('k, 'v, 'd) anode \<times> nat) option" where
  "an_erase_range c start_key end_key end_key_inclusive n =
     (case (if end_key_inclusive then an_upper_bound c n end_key else an_lower_bound c n end_key) of (n, pos) \<Rightarrow>
        if pos = 0 then Some (n, 0) else erase_below c (\<lambda>k. akey_greaterequal k start_key) pos n)"

section \<open>Statistics and the self-check\<close>

fun packed_loop :: "bool list \<Rightarrow> bool \<Rightarrow> nat \<Rightarrow> nat" where
  "packed_loop [] is_packed num = (if is_packed then num + 1 else num)"
| "packed_loop (x # xs) is_packed num =
     (if x \<noteq> is_packed then packed_loop xs (\<not> is_packed) (if is_packed then num + 1 else num)
      else packed_loop xs is_packed num)"

definition num_packed_regions :: "('k, 'v, 'd) anode \<Rightarrow> nat" where
  "num_packed_regions n = packed_loop (map (an_exists n) [1..<data_capacity n]) (an_exists n 0) 0"

definition validate_structure :: "('k::linorder, 'v, 'd) acfg \<Rightarrow> ('k, 'v, 'd) anode \<Rightarrow> bool" where
  "validate_structure c n = (let f = fp c; ks = key_slots n; cap = data_capacity n in
     \<not> (flt f (an_cost n) (of_i f 0) \<or> \<not> fle f (an_cost n) (an_cost n))
     \<and> (\<forall>i < cap - 1. \<not> akey_greater (ks ! i) (ks ! (i + 1)) \<and> \<not> (akey_less (ks ! i) (ks ! (i + 1)) \<and> \<not> an_exists n i))
     \<and> \<not> (ks ! (cap - 1) = kEndSentinel c \<and> an_exists n (cap - 1))
     \<and> \<not> (ks ! (cap - 1) \<noteq> kEndSentinel c \<and> \<not> an_exists n (cap - 1))
     \<and> sum_list (map count_ones (bitmap n)) = num_keys n)"

definition an_key_exists :: "('k::linorder, 'v, 'd) anode \<Rightarrow> 'k \<Rightarrow> bool \<Rightarrow> bool" where
  "an_key_exists n key validate_bitmap =
     (\<exists>i < data_capacity n - 1. akey_equal (key_slots n ! i) key \<and> (\<not> validate_bitmap \<or> an_exists n i))"

end
