(* ===== verification/Alex_Search.thy ===== *)
theory Alex_Search
  imports Alex_Node
begin

text \<open>
  The searches of an ALEX data node are correct for every prediction: the exponential search
  from any start finds the bound in a sorted array, the iterator visits the filled positions in
  order, and the helper loops over the arrays do what their index ranges say.
\<close>

section \<open>Exponential and binary search\<close>

lemma akey_simps [simp]:
  "akey_less a b \<longleftrightarrow> a < b" "akey_lessequal a b \<longleftrightarrow> a \<le> b" "akey_greater a b \<longleftrightarrow> b < a"
  "akey_greaterequal a b \<longleftrightarrow> b \<le> a" "akey_equal a b \<longleftrightarrow> a = b"
  by (auto simp: akey_less_def akey_lessequal_def akey_greater_def akey_greaterequal_def akey_equal_def)

text \<open>Where a sorted sequence of flags turns: all positions below it are in, all from it on are out.\<close>

definition turn :: "(nat \<Rightarrow> bool) \<Rightarrow> nat \<Rightarrow> nat \<Rightarrow> bool" where
  "turn out cap p \<longleftrightarrow> p \<le> cap \<and> (\<forall>i<cap. out i \<longleftrightarrow> p \<le> i)"

lemma turn_rank_le:
  assumes "sorted ks"
  shows "turn (\<lambda>i. key < ks ! i) (length ks) (rank_le key ks)"
  unfolding turn_def using rank_le_le_length [of key ks] rank_le_below [of _ key ks] rank_le_above [OF assms, of key]
  by (auto simp: not_le [symmetric] not_less)

lemma turn_rank_less:
  assumes "sorted ks"
  shows "turn (\<lambda>i. key \<le> ks ! i) (length ks) (rank_less key ks)"
  unfolding turn_def using rank_less_le_length [of key ks] rank_less_below [of _ key ks] rank_less_above [OF assms, of key]
  by (auto simp: not_le [symmetric] not_less)

lemma binary_upper_turn:
  assumes "turn (\<lambda>i. key < ks ! i) (length ks) p" "l \<le> p" "p \<le> r" "r \<le> length ks"
  shows "binary_search_upper_bound ks l r key = p"
  using assms
proof (induction ks l r key rule: binary_search_upper_bound.induct)
  case (1 ks l r key)
  show ?case
  proof (cases "l < r")
    case True
    define mid where "mid = l + (r - l) div 2"
    have mid: "l \<le> mid" "mid < r" "mid < length ks" using True "1.prems"(4) by (auto simp: mid_def)
    have t: "key < ks ! mid \<longleftrightarrow> p \<le> mid" using "1.prems"(1) mid(3) by (simp add: turn_def)
    show ?thesis
    proof (cases "ks ! mid \<le> key")
      case inn: True
      then have "binary_search_upper_bound ks (mid + 1) r key = p"
        using "1.IH"(1) [OF True mid_def] "1.prems" t by auto
      then show ?thesis using True inn by (subst binary_search_upper_bound.simps) (simp add: mid_def [symmetric] Let_def)
    next
      case out: False
      then have "binary_search_upper_bound ks l mid key = p"
        using "1.IH"(2) [OF True mid_def] "1.prems" t mid by auto
      then show ?thesis using True out by (subst binary_search_upper_bound.simps) (simp add: mid_def [symmetric] Let_def)
    qed
  next
    case False
    then show ?thesis using "1.prems" by (subst binary_search_upper_bound.simps) simp
  qed
qed

lemma binary_lower_turn:
  assumes "turn (\<lambda>i. key \<le> ks ! i) (length ks) p" "l \<le> p" "p \<le> r" "r \<le> length ks"
  shows "binary_search_lower_bound ks l r key = p"
  using assms
proof (induction ks l r key rule: binary_search_lower_bound.induct)
  case (1 ks l r key)
  show ?case
  proof (cases "l < r")
    case True
    define mid where "mid = l + (r - l) div 2"
    have mid: "l \<le> mid" "mid < r" "mid < length ks" using True "1.prems"(4) by (auto simp: mid_def)
    have t: "key \<le> ks ! mid \<longleftrightarrow> p \<le> mid" using "1.prems"(1) mid(3) by (simp add: turn_def)
    show ?thesis
    proof (cases "key \<le> ks ! mid")
      case out: True
      then have "binary_search_lower_bound ks l mid key = p"
        using "1.IH"(1) [OF True mid_def] "1.prems" t mid by auto
      then show ?thesis using True out by (subst binary_search_lower_bound.simps) (simp add: mid_def [symmetric] Let_def)
    next
      case inn: False
      then have "binary_search_lower_bound ks (mid + 1) r key = p"
        using "1.IH"(2) [OF True mid_def] "1.prems" t by auto
      then show ?thesis using True inn by (subst binary_search_lower_bound.simps) (simp add: mid_def [symmetric] Let_def)
    qed
  next
    case False
    then show ?thesis using "1.prems" by (subst binary_search_lower_bound.simps) simp
  qed
qed

text \<open>The doubling stops at a bound that is out of range or fails, and the bound before it holds.\<close>

lemma exp_loop_spec:
  "e \<le> exp_loop P sz e"
  "\<not> (2 ^ exp_loop P sz e < sz \<and> P (2 ^ exp_loop P sz e))"
  "e < exp_loop P sz e \<Longrightarrow> 2 ^ (exp_loop P sz e - 1) < sz \<and> P (2 ^ (exp_loop P sz e - 1))"
proof (induction P sz e rule: exp_loop.induct)
  case (1 P sz e)
  have unf: "exp_loop P sz e = (if 2 ^ e < sz \<and> P (2 ^ e) then exp_loop P sz (e + 1) else e)"
    by (rule exp_loop.simps)
  {
    case 1
    show ?case using "1.IH"(1) unf by (auto split: if_splits)
  next
    case 2
    show ?case using "1.IH"(2) unf by (auto split: if_splits)
  next
    case 3
    then have go: "2 ^ e < sz" "P (2 ^ e)" "exp_loop P sz e = exp_loop P sz (e + 1)" using unf by (auto split: if_splits)
    show ?case
    proof (cases "e + 1 < exp_loop P sz (e + 1)")
      case True
      then show ?thesis using "1.IH"(3) go by simp
    next
      case False
      then have "exp_loop P sz (e + 1) = e + 1" using "1.IH"(1) go(1,2) by (meson conjI le_antisym not_less)
      then show ?thesis using go by simp
    qed
  }
qed

text \<open>
  The range the search ends with contains the turn, whichever side it went to.
\<close>

lemma exp_down:
  assumes t: "turn out cap p" and m: "m < cap" "out m" and e: "e = exp_loop (\<lambda>b. out (m - b)) m 0"
  shows "m - min (2 ^ e) m \<le> p" "p \<le> m - 2 ^ e div 2" "m - 2 ^ e div 2 \<le> cap"
proof -
  have iff: "out i \<longleftrightarrow> p \<le> i" if "i < cap" for i using t that by (simp add: turn_def)
  note sp = exp_loop_spec [where e = 0 and P = "\<lambda>b. out (m - b)" and sz = m, folded e]
  show "m - min (2 ^ e) m \<le> p"
  proof (cases "2 ^ e < m")
    case True
    then have "\<not> out (m - 2 ^ e)" using sp(2) by blast
    then show ?thesis using iff [of "m - 2 ^ e"] m(1) True by simp
  qed simp
  show "p \<le> m - 2 ^ e div 2"
  proof (cases e)
    case 0
    then show ?thesis using iff [OF m(1)] m(2) by simp
  next
    case (Suc x)
    then have "2 ^ x < m" "out (m - 2 ^ x)" using sp(3) by auto
    then show ?thesis using iff [of "m - 2 ^ x"] m(1) Suc by simp
  qed
  show "m - 2 ^ e div 2 \<le> cap" using m(1) by simp
qed

lemma exp_up:
  assumes t: "turn out cap p" and m: "m < cap" "\<not> out m" and e: "e = exp_loop (\<lambda>b. \<not> out (m + b)) (cap - m) 0"
  shows "m + 2 ^ e div 2 \<le> p" "p \<le> m + min (2 ^ e) (cap - m)" "m + min (2 ^ e) (cap - m) \<le> cap"
proof -
  have iff: "out i \<longleftrightarrow> p \<le> i" if "i < cap" for i using t that by (simp add: turn_def)
  note sp = exp_loop_spec [where e = 0 and P = "\<lambda>b. \<not> out (m + b)" and sz = "cap - m", folded e]
  show "p \<le> m + min (2 ^ e) (cap - m)"
  proof (cases "2 ^ e < cap - m")
    case True
    then have "out (m + 2 ^ e)" using sp(2) by blast
    then show ?thesis using iff [of "m + 2 ^ e"] True by simp
  qed (use t m in \<open>simp add: turn_def\<close>)
  show "m + 2 ^ e div 2 \<le> p"
  proof (cases e)
    case 0
    then show ?thesis using iff [OF m(1)] m(2) by simp
  next
    case (Suc x)
    then have "2 ^ x < cap - m" "\<not> out (m + 2 ^ x)" using sp(3) by auto
    then show ?thesis using iff [of "m + 2 ^ x"] Suc by simp
  qed
qed (use m in simp)

lemma exponential_upper:
  assumes "sorted ks" "m < length ks"
  shows "fst (exponential_search_upper_bound ks m key) = rank_le key ks"
proof -
  note t = turn_rank_le [OF assms(1), of key]
  show ?thesis
  proof (cases "key < ks ! m")
    case True
    note ex = exp_down [OF t assms(2) True refl]
    show ?thesis using True binary_upper_turn [OF t ex(1,2,3)]
      by (simp add: exponential_search_upper_bound_def Let_def)
  next
    case False
    note ex = exp_up [OF t assms(2) False refl]
    show ?thesis using binary_upper_turn [OF t ex(1,2,3)]
      by (simp add: exponential_search_upper_bound_def Let_def False flip: not_less)
  qed
qed

lemma exponential_lower:
  assumes "sorted ks" "m < length ks"
  shows "fst (exponential_search_lower_bound ks m key) = rank_less key ks"
proof -
  note t = turn_rank_less [OF assms(1), of key]
  show ?thesis
  proof (cases "key \<le> ks ! m")
    case True
    note ex = exp_down [OF t assms(2) True refl]
    show ?thesis using True binary_lower_turn [OF t ex(1,2,3)]
      by (simp add: exponential_search_lower_bound_def Let_def)
  next
    case False
    note ex = exp_up [OF t assms(2) False refl]
    show ?thesis using binary_lower_turn [OF t ex(1,2,3)]
      by (simp add: exponential_search_lower_bound_def Let_def False flip: not_le)
  qed
qed

text \<open>The number of doublings is logarithmic in the error of the prediction.\<close>

lemma half_power: "0 < e \<Longrightarrow> 2 ^ e div 2 = (2 ^ (e - 1) :: nat)"
  by (cases e) auto

lemma exp_error:
  assumes "turn out cap p" "m < cap"
  shows "out m \<Longrightarrow> e = exp_loop (\<lambda>b. out (m - b)) m 0 \<Longrightarrow> e = 0 \<or> 2 ^ (e - 1) \<le> \<bar>int m - int p\<bar>"
    "\<not> out m \<Longrightarrow> e = exp_loop (\<lambda>b. \<not> out (m + b)) (cap - m) 0 \<Longrightarrow> e = 0 \<or> 2 ^ (e - 1) \<le> \<bar>int m - int p\<bar>"
proof -
  have cast: "(2::int) ^ k = int (2 ^ k)" for k by simp
  show "e = 0 \<or> 2 ^ (e - 1) \<le> \<bar>int m - int p\<bar>" if "out m" "e = exp_loop (\<lambda>b. out (m - b)) m 0"
  proof (cases "e = 0")
    case False
    have "0 < e \<Longrightarrow> 2 ^ (e - 1) < m" using exp_loop_spec(3) [where e = 0 and P = "\<lambda>b. out (m - b)" and sz = m] that(2) by simp
    then show ?thesis using exp_down(2) [OF assms that] half_power [of e] False unfolding cast by linarith
  qed simp
  show "e = 0 \<or> 2 ^ (e - 1) \<le> \<bar>int m - int p\<bar>" if "\<not> out m" "e = exp_loop (\<lambda>b. \<not> out (m + b)) (cap - m) 0"
    using exp_up(1) [OF assms that] half_power [of e] unfolding cast by (cases "e = 0") linarith+
qed

lemma exponential_upper_iterations:
  assumes "sorted ks" "m < length ks" and e_def: "e = snd (exponential_search_upper_bound ks m key)"
  shows "e = 0 \<or> 2 ^ (e - 1) \<le> \<bar>int m - int (rank_le key ks)\<bar>"
proof (cases "key < ks ! m")
  case True
  show ?thesis by (rule exp_error(1) [OF turn_rank_le [OF assms(1)] assms(2) True])
      (simp add: e_def exponential_search_upper_bound_def Let_def True)
next
  case False
  show ?thesis by (rule exp_error(2) [OF turn_rank_le [OF assms(1)] assms(2) False])
      (simp add: e_def exponential_search_upper_bound_def Let_def False flip: not_less)
qed

lemma exponential_lower_iterations:
  assumes "sorted ks" "m < length ks" and e_def: "e = snd (exponential_search_lower_bound ks m key)"
  shows "e = 0 \<or> 2 ^ (e - 1) \<le> \<bar>int m - int (rank_less key ks)\<bar>"
proof (cases "key \<le> ks ! m")
  case True
  show ?thesis by (rule exp_error(1) [OF turn_rank_less [OF assms(1)] assms(2) True])
      (simp add: e_def exponential_search_lower_bound_def Let_def True)
next
  case False
  show ?thesis by (rule exp_error(2) [OF turn_rank_less [OF assms(1)] assms(2) False])
      (simp add: e_def exponential_search_lower_bound_def Let_def False flip: not_le)
qed

lemma predict_in_range: "0 < data_capacity n \<Longrightarrow> predict_position c n key < data_capacity n"
  by (simp add: predict_position_def nat_less_iff)

section \<open>The iterator\<close>

lemma ait_inc_pending:
  assumes ok: "bitmap_ok bm cap" and "pending bm idx dat p" "p \<le> cap"
  obtains (stop) "fst (ait_inc bm (x, idx, dat)) = None" "filter (check_exists bm) [p..<cap] = []"
  | (go) q k d where "ait_inc bm (x, idx, dat) = (Some q, k, d)" "p \<le> q" "q < cap" "pending bm k d (q + 1)"
      "filter (check_exists bm) [p..<cap] = q # filter (check_exists bm) [q + 1..<cap]"
proof (cases "next_word bm idx dat")
  case None
  then have "filter (check_exists bm) [p..<cap] = []"
    using pending_none [OF assms(2) None] bitmap_ok_fits [OF ok] by (auto simp: filter_empty_conv)
  then show thesis using stop None by (simp add: ait_inc_def)
next
  case (Some y)
  obtain k d where y: "y = (k, d)" by (cases y)
  obtain q where q: "get_offset k (extract_rightmost_one d) = q" "p \<le> q" "check_exists bm q" "q < 64 * length bm"
    "\<forall>j. p \<le> j \<longrightarrow> j < q \<longrightarrow> \<not> check_exists bm j" "pending bm k (remove_rightmost_one d) (q + 1)"
    by (rule pending_some [OF assms(2) Some [unfolded y]])
  have cap: "q < cap" using ok q(3,4) unfolding bitmap_ok_def by (meson not_less)
  have "[p..<cap] = [p..<q] @ q # [q + 1..<cap]"
    using upt_split [of p q cap] q(2) cap by (simp add: upt_conv_Cons)
  moreover have "filter (check_exists bm) [p..<q] = []" using q(5) by (auto simp: filter_empty_conv)
  ultimately have "filter (check_exists bm) [p..<cap] = q # filter (check_exists bm) [q + 1..<cap]" using q(3) by simp
  then show thesis using go [of q k "remove_rightmost_one d"] q cap Some y by (simp add: ait_inc_def)
qed

lemma ait_walk_pending:
  assumes ok: "bitmap_ok bm cap"
  shows "pending bm idx dat p \<Longrightarrow> p \<le> cap \<Longrightarrow> cap - p \<le> fuel \<Longrightarrow>
    ait_walk fuel bm (ait_inc bm (x, idx, dat)) = Some (filter (check_exists bm) [p..<cap])"
proof (induction fuel arbitrary: idx dat p x)
  case 0
  then have "p = cap" by simp
  from ok 0(1,2) show ?case by (cases rule: ait_inc_pending [where x = x]) (simp_all add: \<open>p = cap\<close>)
next
  case (Suc fuel)
  from ok Suc.prems(1,2) show ?case
  proof (cases rule: ait_inc_pending [where x = x])
    case (go q k d)
    then have "ait_walk fuel bm (ait_inc bm (Some q, k, d)) = Some (filter (check_exists bm) [q + 1..<cap])"
      using Suc.IH [OF go(4), of "Some q"] Suc.prems(3) by simp
    then show ?thesis using go by simp
  qed simp
qed

lemma an_items_spec:
  assumes ok: "bitmap_ok (bitmap n) (data_capacity n)" and "left < 64 * length (bitmap n)" "left \<le> data_capacity n"
  shows "an_items n left = Some (map (\<lambda>i. (i, key_slots n ! i, payload_slots n ! i))
    (filter (an_exists n) [left..<data_capacity n]))"
proof -
  let ?bm = "bitmap n" and ?cap = "data_capacity n"
  have "?cap \<le> 64 * length ?bm" using ok unfolding bitmap_ok_def by auto
  moreover have "\<not> length ?bm \<le> left div 64" using assms(2) by (simp add: div64_less)
  ultimately show ?thesis
    using ait_walk_pending [OF ok pending_masked [OF assms(2)] assms(3), of "64 * length ?bm" "Some left"]
    by (simp add: an_items_def ait_at_def mod64 Let_def)
qed

section \<open>Loops over the arrays\<close>

lemma length_fill_keys [simp]: "length (fill_keys lo hi k ks) = length ks"
  unfolding fill_keys_def by (induction hi) auto

lemma nth_fill_keys [simp]:
  "i < length ks \<Longrightarrow> hi \<le> length ks \<Longrightarrow> fill_keys lo hi k ks ! i = (if lo \<le> i \<and> i < hi then k else ks ! i)"
proof (induction hi)
  case (Suc hi)
  show ?case
  proof (cases "lo \<le> hi")
    case True
    then have "fill_keys lo (Suc hi) k ks = (fill_keys lo hi k ks)[hi := k]" by (simp add: fill_keys_def)
    then show ?thesis using Suc True by (auto simp: nth_list_update)
  qed (use Suc.prems in \<open>auto simp: fill_keys_def\<close>)
qed (simp add: fill_keys_def)

lemma length_fill_gaps [simp]: "length (fill_gaps bm key p ks) = length ks"
  by (induction bm key p ks rule: fill_gaps.induct) auto

text \<open>The gaps directly below \<open>p\<close>.\<close>

definition gap_start :: "u64 list \<Rightarrow> nat \<Rightarrow> nat \<Rightarrow> bool" where
  "gap_start bm p s \<longleftrightarrow> s \<le> p \<and> (\<forall>j. s \<le> j \<longrightarrow> j < p \<longrightarrow> \<not> check_exists bm j) \<and> (0 < s \<longrightarrow> check_exists bm (s - 1))"

lemma fill_gaps_spec:
  "p \<le> length ks \<Longrightarrow> \<exists>s. gap_start bm p s \<and>
     (\<forall>i<length ks. fill_gaps bm key p ks ! i = (if s \<le> i \<and> i < p then key else ks ! i))"
proof (induction bm key p ks rule: fill_gaps.induct)
  case (1 bm key ks)
  then show ?case by (intro exI [of _ 0]) (auto simp: gap_start_def)
next
  case (2 bm key p ks)
  show ?case
  proof (cases "check_exists bm p")
    case True
    then show ?thesis by (intro exI [of _ "Suc p"]) (auto simp: gap_start_def)
  next
    case False
    then obtain s where s: "gap_start bm p s"
      "\<forall>i<length ks. fill_gaps bm key p (ks[p := key]) ! i = (if s \<le> i \<and> i < p then key else ks[p := key] ! i)"
      using "2.IH" "2.prems" by auto
    then have "gap_start bm (Suc p) s" using False by (auto simp: gap_start_def less_Suc_eq)
    moreover have "fill_gaps bm key (Suc p) ks ! i = (if s \<le> i \<and> i < Suc p then key else ks ! i)" if "i < length ks" for i
    proof (cases "i = p")
      case True
      then show ?thesis using s that False "2.prems" by (simp add: gap_start_def)
    qed (use s that False in auto)
    ultimately show ?thesis by blast
  qed
qed

lemma length_shift_up [simp]: "length (shift_up pos i xs) = length xs"
  by (induction pos i xs rule: shift_up.induct) auto

lemma nth_shift_up:
  "j < length xs \<Longrightarrow> g < length xs \<Longrightarrow> shift_up pos g xs ! j = (if pos < j \<and> j \<le> g then xs ! (j - 1) else xs ! j)"
proof (induction pos g xs rule: shift_up.induct)
  case (2 pos i xs)
  show ?case
  proof (cases "pos < Suc i")
    case True
    then have "shift_up pos (Suc i) xs ! j = (if pos < j \<and> j \<le> i then xs[Suc i := xs ! i] ! (j - 1) else xs[Suc i := xs ! i] ! j)"
      using "2.IH" "2.prems" by simp
    then show ?thesis using True "2.prems" by (auto simp: nth_list_update le_Suc_eq)
  qed auto
qed simp

lemma length_shift_down [simp]: "length (shift_down i e xs) = length xs"
  by (induction i e xs rule: shift_down.induct) (subst shift_down.simps, auto)

lemma nth_shift_down:
  "j < length xs \<Longrightarrow> e < length xs \<Longrightarrow> shift_down i e xs ! j = (if i \<le> j \<and> j < e then xs ! (j + 1) else xs ! j)"
proof (induction i e xs rule: shift_down.induct)
  case (1 i e xs)
  show ?case
  proof (cases "i < e")
    case True
    then have "shift_down (i + 1) e (xs[i := xs ! (i + 1)]) ! j =
        (if i + 1 \<le> j \<and> j < e then xs[i := xs ! (i + 1)] ! (j + 1) else xs[i := xs ! (i + 1)] ! j)"
      using "1.IH" "1.prems" by simp
    then show ?thesis using True "1.prems" by (subst shift_down.simps) (auto simp: nth_list_update)
  qed (subst shift_down.simps, auto)
qed

end
