(* ===== verification/Alex_Slots.thy ===== *)
theory Alex_Slots
  imports Alex_Search
begin

text \<open>
  The invariant of the arrays of an ALEX data node: its entries are the filled slots in order, and
  the rule that every gap repeats the key to its right (the sentinel at the end) makes the key
  array sorted, so that the positions of a search split the entries.
\<close>

section \<open>The entries between two positions\<close>

definition ents :: "u64 list \<Rightarrow> 'k list \<Rightarrow> 'v list \<Rightarrow> nat \<Rightarrow> nat \<Rightarrow> ('k, 'v) kvs" where
  "ents bm ks ps lo hi = map (\<lambda>i. (ks ! i, ps ! i)) (filter (check_exists bm) [lo..<hi])"

lemma ents_split: "lo \<le> m \<Longrightarrow> m \<le> hi \<Longrightarrow> ents bm ks ps lo hi = ents bm ks ps lo m @ ents bm ks ps m hi"
  by (simp add: ents_def upt_split [of lo m hi])

lemma ents_none: "\<forall>i. lo \<le> i \<longrightarrow> i < hi \<longrightarrow> \<not> check_exists bm i \<Longrightarrow> ents bm ks ps lo hi = []"
  by (simp add: ents_def filter_empty_conv)

lemma ents_hd: "lo < hi \<Longrightarrow> check_exists bm lo \<Longrightarrow> ents bm ks ps lo hi = (ks ! lo, ps ! lo) # ents bm ks ps (lo + 1) hi"
  by (simp add: ents_def upt_conv_Cons)

lemma ents_one: "check_exists bm p \<Longrightarrow> ents bm ks ps p (p + 1) = [(ks ! p, ps ! p)]"
  by (simp add: ents_hd ents_none)

lemma ents_gap: "\<not> check_exists bm p \<Longrightarrow> ents bm ks ps p (p + 1) = []"
  by (rule ents_none) (auto simp: le_less_Suc_eq)

lemma ents_cong:
  assumes "\<And>i. lo \<le> i \<Longrightarrow> i < hi \<Longrightarrow> check_exists bm i = check_exists bm' i"
    and "\<And>i. lo \<le> i \<Longrightarrow> i < hi \<Longrightarrow> check_exists bm i \<Longrightarrow> ks ! i = ks' ! i \<and> ps ! i = ps' ! i"
  shows "ents bm ks ps lo hi = ents bm' ks' ps' lo hi"
proof -
  have "filter (check_exists bm) [lo..<hi] = filter (check_exists bm') [lo..<hi]"
    by (rule filter_cong) (use assms(1) in auto)
  then show ?thesis using assms unfolding ents_def by (auto intro!: map_cong)
qed

lemma ents_shift:
  assumes "\<And>i. lo \<le> i \<Longrightarrow> i < hi \<Longrightarrow> check_exists bm i = check_exists bm' (i + 1)"
    and "\<And>i. lo \<le> i \<Longrightarrow> i < hi \<Longrightarrow> check_exists bm i \<Longrightarrow> ks ! i = ks' ! (i + 1) \<and> ps ! i = ps' ! (i + 1)"
  shows "ents bm ks ps lo hi = ents bm' ks' ps' (lo + 1) (hi + 1)"
proof -
  have "[lo + 1..<hi + 1] = map Suc [lo..<hi]" by (simp add: map_Suc_upt)
  then have "ents bm' ks' ps' (lo + 1) (hi + 1) = map (\<lambda>i. (ks' ! (i + 1), ps' ! (i + 1))) (filter (\<lambda>i. check_exists bm' (i + 1)) [lo..<hi])"
    by (simp add: ents_def filter_map comp_def)
  moreover have "filter (check_exists bm) [lo..<hi] = filter (\<lambda>i. check_exists bm' (i + 1)) [lo..<hi]"
    by (rule filter_cong) (use assms(1) in auto)
  ultimately show ?thesis using assms unfolding ents_def by (auto intro!: map_cong)
qed

lemma set_ents: "set (ents bm ks ps lo hi) = (\<lambda>i. (ks ! i, ps ! i)) ` {i. lo \<le> i \<and> i < hi \<and> check_exists bm i}"
  by (auto simp: ents_def)

lemma length_ents: "length (ents bm ks ps lo hi) \<le> hi - lo"
  by (simp add: ents_def) (metis length_filter_le length_upt)

lemma length_ents_full: "(\<And>i. lo \<le> i \<Longrightarrow> i < hi \<Longrightarrow> check_exists bm i) \<Longrightarrow> length (ents bm ks ps lo hi) = hi - lo"
  by (simp add: ents_def filter_id_conv)

section \<open>The gap rule\<close>

text \<open>What a gap at \<open>i\<close> has to hold.\<close>

definition next_slot :: "'k \<Rightarrow> 'k list \<Rightarrow> nat \<Rightarrow> 'k" where
  "next_slot sent ks i = (if i + 1 < length ks then ks ! (i + 1) else sent)"

definition gap_rule :: "'k \<Rightarrow> u64 list \<Rightarrow> 'k list \<Rightarrow> bool" where
  "gap_rule sent bm ks \<longleftrightarrow> (\<forall>i<length ks. \<not> check_exists bm i \<longrightarrow> ks ! i = next_slot sent ks i)"

definition arr_ok :: "'k::linorder \<Rightarrow> u64 list \<Rightarrow> 'k list \<Rightarrow> 'v list \<Rightarrow> bool" where
  "arr_ok sent bm ks ps \<longleftrightarrow> 0 < length ks \<and> length ps = length ks \<and> bitmap_ok bm (length ks) \<and> gap_rule sent bm ks
     \<and> sorted (map fst (ents bm ks ps 0 (length ks))) \<and> (\<forall>x\<in>set (ents bm ks ps 0 (length ks)). fst x < sent)"

lemma next_flag_exists: "p \<le> cap \<Longrightarrow> \<exists>q. next_flag ex cap p q"
proof (induction "cap - p" arbitrary: p)
  case 0
  then show ?case by (intro exI [of _ cap]) (auto simp: next_flag_def)
next
  case (Suc d)
  show ?case
  proof (cases "ex p")
    case True
    then show ?thesis using Suc.prems by (intro exI [of _ p]) (auto simp: next_flag_def)
  next
    case False
    obtain q where "next_flag ex cap (p + 1) q" using Suc.hyps(1) [of "p + 1"] Suc.hyps(2) by fastforce
    then have "next_flag ex cap p q" using False unfolding next_flag_def by (metis Suc_eq_plus1 Suc_leD le_neq_implies_less Suc_leI)
    then show ?thesis by blast
  qed
qed

lemma slot_key:
  assumes "gap_rule sent bm ks" "next_flag (check_exists bm) (length ks) p q" "p < length ks"
  shows "ks ! p = (if q < length ks then ks ! q else sent)"
  using assms(2,3)
proof (induction "q - p" arbitrary: p)
  case 0
  then show ?case by (auto simp: next_flag_def)
next
  case (Suc d)
  then have "\<not> check_exists bm p" by (auto simp: next_flag_def)
  then have g: "ks ! p = next_slot sent ks p" using assms(1) Suc.prems(2) by (auto simp: gap_rule_def)
  show ?case
  proof (cases "p + 1 < length ks")
    case True
    have "next_flag (check_exists bm) (length ks) (p + 1) q" using Suc.prems(1) Suc.hyps(2) by (auto simp: next_flag_def)
    then show ?thesis using Suc.hyps(1) [of "p + 1"] Suc.hyps(2) True g by (simp add: next_slot_def)
  next
    case False
    then have "q = length ks" using Suc.hyps(2) Suc.prems by (auto simp: next_flag_def)
    then show ?thesis using g False by (simp add: next_slot_def)
  qed
qed

lemma ents_mono:
  assumes "sorted (map fst (ents bm ks ps 0 cap))" "i \<le> j" "j < cap" "check_exists bm i" "check_exists bm j"
  shows "ks ! i \<le> ks ! j"
proof (cases "i = j")
  case False
  have "ents bm ks ps 0 cap = ents bm ks ps 0 i @ (ks ! i, ps ! i) # ents bm ks ps (i + 1) cap"
    using ents_split [of 0 i cap bm ks ps] ents_hd [of i cap bm ks ps] assms(2,3,4) by simp
  moreover have "(ks ! j, ps ! j) \<in> set (ents bm ks ps (i + 1) cap)" using assms False by (auto simp: set_ents)
  ultimately show ?thesis using assms(1) by (fastforce simp: sorted_append)
qed simp

lemma arr_sorted:
  assumes ok: "arr_ok sent bm ks ps"
  shows "sorted ks" "\<forall>k\<in>set ks. k \<le> sent"
proof -
  note o = ok [unfolded arr_ok_def]
  have gr: "gap_rule sent bm ks" using o by simp
  have below: "ks ! q < sent" if "q < length ks" "check_exists bm q" for q using o that by (auto simp: set_ents)
  show "sorted ks"
  proof (rule sorted_iff_nth_mono [THEN iffD2], intro allI impI)
    fix i j assume ij: "i \<le> j" "j < length ks"
    obtain a b where n: "next_flag (check_exists bm) (length ks) i a" "next_flag (check_exists bm) (length ks) j b"
      using next_flag_exists ij by (meson less_imp_le_nat order.trans)
    have ab: "a \<le> b"
    proof (rule ccontr)
      assume "\<not> a \<le> b"
      then show False using n ij unfolding next_flag_def by auto
    qed
    show "ks ! i \<le> ks ! j"
    proof (cases "b < length ks")
      case True
      then have "ks ! a \<le> ks ! b" using o n ab by (intro ents_mono [of bm ks ps "length ks"]) (auto simp: next_flag_def)
      then show ?thesis using slot_key [OF gr n(1)] slot_key [OF gr n(2)] o ij ab True by simp
    next
      case False
      have "ks ! i \<le> sent" using slot_key [OF gr n(1)] o ij below [of a] n(1) by (auto simp: next_flag_def intro: less_imp_le)
      then show ?thesis using slot_key [OF gr n(2)] o ij False by simp
    qed
  qed
  show "\<forall>k\<in>set ks. k \<le> sent"
  proof
    fix k assume "k \<in> set ks"
    then obtain i where i: "i < length ks" "k = ks ! i" by (metis in_set_conv_nth)
    obtain a where n: "next_flag (check_exists bm) (length ks) i a" using next_flag_exists i by (meson less_imp_le_nat)
    then show "k \<le> sent" using slot_key [OF gr n i(1)] o i below [of a] by (auto simp: next_flag_def intro: less_imp_le)
  qed
qed

text \<open>A slot whose key is below that of the next one is filled.\<close>

lemma step_filled: "gap_rule sent bm ks \<Longrightarrow> i < length ks \<Longrightarrow> ks ! i \<noteq> next_slot sent ks i \<Longrightarrow> check_exists bm i"
  by (auto simp: gap_rule_def)

lemma rank_le_filled:
  assumes "arr_ok sent bm ks ps" "0 < rank_le key ks" "key < sent"
  shows "check_exists bm (rank_le key ks - 1)"
proof (rule step_filled)
  let ?p = "rank_le key ks"
  have "?p \<le> length ks" by (rule rank_le_le_length)
  then show "?p - 1 < length ks" using assms(2) by simp
  have "ks ! (?p - 1) \<le> key" using assms(2) by (simp add: rank_le_below)
  moreover have "key < next_slot sent ks (?p - 1)" using assms(2,3) rank_le_at [of key ks] by (auto simp: next_slot_def)
  ultimately show "ks ! (?p - 1) \<noteq> next_slot sent ks (?p - 1)" by auto
  show "gap_rule sent bm ks" using assms(1) by (simp add: arr_ok_def)
qed

lemma ents_rank_le:
  assumes "arr_ok sent bm ks ps" and p_def: "p = rank_le key ks"
  shows "ents bm ks ps 0 (length ks) = ents bm ks ps 0 p @ ents bm ks ps p (length ks)"
    "\<forall>x\<in>set (ents bm ks ps 0 p). fst x \<le> key" "\<forall>x\<in>set (ents bm ks ps p (length ks)). key < fst x"
  using rank_le_le_length [of key ks] rank_le_below [of _ key ks] rank_le_above [OF arr_sorted(1) [OF assms(1)], of key]
  by (auto simp: p_def set_ents intro!: ents_split)

lemma ents_rank_less:
  assumes "arr_ok sent bm ks ps" and p_def: "p = rank_less key ks"
  shows "ents bm ks ps 0 (length ks) = ents bm ks ps 0 p @ ents bm ks ps p (length ks)"
    "\<forall>x\<in>set (ents bm ks ps 0 p). fst x < key" "\<forall>x\<in>set (ents bm ks ps p (length ks)). key \<le> fst x"
  using rank_less_le_length [of key ks] rank_less_below [of _ key ks] rank_less_above [OF arr_sorted(1) [OF assms(1)], of key]
  by (auto simp: p_def set_ents intro!: ents_split)

end
