(* ===== verification/Alex_Load.thy ===== *)
theory Alex_Load
  imports Alex_Slots
begin

text \<open>
  Loading an ALEX data node: the model-based inserts of \<open>bulk_load\<close>, \<open>bulk_load_from_existing\<close> and
  \<open>resize\<close> write every item into the arrays, in order and within the bounds, whatever positions
  the model predicts.
\<close>

section \<open>Runs of writes\<close>

definition arr_wf :: "nat \<Rightarrow> ('k, 'v) arrays \<Rightarrow> bool" where
  "arr_wf cap A \<longleftrightarrow> (case A of (ks, ps, bm) \<Rightarrow> length ks = cap \<and> length ps = cap \<and> bitmap_ok bm cap)"

definition clear_from :: "nat \<Rightarrow> nat \<Rightarrow> ('k, 'v) arrays \<Rightarrow> bool" where
  "clear_from cap nxt A \<longleftrightarrow> (\<forall>i. nxt \<le> i \<longrightarrow> i < cap \<longrightarrow> \<not> check_exists (snd (snd A)) i)"

text \<open>
  The writes between \<open>A\<close> and \<open>A'\<close> filled exactly the slots from \<open>lo\<close> to \<open>hi\<close>, with the entries \<open>es\<close>.
\<close>

definition wrote :: "nat \<Rightarrow> nat \<Rightarrow> nat \<Rightarrow> ('k, 'v) arrays \<Rightarrow> ('k, 'v) arrays \<Rightarrow> ('k, 'v) kvs \<Rightarrow> bool" where
  "wrote cap lo hi A A' es \<longleftrightarrow> (case A of (ks, ps, bm) \<Rightarrow> case A' of (ks', ps', bm') \<Rightarrow>
     lo \<le> hi \<and> hi \<le> cap \<and> arr_wf cap A'
     \<and> (\<forall>i<cap. i < lo \<or> hi \<le> i \<longrightarrow> ks' ! i = ks ! i \<and> ps' ! i = ps ! i \<and> check_exists bm' i = check_exists bm i)
     \<and> ents bm' ks' ps' lo hi = es
     \<and> (\<forall>i. lo \<le> i \<longrightarrow> i < hi \<longrightarrow> \<not> check_exists bm' i \<longrightarrow> i + 1 < hi \<and> ks' ! i = ks' ! (i + 1)))"

lemma wrote_nothing: "arr_wf cap A \<Longrightarrow> lo \<le> cap \<Longrightarrow> wrote cap lo lo A A []"
  by (cases A) (auto simp: wrote_def ents_def)

lemma wrote_wf: "wrote cap lo hi A A' es \<Longrightarrow> arr_wf cap A' \<and> lo \<le> hi \<and> hi \<le> cap"
  by (auto simp: wrote_def split: prod.splits)

lemma wrote_clear: "wrote cap lo hi A A' es \<Longrightarrow> clear_from cap lo A \<Longrightarrow> clear_from cap hi A'"
  by (auto simp: wrote_def clear_from_def split: prod.splits)

lemma wrote_trans:
  assumes "wrote cap lo m A A1 es1" "wrote cap m hi A1 A2 es2"
  shows "wrote cap lo hi A A2 (es1 @ es2)"
proof -
  obtain ks ps bm where A: "A = (ks, ps, bm)" by (cases A)
  obtain ks1 ps1 bm1 where A1: "A1 = (ks1, ps1, bm1)" by (cases A1)
  obtain ks2 ps2 bm2 where A2: "A2 = (ks2, ps2, bm2)" by (cases A2)
  note w = assms [unfolded wrote_def A A1 A2 prod.case]
  have b: "lo \<le> m" "m \<le> hi" "hi \<le> cap" using w by auto
  have keep: "ks2 ! i = ks1 ! i" "ps2 ! i = ps1 ! i" "check_exists bm2 i = check_exists bm1 i" if "i < m" for i
    using w(2) that b by auto
  have e: "ents bm2 ks2 ps2 lo m = es1" using w(1) keep ents_cong [of lo m bm2 bm1 ks2 ks1 ps2 ps1] by simp
  have "ents bm2 ks2 ps2 lo hi = es1 @ es2" using ents_split [OF b(1,2)] e w(2) by metis
  moreover have "i + 1 < hi \<and> ks2 ! i = ks2 ! (i + 1)" if "lo \<le> i" "i < hi" "\<not> check_exists bm2 i" for i
  proof (cases "i < m")
    case True
    then have "i + 1 < m" "ks1 ! i = ks1 ! (i + 1)" using w(1) that keep by auto
    then show ?thesis using keep b by auto
  qed (use w(2) that in auto)
  ultimately show ?thesis using w b unfolding wrote_def A A2 prod.case by auto
qed

text \<open>The filled positions of a range.\<close>

definition posns :: "('k, 'v) arrays \<Rightarrow> nat \<Rightarrow> nat \<Rightarrow> nat list" where
  "posns A lo hi = filter (check_exists (snd (snd A))) [lo..<hi]"

lemma posns_trans:
  assumes "wrote cap lo m A A1 es1" "wrote cap m hi A1 A2 es2"
  shows "posns A2 lo hi = posns A1 lo m @ posns A2 m hi"
proof -
  obtain ks ps bm ks1 ps1 bm1 ks2 ps2 bm2 where A: "A = (ks, ps, bm)" "A1 = (ks1, ps1, bm1)" "A2 = (ks2, ps2, bm2)"
    by (cases A; cases A1; cases A2)
  note w = assms [unfolded wrote_def A prod.case]
  have "filter (check_exists bm2) [lo..<m] = filter (check_exists bm1) [lo..<m]" by (rule filter_cong) (use w in auto)
  then show ?thesis using upt_split [of lo m hi] w by (simp add: posns_def A)
qed

definition write_slot :: "nat \<Rightarrow> nat \<Rightarrow> 'k \<Rightarrow> 'v \<Rightarrow> ('k, 'v) arrays \<Rightarrow> ('k, 'v) arrays" where
  "write_slot nxt p k v A = (case A of (ks, ps, bm) \<Rightarrow> ((fill_keys nxt p k ks)[p := k], ps[p := v], set_bit_at bm p))"

lemma wrote_slot:
  assumes "arr_wf cap A" "nxt \<le> p" "p < cap" "\<forall>i. nxt \<le> i \<longrightarrow> i < p \<longrightarrow> \<not> check_exists (snd (snd A)) i"
  shows "wrote cap nxt (p + 1) A (write_slot nxt p k v A) [(k, v)]"
proof -
  obtain ks ps bm where A: "A = (ks, ps, bm)" by (cases A)
  have len: "length ks = cap" "length ps = cap" "bitmap_ok bm cap" using assms(1) by (auto simp: A arr_wf_def)
  let ?ks = "(fill_keys nxt p k ks)[p := k]" and ?ps = "ps[p := v]" and ?bm = "set_bit_at bm p"
  have ck: "check_exists ?bm i \<longleftrightarrow> i = p \<or> check_exists bm i" for i using bitmap_ok_fits [OF len(3) assms(3)] by simp
  have "ents ?bm ?ks ?ps nxt (p + 1) = ents ?bm ?ks ?ps nxt p @ ents ?bm ?ks ?ps p (p + 1)"
    using ents_split [of nxt p "p + 1"] assms(2) by simp
  also have "\<dots> = [(k, v)]" using assms(4) ck len assms(3) ents_one [of ?bm p ?ks ?ps] by (simp add: ents_none A)
  finally show ?thesis unfolding wrote_def write_slot_def A prod.case arr_wf_def
    using len assms ck bitmap_ok_set [OF len(3) assms(3)] by (auto simp: A nth_list_update)
qed

lemma posns_slot:
  assumes "arr_wf cap A" "nxt \<le> p" "p < cap" "\<forall>i. nxt \<le> i \<longrightarrow> i < p \<longrightarrow> \<not> check_exists (snd (snd A)) i"
  shows "posns (write_slot nxt p k v A) nxt (p + 1) = [p]"
proof -
  obtain ks ps bm where A: "A = (ks, ps, bm)" by (cases A)
  have "check_exists (set_bit_at bm p) i \<longleftrightarrow> i = p \<or> check_exists bm i" for i
    using bitmap_ok_fits [of bm cap p] assms(1,3) by (simp add: A arr_wf_def)
  then show ?thesis using assms(2,4) upt_split [of nxt p "p + 1"] by (auto simp: posns_def write_slot_def A filter_empty_conv)
qed

lemma put_items_step: "put_items pos ((i, k, v) # xs) A = put_items (pos + 1) xs (write_slot pos pos k v A)"
  by (cases A) (simp add: write_slot_def fill_keys_def)

lemma put_items_wrote:
  "arr_wf cap A \<Longrightarrow> pos + length xs \<le> cap \<Longrightarrow> wrote cap pos (pos + length xs) A (put_items pos xs A) (map snd xs)
    \<and> posns (put_items pos xs A) pos (pos + length xs) = [pos..<pos + length xs]"
proof (induction xs arbitrary: pos A)
  case Nil
  then show ?case by (simp add: wrote_nothing posns_def)
next
  case (Cons x xs)
  obtain i k v where x: "x = (i, k, v)" by (cases x)
  have ps: "posns (write_slot pos pos k v A) pos (pos + 1) = [pos]" using Cons.prems by (intro posns_slot) auto
  have one: "wrote cap pos (pos + 1) A (write_slot pos pos k v A) [(k, v)]" using Cons.prems by (intro wrote_slot) auto
  have two: "wrote cap (pos + 1) (pos + 1 + length xs) (write_slot pos pos k v A) (put_items (pos + 1) xs (write_slot pos pos k v A)) (map snd xs)"
    "posns (put_items (pos + 1) xs (write_slot pos pos k v A)) (pos + 1) (pos + 1 + length xs) = [pos + 1..<pos + 1 + length xs]"
    using Cons.IH [OF conjunct1 [OF wrote_wf [OF one]], of "pos + 1"] Cons.prems(2) by simp_all
  have "[pos..<pos + 1 + length xs] = pos # [pos + 1..<pos + 1 + length xs]" by (simp add: upt_conv_Cons del: upt_Suc)
  then show ?case using wrote_trans [OF one two(1)] posns_trans [OF one two(1)] ps two(2)
    by (simp add: x put_items_step del: put_items.simps upt_Suc)
qed

section \<open>The model-based inserts\<close>

text \<open>Where a model puts keys, from the position \<open>nxt\<close> on.\<close>

fun placed :: "('k \<Rightarrow> int) \<Rightarrow> nat \<Rightarrow> nat \<Rightarrow> 'k list \<Rightarrow> nat list" where
  "placed pr cap nxt [] = []"
| "placed pr cap nxt (k # ks) = (let position = max (pr k) (int nxt); kr = length (k # ks) in
     if int cap - position < int kr then [cap - kr..<cap] else nat position # placed pr cap (nat position + 1) ks)"

lemma model_inserts_wrote:
  assumes "arr_wf cap A" "clear_from cap nxt A" "nxt + length (takeWhile (\<lambda>x. fst x < right) items) \<le> cap"
  shows "\<exists>A' nxt'. model_inserts f m cap right (length (takeWhile (\<lambda>x. fst x < right) items)) nxt items A = Some (A', nxt')
    \<and> wrote cap nxt nxt' A A' (map snd (takeWhile (\<lambda>x. fst x < right) items))
    \<and> posns A' nxt nxt' = placed (lm_predict f m) cap nxt (map (\<lambda>x. fst (snd x)) (takeWhile (\<lambda>x. fst x < right) items))"
  using assms
proof (induction items arbitrary: A nxt)
  case Nil
  then show ?case by (simp add: wrote_nothing posns_def)
next
  case (Cons x xs)
  obtain i k v where x: "x = (i, k, v)" by (cases x)
  obtain ks ps bm where A: "A = (ks, ps, bm)" by (cases A)
  let ?in = "takeWhile (\<lambda>x. fst x < right) xs"
  show ?case
  proof (cases "i < right")
    case False
    then show ?thesis using Cons.prems by (simp add: x A wrote_nothing posns_def)
  next
    case True
    define p where "p = max (lm_predict f m k) (int nxt)"
    have fit: "nxt + length ?in < cap" using Cons.prems(3) True by (simp add: x)
    show ?thesis
    proof (cases "int cap - p < int (length ?in + 1)")
      case tail: True
      define pos where "pos = cap - Suc (length ?in)"
      have pos: "nxt \<le> pos" "pos < cap" "pos + 1 + length ?in = cap" using fit by (auto simp: pos_def)
      have tk: "take (length ?in + 1) (x # xs) = x # ?in" by (simp add: takeWhile_eq_take [symmetric])
      have clr: "\<forall>i. nxt \<le> i \<longrightarrow> i < pos \<longrightarrow> \<not> check_exists (snd (snd A)) i" using Cons.prems(2) pos by (auto simp: clear_from_def)
      note one = wrote_slot [OF Cons.prems(1) pos(1,2) clr, of k v] and ps = posns_slot [OF Cons.prems(1) pos(1,2) clr, of k v]
      have "put_items pos (x # ?in) (fill_keys nxt pos k ks, ps, bm) = put_items (pos + 1) ?in (write_slot nxt pos k v A)"
        by (simp add: x A write_slot_def)
      moreover have two: "wrote cap (pos + 1) cap (write_slot nxt pos k v A) (put_items (pos + 1) ?in (write_slot nxt pos k v A)) (map snd ?in)"
        "posns (put_items (pos + 1) ?in (write_slot nxt pos k v A)) (pos + 1) cap = [pos + 1..<cap]"
        using put_items_wrote [OF conjunct1 [OF wrote_wf [OF one]], of "pos + 1" ?in] pos(3) by (simp_all del: upt_Suc)
      moreover have "\<not> length (x # xs) < length ?in + 1" using length_takeWhile_le [of "\<lambda>x. fst x < right" xs] by simp
      moreover have "[pos..<cap] = pos # [pos + 1..<cap]" using pos(2) by (simp add: upt_conv_Cons)
      ultimately show ?thesis
        using wrote_trans [OF one two(1)] posns_trans [OF one two(1)] ps True tail tk
        by (simp add: x A Let_def p_def [symmetric] pos_def [symmetric] del: put_items.simps)
    next
      case here: False
      define q where "q = nat p"
      have q: "nxt \<le> q" "q + 1 + length ?in \<le> cap" "q < cap" using here by (auto simp: q_def p_def)
      have clr: "\<forall>i. nxt \<le> i \<longrightarrow> i < q \<longrightarrow> \<not> check_exists (snd (snd A)) i" using Cons.prems(2) q by (auto simp: clear_from_def)
      note one = wrote_slot [OF Cons.prems(1) q(1,3) clr, of k v] and ps = posns_slot [OF Cons.prems(1) q(1,3) clr, of k v]
      obtain A' nxt' where rest: "model_inserts f m cap right (length ?in) (q + 1) xs (write_slot nxt q k v A) = Some (A', nxt')"
        "wrote cap (q + 1) nxt' (write_slot nxt q k v A) A' (map snd ?in)"
        "posns A' (q + 1) nxt' = placed (lm_predict f m) cap (q + 1) (map (\<lambda>x. fst (snd x)) ?in)"
        using Cons.IH [OF conjunct1 [OF wrote_wf [OF one]] wrote_clear [OF one Cons.prems(2)] q(2)] by blast
      then show ?thesis
        using wrote_trans [OF one rest(2)] posns_trans [OF one rest(2)] ps True here
        by (simp add: x A Let_def p_def [symmetric] q_def [symmetric] write_slot_def)
    qed
  qed
qed

section \<open>The invariant of a node\<close>

abbreviation an_entries :: "('k, 'v, 'd) anode \<Rightarrow> ('k, 'v) kvs" where
  "an_entries n \<equiv> ents (bitmap n) (key_slots n) (payload_slots n) 0 (data_capacity n)"

text \<open>
  What the proofs need of the arithmetic: comparisons are total on the thresholds, which are
  numbers that come from integers and the density constant and never NaN.
\<close>

definition fp_ok :: "('k, 'd) fpops \<Rightarrow> bool" where
  "fp_ok f \<longleftrightarrow> (\<forall>i. fle f (of_i f i) (of_i f i))
     \<and> (\<forall>i j. flt f (of_i f i) (of_i f j) \<or> fle f (of_i f j) (of_i f i))
     \<and> (\<forall>i j. flt f (of_i f i) (fmul (dbl f) (of_i f j) (flit f 8 10)) \<or> fle f (fmul (dbl f) (of_i f j) (flit f 8 10)) (of_i f i))"

definition an_ok :: "('k::linorder, 'v, 'd) acfg \<Rightarrow> ('k, 'v, 'd) anode \<Rightarrow> bool" where
  "an_ok c n \<longleftrightarrow> arr_ok (kEndSentinel c) (bitmap n) (key_slots n) (payload_slots n)
     \<and> num_keys n = length (an_entries n)
     \<and> fle (fp c) (expansion_threshold n) (of_i (fp c) (int (data_capacity n)))
     \<and> (adup c \<or> skeys (an_entries n))"

text \<open>A list of entries a node can hold.\<close>

definition loadable :: "('k::linorder, 'v, 'd) acfg \<Rightarrow> ('k, 'v) kvs \<Rightarrow> bool" where
  "loadable c es \<longleftrightarrow> sorted (map fst es) \<and> (\<forall>x\<in>set es. fst x < kEndSentinel c) \<and> (adup c \<or> skeys es)"

lemma an_ok_loadable: "an_ok c n \<Longrightarrow> loadable c (an_entries n)"
  by (simp add: an_ok_def loadable_def arr_ok_def)

lemma new_threshold_le: "fp_ok (fp c) \<Longrightarrow> fle (fp c) (new_expansion_threshold c cap n) (of_i (fp c) (int cap))"
  by (auto simp: fp_ok_def new_expansion_threshold_def fmin_def fmax_def kMaxDensity_def Let_def)

lemma new_capacity_gt: "k < new_capacity c k d"
  by (simp add: new_capacity_def)

lemma new_arrays_wf: "arr_wf cap (new_arrays c cap)" "clear_from cap 0 (new_arrays c cap)"
  using bitmap_ok_new [of cap] bitmap_ok_fits [OF bitmap_ok_new [of cap]]
  by (auto simp: arr_wf_def new_arrays_def clear_from_def intro!: check_new)

lemma load_items_ok:
  assumes "0 < cap" "num_keys n \<le> cap" "es = map snd (takeWhile (\<lambda>x. fst x < right) items)" "num_keys n = length es"
    and "loadable c es" "fp_ok (fp c)"
  shows "\<exists>n'. load_items c right items (new_arrays c cap) n = Some n' \<and> an_ok c n' \<and> an_entries n' = es
    \<and> data_capacity n' = cap \<and> num_keys n' = num_keys n \<and> an_model n' = an_model n
    \<and> filter (an_exists n') [0..<cap] = placed (lm_predict (fp c) (an_model n)) cap 0 (map fst es)"
proof -
  let ?A = "new_arrays c cap"
  obtain A' nxt where ins: "model_inserts (fp c) (an_model n) cap right (num_keys n) 0 items ?A = Some (A', nxt)"
    and w: "wrote cap 0 nxt ?A A' es" and pl: "posns A' 0 nxt = placed (lm_predict (fp c) (an_model n)) cap 0 (map fst es)"
    using model_inserts_wrote [OF new_arrays_wf [of cap c], where right = right and items = items and f = "fp c" and m = "an_model n"] assms(2,3,4)
    by (fastforce simp: comp_def)
  obtain ks ps bm where A': "A' = (ks, ps, bm)" by (cases A')
  note wd = w [unfolded wrote_def A' arr_wf_def]
  have len: "length ks = cap" "length ps = cap" "bitmap_ok bm cap" "nxt \<le> cap" using wd by (auto split: prod.splits)
  have clr: "\<not> check_exists bm i" if "nxt \<le> i" "i < cap" for i
    using wrote_clear [OF w new_arrays_wf(2)] that by (simp add: clear_from_def A')
  have "filter (check_exists bm) [nxt..<cap] = []" using clr by (simp add: filter_empty_conv)
  then have fl: "filter (check_exists bm) [0..<cap] = placed (lm_predict (fp c) (an_model n)) cap 0 (map fst es)"
    using pl upt_split [OF le0 len(4)] by (simp add: posns_def A')
  have gap: "i + 1 < nxt \<and> ks ! i = ks ! (i + 1)" if "i < nxt" "\<not> check_exists bm i" for i
    using wd that by (auto split: prod.splits)
  let ?ks = "fill_keys nxt cap (kEndSentinel c) ks"
  have "ents bm ?ks ps 0 cap = ents bm ?ks ps 0 nxt @ ents bm ?ks ps nxt cap" using ents_split [of 0 nxt cap] len(4) by simp
  also have "ents bm ?ks ps nxt cap = []" using clr by (simp add: ents_none)
  also have "ents bm ?ks ps 0 nxt = ents bm ks ps 0 nxt" by (rule ents_cong) (use len in auto)
  also have "\<dots> = es" using wd by (auto split: prod.splits)
  finally have e: "ents bm ?ks ps 0 cap = es" by simp
  have "gap_rule (kEndSentinel c) bm ?ks"
    unfolding gap_rule_def next_slot_def
  proof (intro allI impI)
    fix i assume i: "i < length ?ks" "\<not> check_exists bm i"
    show "?ks ! i = (if i + 1 < length ?ks then ?ks ! (i + 1) else kEndSentinel c)"
      by (cases "i < nxt") (use gap [of i] i len in auto)
  qed
  then have "arr_ok (kEndSentinel c) bm ?ks ps"
    using len e assms(1,5) by (simp add: arr_ok_def loadable_def)
  moreover have "length (fst ?A) = cap" by (simp add: new_arrays_def)
  ultimately show ?thesis
    using ins e len fl assms(4,5) new_threshold_le [OF assms(6)]
    by (simp add: load_items_def A' an_ok_def loadable_def)
qed

text \<open>The same whatever model the node is given.\<close>

lemma load_items_models:
  assumes "num_keys n < cap" "map snd (takeWhile (\<lambda>x. fst x < right) items) = es" "num_keys n = length es"
    and "loadable c es" "fp_ok (fp c)"
  obtains g where "\<And>mm. load_items c right items (new_arrays c cap) (n\<lparr>an_model := mm\<rparr>) = Some (g mm)"
    "\<And>mm. an_ok c (g mm)" "\<And>mm. an_entries (g mm) = es" "\<And>mm. data_capacity (g mm) = cap" "\<And>mm. an_model (g mm) = mm"
    "\<And>mm. filter (an_exists (g mm)) [0..<cap] = placed (lm_predict (fp c) mm) cap 0 (map fst es)"
proof -
  let ?post = "\<lambda>mm n'. load_items c right items (new_arrays c cap) (n\<lparr>an_model := mm\<rparr>) = Some n' \<and> an_ok c n' \<and> an_entries n' = es
    \<and> data_capacity n' = cap \<and> an_model n' = mm \<and> filter (an_exists n') [0..<cap] = placed (lm_predict (fp c) mm) cap 0 (map fst es)"
  have "\<exists>n'. ?post mm n'" for mm
  proof -
    have "\<exists>n'. load_items c right items (new_arrays c cap) (n\<lparr>an_model := mm\<rparr>) = Some n' \<and> an_ok c n' \<and> an_entries n' = es
      \<and> data_capacity n' = cap \<and> num_keys n' = num_keys (n\<lparr>an_model := mm\<rparr>) \<and> an_model n' = an_model (n\<lparr>an_model := mm\<rparr>)
      \<and> filter (an_exists n') [0..<cap] = placed (lm_predict (fp c) (an_model (n\<lparr>an_model := mm\<rparr>))) cap 0 (map fst es)"
      by (rule load_items_ok) (use assms in simp_all)
    moreover have "an_model (n\<lparr>an_model := mm\<rparr>) = mm" by simp
    ultimately show ?thesis by (elim exE conjE) (intro exI conjI, (simp only:)+)
  qed
  then have "\<forall>mm. \<exists>n'. ?post mm n'" by (rule allI)
  from choice [OF this] show thesis using that by blast
qed

lemma load_nothing_ok:
  assumes "fp_ok (fp c)"
  shows "an_ok c (load_nothing c ((an_initialize c 0 d n)\<lparr>an_model := m\<rparr>))"
    "an_entries (load_nothing c ((an_initialize c 0 d n)\<lparr>an_model := m\<rparr>)) = []"
proof -
  let ?cap = "new_capacity c 0 d" and ?n = "load_nothing c ((an_initialize c 0 d n)\<lparr>an_model := m\<rparr>)"
  have cap: "data_capacity ?n = ?cap" "length (payload_slots ?n) = ?cap" "bitmap ?n = replicate ((?cap + 63) div 64) 0" "num_keys ?n = 0"
    by (simp_all add: load_nothing_def an_initialize_def new_arrays_def)
  have slots: "\<forall>i<?cap. key_slots ?n ! i = kEndSentinel c" by (simp add: load_nothing_def an_initialize_def new_arrays_def)
  have clr: "\<not> check_exists (bitmap ?n) i" if "i < ?cap" for i
    using check_new bitmap_ok_fits [OF bitmap_ok_new that] unfolding cap by simp
  show e: "an_entries ?n = []" using clr cap by (simp add: ents_none)
  have "gap_rule (kEndSentinel c) (bitmap ?n) (key_slots ?n)" using slots cap by (simp add: gap_rule_def next_slot_def)
  moreover have "fle (fp c) (expansion_threshold ?n) (of_i (fp c) (int ?cap))"
    using assms by (simp add: fp_ok_def load_nothing_def an_initialize_def new_arrays_def)
  ultimately show "an_ok c ?n" unfolding an_ok_def arr_ok_def e
    using cap bitmap_ok_new [of ?cap] new_capacity_gt [of 0 c d] by simp
qed

text \<open>The fields that are not part of the invariant.\<close>

lemma an_ok_fields [simp]:
  "an_ok c (n\<lparr>min_key := x\<rparr>) = an_ok c n" "an_ok c (n\<lparr>max_key := x\<rparr>) = an_ok c n"
  "an_ok c (n\<lparr>num_resizes := i\<rparr>) = an_ok c n" "an_ok c (n\<lparr>num_inserts := i\<rparr>) = an_ok c n"
  "an_ok c (n\<lparr>num_lookups := i\<rparr>) = an_ok c n" "an_ok c (n\<lparr>num_exp_search_iterations := i\<rparr>) = an_ok c n"
  "an_ok c (n\<lparr>num_left_out_of_bounds_inserts := i\<rparr>) = an_ok c n" "an_ok c (n\<lparr>num_right_out_of_bounds_inserts := i\<rparr>) = an_ok c n"
  "an_ok c (n\<lparr>num_shifts := i\<rparr>) = an_ok c n" "an_ok c (n\<lparr>an_model := m\<rparr>) = an_ok c n"
  by (simp_all add: an_ok_def)

section \<open>Loading and resizing\<close>

lemma takeWhile_enumerate: "map snd (takeWhile (\<lambda>x. fst x < length xs) (enumerate 0 xs)) = xs"
proof -
  have "takeWhile (\<lambda>x. fst x < length xs) (enumerate 0 xs) = enumerate 0 xs"
    by (auto simp: takeWhile_eq_all_conv in_set_enumerate_eq)
  then show ?thesis by (simp only: map_snd_enumerate)
qed

theorem an_bulk_load_ok:
  assumes "fp_ok (fp c)" "loadable c xs"
  shows "\<exists>n'. an_bulk_load c xs m n = Some n' \<and> an_ok c n' \<and> an_entries n' = xs \<and> length xs < data_capacity n'
    \<and> (xs \<noteq> [] \<longrightarrow> data_capacity n' = new_capacity c (length xs) (kInitDensity c)
       \<and> an_model n' = lm_expand (fp c) (fdiv (dbl (fp c)) (of_i (fp c) (int (data_capacity n'))) (of_i (fp c) (int (length xs))))
           (case m of Some m \<Rightarrow> m | None \<Rightarrow> train c (map fst xs))
       \<and> filter (an_exists n') [0..<data_capacity n'] = placed (lm_predict (fp c) (an_model n')) (data_capacity n') 0 (map fst xs))"
proof (cases "xs = []")
  case True
  have "an_initialize c 0 d n = (an_initialize c 0 d n)\<lparr>an_model := an_model n\<rparr>" for d
    by (simp add: an_initialize_def split: prod.splits)
  then have "an_bulk_load c xs m n = Some (load_nothing c ((an_initialize c 0 (kInitDensity c) n)\<lparr>an_model := an_model n\<rparr>))"
    using True by (simp add: an_bulk_load_def)
  then show ?thesis using True load_nothing_ok [OF assms(1), where d = "kInitDensity c" and n = n and m = "an_model n"]
    by (auto simp: an_ok_def arr_ok_def)
next
  case False
  let ?n = "an_initialize c (length xs) (kInitDensity c) n" and ?cap = "new_capacity c (length xs) (kInitDensity c)"
  have init: "(key_slots ?n, payload_slots ?n, bitmap ?n) = new_arrays c ?cap" "num_keys ?n = length xs" "data_capacity ?n = ?cap"
    by (simp_all add: an_initialize_def new_arrays_def)
  have gt: "length xs < ?cap" by (rule new_capacity_gt)
  obtain g where "\<And>mm. load_items c (length xs) (enumerate 0 xs) (new_arrays c ?cap) (?n\<lparr>an_model := mm\<rparr>) = Some (g mm)"
    "\<And>mm. an_ok c (g mm)" "\<And>mm. an_entries (g mm) = xs" "\<And>mm. data_capacity (g mm) = ?cap" "\<And>mm. an_model (g mm) = mm"
    "\<And>mm. filter (an_exists (g mm)) [0..<?cap] = placed (lm_predict (fp c) mm) ?cap 0 (map fst xs)"
    by (rule load_items_models [of ?n ?cap "length xs" "enumerate 0 xs" xs c])
      (use assms init gt in \<open>simp_all add: takeWhile_enumerate\<close>)
  then show ?thesis using False gt unfolding an_bulk_load_def Let_def init(1,3) by simp
qed

lemma an_items_ok:
  assumes "an_ok c n" "left < data_capacity n"
  shows "an_items n left = Some (map (\<lambda>i. (i, key_slots n ! i, payload_slots n ! i)) (filter (an_exists n) [left..<data_capacity n]))"
proof -
  have ok: "bitmap_ok (bitmap n) (data_capacity n)" using assms(1) by (simp add: an_ok_def arr_ok_def)
  show ?thesis using an_items_spec [OF ok bitmap_ok_fits [OF ok assms(2)]] assms(2) by simp
qed

lemma takeWhile_slots:
  assumes "right \<le> cap"
  shows "takeWhile (\<lambda>x. fst x < right) (map (\<lambda>i. (i, f i)) (filter P [left..<cap])) = map (\<lambda>i. (i, f i)) (filter P [left..<right])"
proof -
  have "takeWhile (\<lambda>i. i < right) (filter P [left..<cap]) = filter P [left..<right]"
  proof (cases "left \<le> right")
    case True
    have "takeWhile (\<lambda>i. i < right) (filter P [left..<right] @ filter P [right..<cap])
        = filter P [left..<right] @ takeWhile (\<lambda>i. i < right) (filter P [right..<cap])"
      by (rule takeWhile_append2) auto
    moreover have "takeWhile (\<lambda>i. i < right) (filter P [right..<cap]) = []" by (auto simp: takeWhile_eq_Nil_iff dest!: hd_in_set)
    ultimately show ?thesis using upt_split [OF True assms] by simp
  next
    case False
    then show ?thesis by (auto simp: takeWhile_eq_Nil_iff dest!: hd_in_set)
  qed
  then show ?thesis by (simp add: takeWhile_map comp_def)
qed

lemma loadable_ents:
  assumes "loadable c (ents bm ks ps 0 cap)" "left \<le> right" "right \<le> cap"
  shows "loadable c (ents bm ks ps left right)"
proof -
  have "ents bm ks ps 0 cap = ents bm ks ps 0 left @ ents bm ks ps left right @ ents bm ks ps right cap"
    using ents_split [of 0 left cap bm ks ps] ents_split [of left right cap bm ks ps] assms(2,3) by simp
  then show ?thesis using assms(1) by (auto simp: loadable_def sorted_append sorted_wrt_append)
qed

theorem an_resize_ok:
  assumes "fp_ok (fp c)" "an_ok c n"
  shows "\<exists>n'. an_resize c d force keep_left keep_right n = Some n' \<and> an_ok c n' \<and> an_entries n' = an_entries n
    \<and> (num_keys n = 0 \<or> length (an_entries n') < data_capacity n')"
proof (cases "num_keys n = 0")
  case True
  then show ?thesis using assms(2) by (auto simp: an_resize_def)
next
  case False
  let ?items = "map (\<lambda>i. (i, key_slots n ! i, payload_slots n ! i)) (filter (an_exists n) [0..<data_capacity n])"
  let ?cap = "new_capacity c (num_keys n) d"
  have "0 < data_capacity n" using assms(2) by (simp add: an_ok_def arr_ok_def)
  then have it: "an_items n 0 = Some ?items" using an_items_ok assms(2) by blast
  have nk: "num_keys n = length (an_entries n)" using assms(2) by (simp add: an_ok_def)
  have es: "map snd (takeWhile (\<lambda>x. fst x < data_capacity n) ?items) = an_entries n"
    unfolding takeWhile_slots [OF order_refl] by (simp add: ents_def)
  obtain g where g: "\<And>mm. load_items c (data_capacity n) ?items (new_arrays c ?cap) (n\<lparr>an_model := mm\<rparr>) = Some (g mm)"
    "\<And>mm. an_ok c (g mm)" "\<And>mm. an_entries (g mm) = an_entries n" "\<And>mm. data_capacity (g mm) = ?cap"
    by (rule load_items_models [OF new_capacity_gt es nk an_ok_loadable [OF assms(2)] assms(1)]) blast
  obtain mm where "an_resize c d force keep_left keep_right n
      = load_items c (data_capacity n) ?items (new_arrays c ?cap) (n\<lparr>an_model := mm\<rparr>)"
    unfolding an_resize_def it Let_def if_not_P [OF False] option.case by blast
  then show ?thesis using g [of mm] nk new_capacity_gt [of "num_keys n" c d] by simp
qed

theorem bulk_load_from_existing_ok:
  assumes "fp_ok (fp c)" "an_ok c node" "left < data_capacity node" "left \<le> right" "right \<le> data_capacity node"
    and es: "es = ents (bitmap node) (key_slots node) (payload_slots node) left right"
    and pre: "case pre of None \<Rightarrow> True | Some (m, k) \<Rightarrow> k = length es"
  shows "\<exists>n'. bulk_load_from_existing c node left right keep_left keep_right pre n = Some n' \<and> an_ok c n' \<and> an_entries n' = es"
proof -
  let ?items = "map (\<lambda>i. (i, key_slots node ! i, payload_slots node ! i)) (filter (an_exists node) [left..<data_capacity node])"
  let ?cap = "new_capacity c (length es) (kMinDensity c)" and ?n = "an_initialize c (length es) (kMinDensity c) n"
  have it: "an_items node left = Some ?items" by (rule an_items_ok [OF assms(2,3)])
  have tw: "map snd (takeWhile (\<lambda>x. fst x < right) ?items) = es" "length (takeWhile (\<lambda>x. fst x < right) ?items) = length es"
    unfolding takeWhile_slots [OF assms(5)] es by (simp_all add: ents_def)
  obtain mm where mm: "(case pre of Some (m, k) \<Rightarrow> (m, k)
      | None \<Rightarrow> (train c (map (\<lambda>x. fst (snd x)) (takeWhile (\<lambda>x. fst x < right) ?items)), length (takeWhile (\<lambda>x. fst x < right) ?items)))
      = (mm, length es)" using pre tw(2) by (cases pre) auto
  have ld: "loadable c es" unfolding es using loadable_ents [OF an_ok_loadable [OF assms(2)] assms(4,5)] .
  have init: "(key_slots ?n, payload_slots ?n, bitmap ?n) = new_arrays c ?cap" "num_keys ?n = length es"
    by (simp_all add: an_initialize_def new_arrays_def)
  obtain g where g: "\<And>mm. load_items c right ?items (new_arrays c ?cap) (?n\<lparr>an_model := mm\<rparr>) = Some (g mm)"
    "\<And>mm. an_ok c (g mm)" "\<And>mm. an_entries (g mm) = es"
    by (rule load_items_models [of ?n ?cap right ?items es c]) (use init new_capacity_gt [of "length es" c] tw ld assms(1) in auto)
  show ?thesis
  proof (cases "es = []")
    case True
    have "bulk_load_from_existing c node left right keep_left keep_right pre n
        = Some (load_nothing c ((an_initialize c 0 (kMinDensity c) n)\<lparr>an_model := mm\<rparr>))"
    proof (cases "map_option snd pre = Some 0")
      case zero: True
      then have "fst (the pre) = mm" using mm by (cases pre) auto
      then show ?thesis using zero by (simp only: bulk_load_from_existing_def if_True simp_thms)
    next
      case False
      show ?thesis unfolding bulk_load_from_existing_def if_not_P [OF False] it option.case Let_def mm prod.case True by simp
    qed
    then show ?thesis using load_nothing_ok [OF assms(1), where d = "kMinDensity c" and n = n and m = mm] True by auto
  next
    case False
    then have "map_option snd pre \<noteq> Some 0" using pre by (auto split: option.splits)
    then show ?thesis using False g unfolding bulk_load_from_existing_def it Let_def option.case mm prod.case init(1)
      by simp
  qed
qed

end
