(* ===== verification/Alex_Insert.thy ===== *)
theory Alex_Insert
  imports Alex_Load
begin

text \<open>
  Lookup in and insertion into an ALEX data node: whatever the model predicts, a lookup finds a
  key exactly if it is stored, and an insertion puts the entry where the order wants it, shifting
  towards the closest gap if the place is taken.
\<close>

section \<open>Lookup\<close>

lemma an_ok_arr: "an_ok c n \<Longrightarrow> arr_ok (kEndSentinel c) (bitmap n) (key_slots n) (payload_slots n)"
  by (simp add: an_ok_def)

lemma an_ok_cap: "an_ok c n \<Longrightarrow> 0 < data_capacity n"
  by (simp add: an_ok_def arr_ok_def)

lemma an_upper_bound_ok:
  assumes "an_ok c n"
  obtains k where "an_upper_bound c n key = (n\<lparr>num_lookups := num_lookups n + 1, num_exp_search_iterations := k\<rparr>, rank_le key (key_slots n))"
  using exponential_upper [OF arr_sorted(1) [OF an_ok_arr [OF assms]] predict_in_range [OF an_ok_cap [OF assms]], of c key key]
  by (auto simp: an_upper_bound_def an_search_def)

lemma an_lower_bound_ok:
  assumes "an_ok c n"
  obtains k where "an_lower_bound c n key = (n\<lparr>num_lookups := num_lookups n + 1, num_exp_search_iterations := k\<rparr>, rank_less key (key_slots n))"
  using exponential_lower [OF arr_sorted(1) [OF an_ok_arr [OF assms]] predict_in_range [OF an_ok_cap [OF assms]], of c key key]
  by (auto simp: an_lower_bound_def an_search_def)

text \<open>The slot below the upper bound tells whether the key is there.\<close>

lemma rank_le_found:
  assumes ok: "arr_ok sent bm ks ps" and "key < sent"
  shows "0 < rank_le key ks \<and> ks ! (rank_le key ks - 1) = key \<longleftrightarrow> key \<in> fst ` set (ents bm ks ps 0 (length ks))"
proof
  let ?p = "rank_le key ks"
  assume f: "0 < ?p \<and> ks ! (?p - 1) = key"
  then have "check_exists bm (?p - 1)" "?p - 1 < length ks"
    using rank_le_filled [OF ok _ assms(2)] rank_le_le_length [of key ks] by auto
  with f show "key \<in> fst ` set (ents bm ks ps 0 (length ks))" by (auto simp: set_ents image_image intro!: image_eqI [of _ _ "?p - 1"])
next
  let ?p = "rank_le key ks"
  assume "key \<in> fst ` set (ents bm ks ps 0 (length ks))"
  then obtain i where i: "i < length ks" "ks ! i = key" by (auto simp: set_ents)
  have srt: "sorted ks" by (rule arr_sorted(1) [OF ok])
  have "i < ?p" using rank_le_above [OF srt, of key i] i by (cases "i < ?p") auto
  moreover have "key \<le> ks ! (?p - 1)"
    using sorted_nth_mono [OF srt, of i "?p - 1"] calculation rank_le_le_length [of key ks] i(2) by auto
  moreover have "ks ! (?p - 1) \<le> key" using rank_le_below [of "?p - 1" key ks] calculation(1) by simp
  ultimately show "0 < ?p \<and> ks ! (?p - 1) = key" by auto
qed

lemma find_key_ok:
  assumes "an_ok c n" "key < kEndSentinel c"
  obtains n' where "fst (find_key c n key) = n'" "an_ok c n'" "an_entries n' = an_entries n"
    "snd (find_key c n key) = None \<longleftrightarrow> key \<notin> fst ` set (an_entries n)"
    "\<And>p. snd (find_key c n key) = Some p \<Longrightarrow> p < data_capacity n \<and> an_exists n p \<and> key_slots n ! p = key"
proof -
  obtain k where ub: "an_upper_bound c n key = (n\<lparr>num_lookups := num_lookups n + 1, num_exp_search_iterations := k\<rparr>, rank_le key (key_slots n))"
    by (rule an_upper_bound_ok [OF assms(1)])
  note arr = an_ok_arr [OF assms(1)]
  show thesis
  proof (rule that)
    show "fst (find_key c n key) = n\<lparr>num_lookups := num_lookups n + 1, num_exp_search_iterations := k\<rparr>" by (simp add: find_key_def ub)
    show "snd (find_key c n key) = None \<longleftrightarrow> key \<notin> fst ` set (an_entries n)"
      using rank_le_found [OF arr assms(2)] by (auto simp: find_key_def ub)
    show "p < data_capacity n \<and> an_exists n p \<and> key_slots n ! p = key" if "snd (find_key c n key) = Some p" for p
      using that rank_le_filled [OF arr _ assms(2)] rank_le_le_length [of key "key_slots n"] by (auto simp: find_key_def ub split: if_splits)
  qed (use assms(1) in simp_all)
qed

section \<open>The place of an insertion\<close>

lemma gap_start_unique:
  assumes "gap_start bm p s" "s' \<le> p" "\<forall>j. s' \<le> j \<longrightarrow> j < p \<longrightarrow> \<not> check_exists bm j" "0 < s' \<longrightarrow> check_exists bm (s' - 1)"
  shows "s = s'"
proof -
  have "\<not> s < s'"
  proof
    assume "s < s'"
    then have "s \<le> s' - 1" "s' - 1 < p" "0 < s'" using assms(2) by auto
    then show False using assms(1,4) by (simp add: gap_start_def)
  qed
  moreover have "\<not> s' < s" using assms unfolding gap_start_def by auto
  ultimately show ?thesis by simp
qed

lemma insert_gap:
  assumes ok: "arr_ok sent bm ks ps" and "key < sent" and p: "p = rank_le key ks" and "p \<le> ip" "ip < length ks"
    and free: "\<forall>j. p \<le> j \<longrightarrow> j \<le> ip \<longrightarrow> \<not> check_exists bm j"
    and new: "bm' = set_bit_at bm ip" "ks' = fill_gaps bm' key ip (ks[ip := key])" "ps' = ps[ip := v]"
  shows "gap_rule sent bm' ks'" "ents bm' ks' ps' 0 (length ks) = ents bm ks ps 0 p @ (key, v) # ents bm ks ps p (length ks)"
    "bitmap_ok bm' (length ks)" "length ks' = length ks" "length ps' = length ks" "check_exists bm' ip" "ks' ! ip = key" "ps' ! ip = v"
proof -
  let ?cap = "length ks"
  note o = ok [unfolded arr_ok_def]
  show bok: "bitmap_ok bm' ?cap" using o assms(5) by (simp add: new bitmap_ok_set)
  show len: "length ks' = ?cap" "length ps' = ?cap" using o by (simp_all add: new)
  have ck: "check_exists bm' i \<longleftrightarrow> i = ip \<or> check_exists bm i" for i
    using bitmap_ok_fits [of bm ?cap ip] o assms(5) by (simp add: new)
  then show "check_exists bm' ip" by simp
  have below: "0 < p \<Longrightarrow> check_exists bm (p - 1)" using rank_le_filled [OF ok _ assms(2)] by (simp add: p)
  obtain s where s: "gap_start bm' ip s" "\<forall>i<?cap. ks' ! i = (if s \<le> i \<and> i < ip then key else ks[ip := key] ! i)"
    using fill_gaps_spec [of ip "ks[ip := key]" bm' key] assms(5) by (auto simp: new)
  have "s = p" by (rule gap_start_unique [OF s(1) assms(4)]) (use free below ck in auto)
  then have k: "i < ?cap \<Longrightarrow> ks' ! i = (if p \<le> i \<and> i \<le> ip then key else ks ! i)" for i
    using s(2) assms(4,5) by (auto simp: nth_list_update)
  then show "ks' ! ip = key" using assms(4,5) by simp
  show "ps' ! ip = v" using o assms(5) by (simp add: new)
  show "gap_rule sent bm' ks'" unfolding gap_rule_def len
  proof (intro allI impI)
    fix i assume i: "i < ?cap" "\<not> check_exists bm' i"
    then have "ks ! i = next_slot sent ks i" using o ck by (auto simp: gap_rule_def)
    moreover have "i + 1 \<noteq> p"
    proof
      assume "i + 1 = p"
      then show False using below i(2) ck [of i] by auto
    qed
    moreover have "i \<noteq> ip" using i(2) ck [of ip] by blast
    ultimately show "ks' ! i = next_slot sent ks' i" using k [of i] k [of "i + 1"] i(1) assms(5) len by (auto simp: next_slot_def)
  qed
  have "ents bm' ks' ps' 0 ?cap = ents bm' ks' ps' 0 p @ ents bm' ks' ps' p ip @ (ks' ! ip, ps' ! ip) # ents bm' ks' ps' (ip + 1) ?cap"
    using ents_split [of 0 p ?cap bm' ks' ps'] ents_split [of p ip ?cap bm' ks' ps'] ents_hd [of ip ?cap bm' ks' ps'] assms(4,5) ck by simp
  moreover have "ents bm' ks' ps' 0 p = ents bm ks ps 0 p" by (rule ents_cong) (use ck k assms(4,5) in \<open>auto simp: new\<close>)
  moreover have "ents bm' ks' ps' p ip = []" by (rule ents_none) (use ck free in auto)
  moreover have "ents bm' ks' ps' (ip + 1) ?cap = ents bm ks ps (ip + 1) ?cap" by (rule ents_cong) (use ck k in \<open>auto simp: new\<close>)
  moreover have "ents bm ks ps p ?cap = ents bm ks ps (ip + 1) ?cap"
    using ents_split [of p "ip + 1" ?cap bm ks ps] ents_none [of p "ip + 1" bm ks ps] free assms(4,5) by simp
  ultimately show "ents bm' ks' ps' 0 ?cap = ents bm ks ps 0 p @ (key, v) # ents bm ks ps p ?cap"
    using \<open>ks' ! ip = key\<close> \<open>ps' ! ip = v\<close> by simp
qed

lemma fill_gaps_stop: "0 < p \<longrightarrow> check_exists bm (p - 1) \<Longrightarrow> fill_gaps bm key p ks = ks"
  by (cases p) auto

lemma insert_right:
  assumes ok: "arr_ok sent bm ks ps" and "key < sent" and p: "p = rank_le key ks" and "p \<le> g" "g < length ks"
    and gap: "\<not> check_exists bm g" "\<forall>j. p \<le> j \<longrightarrow> j < g \<longrightarrow> check_exists bm j"
    and new: "bm' = set_bit_at (set_bit_at bm g) p" "ks' = fill_gaps bm' key p ((shift_up p g ks)[p := key])"
      "ps' = (shift_up p g ps)[p := v]"
  shows "gap_rule sent bm' ks'" "ents bm' ks' ps' 0 (length ks) = ents bm ks ps 0 p @ (key, v) # ents bm ks ps p (length ks)"
    "bitmap_ok bm' (length ks)" "length ks' = length ks" "length ps' = length ks" "check_exists bm' p" "ks' ! p = key" "ps' ! p = v"
proof -
  let ?cap = "length ks"
  note o = ok [unfolded arr_ok_def]
  have pc: "p < ?cap" using assms(4,5) by simp
  show bok: "bitmap_ok bm' ?cap" using o assms(5) pc by (simp add: new bitmap_ok_set)
  have ck: "check_exists bm' i \<longleftrightarrow> i = p \<or> i = g \<or> check_exists bm i" for i
    using bitmap_ok_fits [of bm ?cap g] bitmap_ok_fits [of bm ?cap p] o assms(5) pc by (simp add: new)
  then show "check_exists bm' p" by simp
  have below: "0 < p \<Longrightarrow> check_exists bm (p - 1)" using rank_le_filled [OF ok _ assms(2)] by (simp add: p)
  have ks': "ks' = (shift_up p g ks)[p := key]" unfolding new(2) by (rule fill_gaps_stop) (use below ck in auto)
  show len: "length ks' = ?cap" "length ps' = ?cap" using o by (simp_all add: new(3) ks')
  have k: "ks' ! i = (if i = p then key else if p < i \<and> i \<le> g then ks ! (i - 1) else ks ! i)" if "i < ?cap" for i
    using that assms(5) by (simp add: ks' nth_shift_up nth_list_update)
  have v: "ps' ! i = (if i = p then v else if p < i \<and> i \<le> g then ps ! (i - 1) else ps ! i)" if "i < ?cap" for i
    using that assms(5) o by (simp add: new(3) nth_shift_up nth_list_update)
  show kp: "ks' ! p = key" and vp: "ps' ! p = v" using k v pc by simp_all
  show "gap_rule sent bm' ks'" unfolding gap_rule_def len
  proof (intro allI impI)
    fix i assume i: "i < ?cap" "\<not> check_exists bm' i"
    then have "ks ! i = next_slot sent ks i" using o ck by (auto simp: gap_rule_def)
    moreover have "i + 1 \<noteq> p" "i < p \<or> g < i" using i ck below gap(2) by (auto simp: not_less[symmetric])
    ultimately show "ks' ! i = next_slot sent ks' i" using k [of i] k [of "i + 1"] i(1) assms(4,5) len by (auto simp: next_slot_def)
  qed
  have "ents bm' ks' ps' 0 ?cap = ents bm' ks' ps' 0 p @ (ks' ! p, ps' ! p) # ents bm' ks' ps' (p + 1) (g + 1) @ ents bm' ks' ps' (g + 1) ?cap"
    using ents_split [of 0 p ?cap bm' ks' ps'] ents_split [of "p + 1" "g + 1" ?cap bm' ks' ps'] ents_hd [of p ?cap bm' ks' ps'] assms(4,5) ck by simp
  moreover have "ents bm' ks' ps' 0 p = ents bm ks ps 0 p" by (rule ents_cong) (use ck k v assms(4,5) in auto)
  moreover have "ents bm ks ps p g = ents bm' ks' ps' (p + 1) (g + 1)" 
  proof (rule ents_shift)
    fix i assume i: "p \<le> i" "i < g"
    then have "check_exists bm i" using gap(2) by simp
    moreover have "i + 1 = g \<or> check_exists bm (i + 1)" using gap(2) i by (cases "i + 1 = g") auto
    ultimately show "check_exists bm i = check_exists bm' (i + 1)" using ck by blast
  qed (use k v assms(5) in auto)
  moreover have "ents bm' ks' ps' (g + 1) ?cap = ents bm ks ps (g + 1) ?cap" by (rule ents_cong) (use ck k v assms(4) in auto)
  moreover have "ents bm ks ps p ?cap = ents bm ks ps p g @ ents bm ks ps (g + 1) ?cap"
    using ents_split [of p g ?cap bm ks ps] ents_split [of g "g + 1" ?cap bm ks ps] ents_gap [OF gap(1), of ks ps] assms(4,5) by simp
  ultimately show "ents bm' ks' ps' 0 ?cap = ents bm ks ps 0 p @ (key, v) # ents bm ks ps p ?cap" using kp vp by simp
qed

lemma insert_left:
  assumes ok: "arr_ok sent bm ks ps" and "key < sent" and p: "p = rank_le key ks" and "g < p"
    and gap: "\<not> check_exists bm g" "\<forall>j. g < j \<longrightarrow> j < p \<longrightarrow> check_exists bm j"
    and new: "bm' = set_bit_at (set_bit_at bm g) (p - 1)" "ks' = fill_gaps bm' key (p - 1) ((shift_down g (p - 1) ks)[p - 1 := key])"
      "ps' = (shift_down g (p - 1) ps)[p - 1 := v]"
  shows "gap_rule sent bm' ks'" "ents bm' ks' ps' 0 (length ks) = ents bm ks ps 0 p @ (key, v) # ents bm ks ps p (length ks)"
    "bitmap_ok bm' (length ks)" "length ks' = length ks" "length ps' = length ks" "check_exists bm' (p - 1)" "ks' ! (p - 1) = key" "ps' ! (p - 1) = v"
proof -
  let ?cap = "length ks"
  note o = ok [unfolded arr_ok_def]
  have "p \<le> ?cap" unfolding p by (rule rank_le_le_length)
  then have pc: "p - 1 < ?cap" "g < ?cap" using assms(4) by simp_all
  have below: "check_exists bm (p - 1)" using rank_le_filled [OF ok _ assms(2)] assms(4) by (simp add: p)
  have g: "g + 1 < p" using below gap(1) assms(4) by (cases "g = p - 1") auto
  show bok: "bitmap_ok bm' ?cap" using o pc by (simp add: new bitmap_ok_set)
  have ck: "check_exists bm' i \<longleftrightarrow> i = g \<or> check_exists bm i" for i
    using bitmap_ok_fits [of bm ?cap g] bitmap_ok_fits [of bm ?cap "p - 1"] o pc below by (auto simp: new)
  show "check_exists bm' (p - 1)" using ck below by simp
  have ks': "ks' = (shift_down g (p - 1) ks)[p - 1 := key]" unfolding new(2)
  proof (rule fill_gaps_stop, intro impI)
    have "p - 1 - 1 = g \<or> g < p - 1 - 1 \<and> p - 1 - 1 < p" using g by auto
    then show "check_exists bm' (p - 1 - 1)" using ck gap(2) by metis
  qed
  show len: "length ks' = ?cap" "length ps' = ?cap" using o by (simp_all add: new(3) ks')
  have k: "ks' ! i = (if i = p - 1 then key else if g \<le> i \<and> i < p - 1 then ks ! (i + 1) else ks ! i)" if "i < ?cap" for i
    using that pc by (simp add: ks' nth_shift_down nth_list_update)
  have v: "ps' ! i = (if i = p - 1 then v else if g \<le> i \<and> i < p - 1 then ps ! (i + 1) else ps ! i)" if "i < ?cap" for i
    using that pc o by (simp add: new(3) nth_shift_down nth_list_update)
  show kp: "ks' ! (p - 1) = key" and vp: "ps' ! (p - 1) = v" using k v pc by simp_all
  have kg: "ks ! g = ks ! (g + 1)" using o gap(1) pc g \<open>p \<le> ?cap\<close> by (auto simp: gap_rule_def next_slot_def)
  show "gap_rule sent bm' ks'" unfolding gap_rule_def len
  proof (intro allI impI)
    fix i assume i: "i < ?cap" "\<not> check_exists bm' i"
    then have "ks ! i = next_slot sent ks i" using o ck by (auto simp: gap_rule_def)
    moreover have "i < g \<or> p \<le> i" using i ck gap(2) by (metis linorder_neqE_nat not_le)
    ultimately show "ks' ! i = next_slot sent ks' i"
      using k [of i] k [of "i + 1"] i(1) len kg g \<open>p \<le> ?cap\<close> by (cases "i + 1 = g") (auto simp: next_slot_def)
  qed
  have "ents bm' ks' ps' 0 ?cap = ents bm' ks' ps' 0 g @ ents bm' ks' ps' g (p - 1) @ (ks' ! (p - 1), ps' ! (p - 1)) # ents bm' ks' ps' p ?cap"
    using ents_split [of 0 g ?cap bm' ks' ps'] ents_split [of g "p - 1" ?cap bm' ks' ps'] ents_hd [of "p - 1" ?cap bm' ks' ps'] assms(4) pc ck below g by simp
  moreover have "ents bm' ks' ps' 0 g = ents bm ks ps 0 g" by (rule ents_cong) (use ck k v pc g in auto)
  moreover have "ents bm' ks' ps' g (p - 1) = ents bm ks ps (g + 1) (p - 1 + 1)"
  proof (rule ents_shift)
    fix i assume i: "g \<le> i" "i < p - 1"
    then have "check_exists bm (i + 1)" using gap(2) by simp
    moreover have "i = g \<or> check_exists bm i" using gap(2) i by (cases "i = g") auto
    ultimately show "check_exists bm' i = check_exists bm (i + 1)" using ck by blast
  qed (use k v pc in auto)
  moreover have "ents bm' ks' ps' p ?cap = ents bm ks ps p ?cap" by (rule ents_cong) (use ck k v assms(4) in auto)
  moreover have "ents bm ks ps 0 p = ents bm ks ps 0 g @ ents bm ks ps (g + 1) p"
    using ents_split [of 0 g p bm ks ps] ents_split [of g "g + 1" p bm ks ps] ents_gap [OF gap(1), of ks ps] assms(4) by simp
  ultimately show "ents bm' ks' ps' 0 ?cap = ents bm ks ps 0 p @ (key, v) # ents bm ks ps p ?cap" using kp vp g by simp
qed

section \<open>Insertion into a node\<close>

lemma find_insert_position_ok:
  assumes ok: "an_ok c n" and p: "p = rank_le key (key_slots n)"
  obtains k ip where "find_insert_position c n key = Some (n\<lparr>num_exp_search_iterations := k\<rparr>, ip, p)" "p \<le> ip"
    "ip = p \<or> ip < data_capacity n \<and> (\<forall>j. p \<le> j \<longrightarrow> j \<le> ip \<longrightarrow> \<not> an_exists n j)"
proof -
  let ?pp = "predict_position c n key"
  have pp: "?pp < data_capacity n" by (rule predict_in_range [OF an_ok_cap [OF ok]])
  define k where "k = num_exp_search_iterations n + snd (exponential_search_upper_bound (key_slots n) ?pp key)"
  have s: "an_search False (exponential_search_upper_bound (key_slots n) ?pp key) n = (n\<lparr>num_exp_search_iterations := k\<rparr>, p)"
    using exponential_upper [OF arr_sorted(1) [OF an_ok_arr [OF ok]] pp, of key] by (simp add: an_search_def k_def p)
  show thesis
  proof (cases "?pp \<le> p \<or> an_exists n p")
    case True
    then have "find_insert_position c n key = Some (n\<lparr>num_exp_search_iterations := k\<rparr>, p, p)"
      by (simp add: find_insert_position_def s Let_def)
    then show thesis using that by blast
  next
    case False
    then have lt: "p < ?pp" "p < data_capacity n" "\<not> an_exists n p" using pp by auto
    obtain q where q: "get_next_filled_position (bitmap n) (data_capacity n) p True = Some q"
      "next_flag (an_exists n) (data_capacity n) (p + 1) q"
      using get_next_filled_after [OF _ lt(2)] ok by (auto simp: an_ok_def arr_ok_def)
    have "find_insert_position c n key = Some (n\<lparr>num_exp_search_iterations := k\<rparr>, min ?pp (q - 1), p)"
      using False by (simp add: find_insert_position_def s Let_def q(1))
    moreover have "\<not> an_exists n j" if "p \<le> j" "j \<le> min ?pp (q - 1)" for j
      using q(2) that lt(3) by (cases "j = p") (auto simp: next_flag_def)
    moreover have "p \<le> min ?pp (q - 1)" using q(2) lt(1) by (auto simp: next_flag_def)
    ultimately show thesis using that pp by (metis min.strict_coboundedI1)
  qed
qed

text \<open>The arrays after an insertion, in all three cases.\<close>

definition inserted :: "('k, 'v, 'd) anode \<Rightarrow> 'k::linorder \<Rightarrow> 'v \<Rightarrow> ('k, 'v, 'd) acfg \<Rightarrow> ('k, 'v, 'd) anode \<Rightarrow> nat \<Rightarrow> bool" where
  "inserted n key v c n' q \<longleftrightarrow> gap_rule (kEndSentinel c) (bitmap n') (key_slots n') \<and> bitmap_ok (bitmap n') (data_capacity n)
     \<and> data_capacity n' = data_capacity n \<and> length (payload_slots n') = data_capacity n
     \<and> q < data_capacity n \<and> an_exists n' q \<and> key_slots n' ! q = key \<and> payload_slots n' ! q = v
     \<and> (let p = rank_le key (key_slots n) in
        ents (bitmap n') (key_slots n') (payload_slots n') 0 (data_capacity n)
          = ents (bitmap n) (key_slots n) (payload_slots n) 0 p @ (key, v)
            # ents (bitmap n) (key_slots n) (payload_slots n) p (data_capacity n))
     \<and> num_keys n' = num_keys n \<and> expansion_threshold n' = expansion_threshold n"

lemma insert_element_inserted:
  assumes "an_ok c n" "key < kEndSentinel c" "rank_le key (key_slots n) \<le> ip" "ip < data_capacity n"
    and "\<forall>j. rank_le key (key_slots n) \<le> j \<longrightarrow> j \<le> ip \<longrightarrow> \<not> an_exists n j"
  shows "inserted n key v c (insert_element_at key v ip n) ip"
  using insert_gap [where v = v, OF an_ok_arr [OF assms(1)] assms(2) refl assms(3,4,5) refl refl refl]
  assms(4) by (simp add: inserted_def insert_element_at_def Let_def)

lemma some_gap:
  assumes "an_ok c n" "num_keys n < data_capacity n"
  obtains j where "j < data_capacity n" "\<not> an_exists n j"
proof -
  have "\<exists>j<data_capacity n. \<not> an_exists n j"
  proof (rule ccontr)
    assume "\<not> ?thesis"
    then have "length (an_entries n) = data_capacity n" by (subst length_ents_full) auto
    then show False using assms by (simp add: an_ok_def)
  qed
  then show thesis using that by blast
qed

lemma insert_shifts_inserted:
  assumes ok: "an_ok c n" and "key < kEndSentinel c" "num_keys n < data_capacity n"
    and p: "p = rank_le key (key_slots n)"
  obtains n' q where "insert_using_shifts key v p n = Some (n', q)" "inserted n key v c n' q"
proof -
  let ?cap = "data_capacity n" and ?bm = "bitmap n"
  obtain j where j: "j < ?cap" "\<not> an_exists n j" by (rule some_gap [OF ok assms(3)])
  have "bitmap_ok ?bm ?cap" using ok by (simp add: an_ok_def arr_ok_def)
  from closest_gap_spec [OF this j, of p] obtain g where g: "closest_gap ?bm ?cap p = int g" "g < ?cap" "\<not> check_exists ?bm g"
    "\<forall>j. min p (?cap - 1) \<le> j \<and> j < g \<or> g < j \<and> j \<le> min p (?cap - 1) \<longrightarrow> check_exists ?bm j"
    by (rule gap_okE)
  note arr = an_ok_arr [OF ok]
  show thesis
  proof (cases "p \<le> g")
    case True
    have pg: "p < data_capacity n" using True g(2) by simp
    have "\<forall>j. p \<le> j \<longrightarrow> j < g \<longrightarrow> check_exists ?bm j" using g True by auto
    note r = insert_right [where v = v, OF arr assms(2) p True g(2,3) this refl refl refl]
    show thesis using r True g(1) pg unfolding p
      by (intro that [of "insert_element_at key v p (n\<lparr>bitmap := set_bit_at ?bm g, key_slots := shift_up p g (key_slots n),
          payload_slots := shift_up p g (payload_slots n), num_shifts := num_shifts n + (g - p)\<rparr>)" p])
        (simp_all add: insert_using_shifts_def inserted_def insert_element_at_def Let_def p)
  next
    case False
    then have lt: "g < p" by simp
    have pg: "p - 1 < data_capacity n" using lt rank_le_le_length [of key "key_slots n"] by (simp add: p)
    have "\<forall>j. g < j \<longrightarrow> j < p \<longrightarrow> check_exists ?bm j" using g(4) rank_le_le_length [of key "key_slots n"] by (auto simp: p)
    note r = insert_left [where v = v, OF arr assms(2) p lt g(3) this refl refl refl]
    show thesis using r lt g(1) pg unfolding p
      by (intro that [of "insert_element_at key v (p - 1) (n\<lparr>bitmap := set_bit_at ?bm g, key_slots := shift_down g (p - 1) (key_slots n),
          payload_slots := shift_down g (p - 1) (payload_slots n), num_shifts := num_shifts n + (p - g - 1)\<rparr>)" "p - 1"])
        (simp_all add: insert_using_shifts_def inserted_def insert_element_at_def Let_def p)
  qed
qed

lemma note_insert_simps [simp]:
  "key_slots (note_insert key n) = key_slots n" "payload_slots (note_insert key n) = payload_slots n"
  "bitmap (note_insert key n) = bitmap n" "num_keys (note_insert key n) = num_keys n + 1"
  "expansion_threshold (note_insert key n) = expansion_threshold n"
  by (simp_all add: note_insert_def Let_def)

text \<open>What a caller can rely on after an insertion that returned the flag and position.\<close>

definition insert_done :: "('k::linorder, 'v, 'd) acfg \<Rightarrow> 'k \<Rightarrow> 'v \<Rightarrow> ('k, 'v, 'd) anode \<Rightarrow> ('k, 'v, 'd) anode \<Rightarrow> nat \<Rightarrow> bool" where
  "insert_done c key v n n' q \<longleftrightarrow> (\<exists>xs ys. an_entries n = xs @ ys \<and> (\<forall>x\<in>set xs. fst x \<le> key) \<and> (\<forall>y\<in>set ys. key < fst y)
       \<and> an_entries n' = xs @ (key, v) # ys)
     \<and> q < data_capacity n' \<and> an_exists n' q \<and> key_slots n' ! q = key \<and> payload_slots n' ! q = v"

lemma inserted_done:
  assumes ok: "an_ok c n" and "key < kEndSentinel c" and ins: "inserted n key v c n' q"
    and uniq: "adup c \<or> key \<notin> fst ` set (an_entries n)"
  shows "an_ok c (note_insert key n')" "insert_done c key v n (note_insert key n') q"
proof -
  note o = ok [unfolded an_ok_def arr_ok_def] and i = ins [unfolded inserted_def Let_def]
  note r = ents_rank_le [OF an_ok_arr [OF ok] refl, of key]
  let ?xs = "ents (bitmap n) (key_slots n) (payload_slots n) 0 (rank_le key (key_slots n))"
  let ?ys = "ents (bitmap n) (key_slots n) (payload_slots n) (rank_le key (key_slots n)) (data_capacity n)"
  have e: "an_entries n' = ?xs @ (key, v) # ?ys" using i by simp
  have "sorted (map fst (?xs @ (key, v) # ?ys))" "length (?xs @ (key, v) # ?ys) = num_keys n + 1"
    "\<forall>x\<in>set (?xs @ (key, v) # ?ys). fst x < kEndSentinel c"
    using o r assms(2) by (auto simp: sorted_append)
  moreover have "adup c \<or> skeys (?xs @ (key, v) # ?ys)"
  proof (cases "adup c")
    case False
    then have "skeys (?xs @ ?ys)" "\<forall>x\<in>set ?xs. fst x < key" using o r uniq by (auto simp: le_less)
    from skeys_insert [OF this r(3)] show ?thesis by simp
  qed simp
  ultimately show "an_ok c (note_insert key n')"
    using o i e by (simp add: an_ok_def arr_ok_def del: length_append)
  show "insert_done c key v n (note_insert key n') q"
    unfolding insert_done_def using r e i by auto
qed

lemma an_insert_into_ok:
  assumes ok: "an_ok c n" and "key < kEndSentinel c" "num_keys n < data_capacity n"
  shows "\<exists>n' fl q. an_insert_into c key v n = Some (n', fl, int q) \<and> an_ok c n'
    \<and> (if \<not> adup c \<and> key \<in> fst ` set (an_entries n)
       then fl = -1 \<and> an_entries n' = an_entries n \<and> q < data_capacity n' \<and> an_exists n' q \<and> key_slots n' ! q = key
       else fl = 0 \<and> insert_done c key v n n' q)"
proof -
  let ?p = "rank_le key (key_slots n)"
  obtain k ip where f: "find_insert_position c n key = Some (n\<lparr>num_exp_search_iterations := k\<rparr>, ip, ?p)" "?p \<le> ip"
    "ip = ?p \<or> ip < data_capacity n \<and> (\<forall>j. ?p \<le> j \<longrightarrow> j \<le> ip \<longrightarrow> \<not> an_exists n j)"
    by (rule find_insert_position_ok [OF ok refl])
  define n1 where "n1 = n\<lparr>num_exp_search_iterations := k\<rparr>"
  have n1: "an_ok c n1" "an_entries n1 = an_entries n" "key_slots n1 = key_slots n" "bitmap n1 = bitmap n" "num_keys n1 = num_keys n"
    using ok by (simp_all add: n1_def)
  note found = rank_le_found [OF an_ok_arr [OF ok] assms(2)]
  have dn: "insert_done c key v n n' q" if "insert_done c key v n1 n' q" for n' q using that n1 by (simp add: insert_done_def)
  show ?thesis
  proof (cases "\<not> adup c \<and> key \<in> fst ` set (an_entries n)")
    case True
    then have "0 < ?p" "key_slots n ! (?p - 1) = key" using found by auto
    moreover have "an_exists n (?p - 1)" using rank_le_filled [OF an_ok_arr [OF ok] calculation(1) assms(2)] .
    moreover have "?p - 1 < data_capacity n" using calculation(1) rank_le_le_length [of key "key_slots n"] by linarith
    ultimately show ?thesis using True f(1) ok n1(1)
      by (intro exI [of _ n1] exI [of _ "-1"] exI [of _ "?p - 1"]) (auto simp: an_insert_into_def n1_def of_nat_diff)
  next
    case new: False
    then have uniq: "adup c \<or> key \<notin> fst ` set (an_entries n1)" using n1 by auto
    have nodup: "\<not> (\<not> adup c \<and> 0 < ?p \<and> akey_equal (key_slots n ! (?p - 1)) key)" using new found by auto
    show ?thesis
    proof (cases "ip < data_capacity n \<and> \<not> an_exists n ip")
      case True
      have "\<forall>j. ?p \<le> j \<longrightarrow> j \<le> ip \<longrightarrow> \<not> an_exists n j" using f(3) True by auto
      then have "inserted n1 key v c (insert_element_at key v ip n1) ip"
        using True f(2) n1 by (intro insert_element_inserted assms(2)) auto
      from inserted_done [OF n1(1) assms(2) this uniq] show ?thesis
        using True f(1) new nodup n1 dn by (auto simp: an_insert_into_def n1_def [symmetric])
    next
      case False
      then have ip: "ip = ?p" using f(2,3) by auto
      obtain n' q where s: "insert_using_shifts key v ip n1 = Some (n', q)" "inserted n1 key v c n' q"
        by (rule insert_shifts_inserted [OF n1(1) assms(2), of ip v]) (use assms(3) n1 ip in auto)
      from inserted_done [OF n1(1) assms(2) s(2) uniq] show ?thesis
        using False f(1) new nodup n1 dn s(1) by (auto simp: an_insert_into_def n1_def [symmetric])
    qed
  qed
qed

lemma an_insert_cases:
  obtains (stop) fl where "fl \<in> {1, 2, 3}" "an_insert c key v n = Some (n, fl, -1)"
  | (plain) "\<not> fle (fp c) (expansion_threshold n) (of_i (fp c) (int (num_keys n)))" "an_insert c key v n = an_insert_into c key v n"
  | (grow) r1 r2 where "an_insert c key v n = (case an_resize c (kMinDensity c) False r1 r2 n of None \<Rightarrow> None
       | Some n \<Rightarrow> an_insert_into c key v (n\<lparr>num_resizes := num_resizes n + 1\<rparr>))"
proof -
  note d = an_insert_def [of c key v n, unfolded Let_def]
  consider "num_inserts n mod 64 = 0 \<and> catastrophic_cost c n"
    | "\<not> (num_inserts n mod 64 = 0 \<and> catastrophic_cost c n)" "\<not> fle (fp c) (expansion_threshold n) (of_i (fp c) (int (num_keys n)))"
    | "\<not> (num_inserts n mod 64 = 0 \<and> catastrophic_cost c n)" "fle (fp c) (expansion_threshold n) (of_i (fp c) (int (num_keys n)))"
    by blast
  then show thesis
  proof cases
    case 1
    then show thesis using stop [of 2] d by simp
  next
    case 2
    show thesis by (rule plain [OF 2(2) d [unfolded if_not_P [OF 2(1)] if_not_P [OF 2(2)]]])
  next
    case 3
    note d' = d [unfolded if_not_P [OF 3(1)] if_P [OF 3(2)]]
    show thesis
      by (cases "significant_cost_deviation c n"; cases "catastrophic_cost c n";
          cases "flt (fp c) (fmul (dbl (fp c)) (of_i (fp c) (int (max_slots n))) (kMinDensity c)) (of_i (fp c) (int (num_keys n)))")
        (use d' stop [of 1] stop [of 2] stop [of 3] grow in simp_all)
  qed
qed

theorem an_insert_ok:
  assumes fp: "fp_ok (fp c)" and ok: "an_ok c n" and "key < kEndSentinel c"
  shows "\<exists>n' fl q. an_insert c key v n = Some (n', fl, q) \<and> an_ok c n'
    \<and> (fl \<in> {1, 2, 3} \<and> n' = n \<and> q = -1
     \<or> fl = -1 \<and> \<not> adup c \<and> key \<in> fst ` set (an_entries n) \<and> an_entries n' = an_entries n
         \<and> 0 \<le> q \<and> nat q < data_capacity n' \<and> an_exists n' (nat q) \<and> key_slots n' ! nat q = key
     \<or> fl = 0 \<and> (adup c \<or> key \<notin> fst ` set (an_entries n)) \<and> 0 \<le> q \<and> insert_done c key v n n' (nat q))"
proof -
  have into: "\<exists>n' fl q. an_insert_into c key v m = Some (n', fl, q) \<and> an_ok c n'
    \<and> (fl = -1 \<and> \<not> adup c \<and> key \<in> fst ` set (an_entries n) \<and> an_entries n' = an_entries n
         \<and> 0 \<le> q \<and> nat q < data_capacity n' \<and> an_exists n' (nat q) \<and> key_slots n' ! nat q = key
     \<or> fl = 0 \<and> (adup c \<or> key \<notin> fst ` set (an_entries n)) \<and> 0 \<le> q \<and> insert_done c key v n n' (nat q))"
    if m: "an_ok c m" "an_entries m = an_entries n" "num_keys m < data_capacity m" for m
  proof -
    obtain n' fl q where "an_insert_into c key v m = Some (n', fl, int q)" "an_ok c n'"
      "if \<not> adup c \<and> key \<in> fst ` set (an_entries m)
       then fl = -1 \<and> an_entries n' = an_entries m \<and> q < data_capacity n' \<and> an_exists n' q \<and> key_slots n' ! q = key
       else fl = 0 \<and> insert_done c key v m n' q" using an_insert_into_ok [OF m(1) assms(3) m(3), of v] by blast
    then show ?thesis using m(2) by (intro exI [of _ n'] exI [of _ fl] exI [of _ "int q"]) (auto simp: insert_done_def split: if_splits)
  qed
  show ?thesis
  proof (cases rule: an_insert_cases [of c key v n])
    case stop
    then show ?thesis using ok by auto
  next
    case plain
    have "num_keys n \<le> data_capacity n" using ok length_ents [of "bitmap n" "key_slots n" "payload_slots n" 0] by (simp add: an_ok_def)
    moreover have "num_keys n \<noteq> data_capacity n" using plain(1) ok by (auto simp: an_ok_def)
    ultimately show ?thesis using into [OF ok refl] plain(2) by auto
  next
    case (grow r1 r2)
    obtain m where m: "an_resize c (kMinDensity c) False r1 r2 n = Some m" "an_ok c m" "an_entries m = an_entries n"
      "num_keys n = 0 \<or> length (an_entries m) < data_capacity m"
      using an_resize_ok [OF fp ok] by blast
    have "num_keys m < data_capacity m" using m ok an_ok_cap [OF m(2)] by (auto simp: an_ok_def)
    then show ?thesis using into [of "m\<lparr>num_resizes := num_resizes m + 1\<rparr>"] m grow by auto
  qed
qed

text \<open>The flags 1 to 3 have their reasons.\<close>

lemma an_insert_into_flag: "an_insert_into c key v n = Some (n', fl, q) \<Longrightarrow> fl \<in> {0, -1}"
  by (auto simp: an_insert_into_def split: option.splits prod.splits if_splits)

lemma an_insert_accepts:
  assumes "\<not> catastrophic_cost c n"
    and "fle (fp c) (expansion_threshold n) (of_i (fp c) (int (num_keys n))) \<Longrightarrow> \<not> significant_cost_deviation c n
      \<and> \<not> flt (fp c) (fmul (dbl (fp c)) (of_i (fp c) (int (max_slots n))) (kMinDensity c)) (of_i (fp c) (int (num_keys n)))"
    and "an_insert c key v n = Some (n', fl, q)"
  shows "fl \<notin> {1, 2, 3}"
proof -
  obtain m where "an_insert_into c key v m = Some (n', fl, q)"
  proof (cases "fle (fp c) (expansion_threshold n) (of_i (fp c) (int (num_keys n)))")
    case True
    then show thesis using assms that by (simp add: an_insert_def Let_def split: option.splits)
  next
    case False
    then show thesis using assms(1,3) that by (simp add: an_insert_def Let_def)
  qed
  then show ?thesis using an_insert_into_flag by fastforce
qed

end
