(* ===== verification/Alex_Erase.thy ===== *)
theory Alex_Erase
  imports Alex_Insert
begin

text \<open>
  Deletion from an ALEX data node: one entry, all entries of a key and the entries of a range,
  with the contraction of a node that has become too empty.
\<close>

lemma contract_ok:
  assumes "fp_ok (fp c)" "an_ok c n"
  shows "\<exists>n'. contract c n = Some n' \<and> an_ok c n' \<and> an_entries n' = an_entries n"
  using an_resize_ok [OF assms, of "kMaxDensity c" False False False] assms(2)
  by (auto simp: contract_def Let_def)

text \<open>A node whose arrays lost some entries, before the contraction.\<close>

lemma an_ok_removed:
  assumes ok: "an_ok c n" and n': "n' = n\<lparr>key_slots := ks, bitmap := bm, num_keys := k\<rparr>"
    and "length ks = data_capacity n" "bitmap_ok bm (data_capacity n)" "gap_rule (kEndSentinel c) bm ks"
    and e: "an_entries n = xs @ es @ ys" "ents bm ks (payload_slots n) 0 (data_capacity n) = xs @ ys" "k = num_keys n - length es"
  shows "an_ok c n'" "an_entries n' = xs @ ys"
proof -
  note o = ok [unfolded an_ok_def arr_ok_def]
  show en: "an_entries n' = xs @ ys" using assms(3) e(2) by (simp add: n')
  have "sorted (map fst (xs @ ys))" "\<forall>x\<in>set (xs @ ys). fst x < kEndSentinel c" "k = length (xs @ ys)"
    using o e(3) unfolding e(1) by (auto simp: sorted_append)
  moreover have "adup c \<or> skeys (xs @ ys)" using o unfolding e(1) skeys_append set_append ball_Un by blast
  ultimately show "an_ok c n'" using o assms(3,4,5) en unfolding n' by (simp add: an_ok_def arr_ok_def del: length_append)
qed

section \<open>Erasing one position\<close>

lemma erase_one_at_ok:
  assumes fp: "fp_ok (fp c)" and ok: "an_ok c n" and pos: "pos < data_capacity n" "an_exists n pos"
  shows "\<exists>n'. erase_one_at c pos n = Some n' \<and> an_ok c n'
    \<and> an_entries n' = ents (bitmap n) (key_slots n) (payload_slots n) 0 pos @ ents (bitmap n) (key_slots n) (payload_slots n) (pos + 1) (data_capacity n)"
proof -
  let ?cap = "data_capacity n" and ?ks = "key_slots n" and ?ps = "payload_slots n" and ?bm = "bitmap n"
  define nk where "nk = (if pos = ?cap - 1 then kEndSentinel c else ?ks ! (pos + 1))"
  define bm where "bm = unset_bit_at ?bm pos"
  define ks where "ks = fill_gaps bm nk pos (?ks[pos := nk])"
  note o = ok [unfolded an_ok_def arr_ok_def]
  have ck: "check_exists bm i \<longleftrightarrow> i \<noteq> pos \<and> check_exists ?bm i" for i
    using bitmap_ok_fits [of ?bm ?cap pos] o pos(1) by (simp add: bm_def)
  have nk: "nk = next_slot (kEndSentinel c) ?ks pos" using pos(1) by (auto simp: nk_def next_slot_def)
  obtain s where s: "gap_start bm pos s" "\<forall>i<?cap. ks ! i = (if s \<le> i \<and> i < pos then nk else ?ks[pos := nk] ! i)"
    using fill_gaps_spec [of pos "?ks[pos := nk]" bm nk] pos(1) by (auto simp: ks_def)
  have k: "ks ! i = (if s \<le> i \<and> i \<le> pos then nk else ?ks ! i)" if "i < ?cap" for i
    using s pos(1) that by (auto simp: nth_list_update gap_start_def)
  have len: "length ks = ?cap" by (simp add: ks_def)
  have gr: "gap_rule (kEndSentinel c) bm ks" unfolding gap_rule_def len
  proof (intro allI impI)
    fix i assume i: "i < ?cap" "\<not> check_exists bm i"
    have "i + 1 \<noteq> s" using i(2) s(1) by (auto simp: gap_start_def)
    moreover have "?ks ! i = next_slot (kEndSentinel c) ?ks i" if "i \<noteq> pos" using o i ck that by (auto simp: gap_rule_def)
    ultimately show "ks ! i = next_slot (kEndSentinel c) ks i"
      using k [of i] k [of "i + 1"] i(1) nk len pos(1) s(1) by (cases "i = pos") (auto simp: next_slot_def gap_start_def)
  qed
  have e1: "an_entries n = ents ?bm ?ks ?ps 0 pos @ [(?ks ! pos, ?ps ! pos)] @ ents ?bm ?ks ?ps (pos + 1) ?cap"
    using ents_split [of 0 pos ?cap ?bm ?ks ?ps] ents_hd [of pos ?cap ?bm ?ks ?ps] pos by simp
  have e2: "ents bm ks ?ps 0 ?cap = ents ?bm ?ks ?ps 0 pos @ ents ?bm ?ks ?ps (pos + 1) ?cap"
  proof -
    have "ents bm ks ?ps 0 ?cap = ents bm ks ?ps 0 pos @ ents bm ks ?ps (pos + 1) ?cap"
      using ents_split [of 0 pos ?cap bm ks ?ps] ents_split [of pos "pos + 1" ?cap bm ks ?ps] ents_gap [of bm pos ks ?ps] ck pos(1) by simp
    moreover have "ents bm ks ?ps 0 pos = ents ?bm ?ks ?ps 0 pos"
      by (rule ents_cong) (use ck k pos(1) s(1) in \<open>auto simp: gap_start_def\<close>)
    moreover have "ents bm ks ?ps (pos + 1) ?cap = ents ?bm ?ks ?ps (pos + 1) ?cap" by (rule ents_cong) (use ck k in auto)
    ultimately show ?thesis by simp
  qed
  have bok: "bitmap_ok bm ?cap" using o pos(1) by (simp add: bm_def bitmap_ok_unset)
  have "an_ok c (n\<lparr>key_slots := ks, bitmap := bm, num_keys := num_keys n - 1\<rparr>)"
    "an_entries (n\<lparr>key_slots := ks, bitmap := bm, num_keys := num_keys n - 1\<rparr>) = ents ?bm ?ks ?ps 0 pos @ ents ?bm ?ks ?ps (pos + 1) ?cap"
    using an_ok_removed [OF ok refl len bok gr e1 e2 refl] by simp_all
  moreover have "erase_one_at c pos n = contract c (n\<lparr>key_slots := ks, bitmap := bm, num_keys := num_keys n - 1\<rparr>)"
    by (simp add: erase_one_at_def Let_def nk_def bm_def ks_def)
  ultimately show ?thesis using contract_ok [OF fp] by metis
qed

section \<open>Erasing below a position\<close>

lemma aerase_loop_spec:
  assumes "bitmap_ok bm (length ks)" "p \<le> length ks"
  shows "\<exists>s ks' bm'. aerase_loop P nk p (ks, bm) k = ((ks', bm'), k + length (filter (check_exists bm) [s..<p]))
    \<and> s \<le> p \<and> (\<forall>i. s \<le> i \<longrightarrow> i < p \<longrightarrow> P (ks ! i)) \<and> (0 < s \<longrightarrow> \<not> P (ks ! (s - 1)))
    \<and> length ks' = length ks \<and> bitmap_ok bm' (length ks)
    \<and> (\<forall>i<length ks. ks' ! i = (if s \<le> i \<and> i < p then nk else ks ! i) \<and> check_exists bm' i = (\<not> (s \<le> i \<and> i < p) \<and> check_exists bm i))"
  using assms
proof (induction p arbitrary: ks bm k)
  case 0
  then show ?case by (intro exI [of _ 0]) auto
next
  case (Suc p)
  show ?case
  proof (cases "P (ks ! p)")
    case False
    then show ?thesis using Suc.prems by (intro exI [of _ "Suc p"]) auto
  next
    case True
    have pl: "p < 64 * length bm" using bitmap_ok_fits [OF Suc.prems(1)] Suc.prems(2) by simp
    have ok: "bitmap_ok (unset_bit_at bm p) (length (ks[p := nk]))" using bitmap_ok_unset [OF Suc.prems(1)] Suc.prems(2) by simp
    have le: "p \<le> length (ks[p := nk])" using Suc.prems(2) by simp
    have fl: "filter (check_exists (unset_bit_at bm p)) [s..<p] = filter (check_exists bm) [s..<p]" for s
      by (rule filter_cong) (use pl in auto)
    obtain s ks' bm' where s: "aerase_loop P nk p (ks[p := nk], unset_bit_at bm p) (k + (if check_exists bm p then 1 else 0))
        = ((ks', bm'), k + (if check_exists bm p then 1 else 0) + length (filter (check_exists bm) [s..<p]))" "s \<le> p"
      "\<forall>i. s \<le> i \<longrightarrow> i < p \<longrightarrow> P (ks[p := nk] ! i)" "0 < s \<longrightarrow> \<not> P (ks[p := nk] ! (s - 1))"
      "length ks' = length ks" "bitmap_ok bm' (length ks)"
      "\<forall>i<length ks. ks' ! i = (if s \<le> i \<and> i < p then nk else ks[p := nk] ! i)
        \<and> check_exists bm' i = (\<not> (s \<le> i \<and> i < p) \<and> check_exists (unset_bit_at bm p) i)"
      using Suc.IH [OF ok le, of "k + (if check_exists bm p then 1 else 0)"] unfolding fl length_list_update by blast
    have "aerase_loop P nk (Suc p) (ks, bm) k = ((ks', bm'), k + length (filter (check_exists bm) [s..<Suc p]))"
      using s(1,2) True by simp
    moreover have "\<forall>i. s \<le> i \<longrightarrow> i < Suc p \<longrightarrow> P (ks ! i)" using s(3) True by (auto simp: less_Suc_eq)
    moreover have "0 < s \<longrightarrow> \<not> P (ks ! (s - 1))" using s(2,4) by auto
    moreover have "ks' ! i = (if s \<le> i \<and> i < Suc p then nk else ks ! i) \<and> check_exists bm' i = (\<not> (s \<le> i \<and> i < Suc p) \<and> check_exists bm i)"
      if "i < length ks" for i
      using s(2,7) that pl Suc.prems(2) by (auto simp: nth_list_update less_Suc_eq)
    ultimately show ?thesis using s(2,5,6) by (intro exI [of _ s] exI [of _ ks'] exI [of _ bm']) auto
  qed
qed

text \<open>
  The keys below the position that satisfy \<open>P\<close> are a run that ends at the position: what the loop
  erases are exactly the entries below the position with \<open>P\<close>.
\<close>

lemma erase_below_ok:
  assumes fp: "fp_ok (fp c)" and ok: "an_ok c n" and pos: "pos \<le> data_capacity n"
    and mono: "\<And>i j. i \<le> j \<Longrightarrow> j < pos \<Longrightarrow> P (key_slots n ! i) \<Longrightarrow> P (key_slots n ! j)"
  shows "\<exists>n' k. erase_below c P pos n = Some (n', k) \<and> an_ok c n'
    \<and> an_entries n' = filter (\<lambda>x. \<not> P (fst x)) (ents (bitmap n) (key_slots n) (payload_slots n) 0 pos)
        @ ents (bitmap n) (key_slots n) (payload_slots n) pos (data_capacity n)
    \<and> k = length (filter (\<lambda>x. P (fst x)) (ents (bitmap n) (key_slots n) (payload_slots n) 0 pos))"
proof -
  let ?cap = "data_capacity n" and ?ks = "key_slots n" and ?ps = "payload_slots n" and ?bm = "bitmap n"
  define nk where "nk = (if pos = ?cap then kEndSentinel c else ?ks ! pos)"
  note o = ok [unfolded an_ok_def arr_ok_def]
  obtain s ks bm where l: "aerase_loop P nk pos (?ks, ?bm) 0 = ((ks, bm), length (filter (an_exists n) [s..<pos]))"
    and s: "s \<le> pos" "\<forall>i. s \<le> i \<longrightarrow> i < pos \<longrightarrow> P (?ks ! i)" "0 < s \<longrightarrow> \<not> P (?ks ! (s - 1))"
    and len: "length ks = ?cap" and bok: "bitmap_ok bm ?cap"
    and new: "\<forall>i<?cap. ks ! i = (if s \<le> i \<and> i < pos then nk else ?ks ! i) \<and> check_exists bm i = (\<not> (s \<le> i \<and> i < pos) \<and> an_exists n i)"
    using aerase_loop_spec [of ?bm ?ks pos P nk 0] o pos by auto
  have k: "ks ! i = (if s \<le> i \<and> i < pos then nk else ?ks ! i)" "check_exists bm i = (\<not> (s \<le> i \<and> i < pos) \<and> an_exists n i)"
    if "i < ?cap" for i using new that by auto
  let ?lo = "ents ?bm ?ks ?ps 0 s" and ?mid = "ents ?bm ?ks ?ps s pos" and ?hi = "ents ?bm ?ks ?ps pos ?cap"
  have "\<not> P (?ks ! i)" if "i < s" for i
  proof -
    have "i \<le> s - 1" "s - 1 < pos" "0 < s" using that s(1) by auto
    then show ?thesis using mono [of i "s - 1"] s(3) by blast
  qed
  then have "filter (\<lambda>x. \<not> P (fst x)) ?lo = ?lo" "filter (\<lambda>x. P (fst x)) ?lo = []"
    by (auto simp: set_ents filter_id_conv filter_empty_conv)
  moreover have "filter (\<lambda>x. P (fst x)) ?mid = ?mid" "filter (\<lambda>x. \<not> P (fst x)) ?mid = []"
    using s(2) by (auto simp: set_ents filter_id_conv filter_empty_conv)
  moreover have below: "ents ?bm ?ks ?ps 0 pos = ?lo @ ?mid" by (rule ents_split) (use s in auto)
  ultimately have flt: "filter (\<lambda>x. \<not> P (fst x)) (ents ?bm ?ks ?ps 0 pos) = ?lo" "filter (\<lambda>x. P (fst x)) (ents ?bm ?ks ?ps 0 pos) = ?mid"
    by simp_all
  have "gap_rule (kEndSentinel c) bm ks" unfolding gap_rule_def len
  proof (intro allI impI)
    fix i assume i: "i < ?cap" "\<not> check_exists bm i"
    show "ks ! i = next_slot (kEndSentinel c) ks i"
    proof (cases "s \<le> i \<and> i < pos")
      case True
      then show ?thesis using k(1) [of i] k(1) [of "i + 1"] i(1) pos by (cases "i + 1 = pos") (auto simp: next_slot_def len nk_def)
    next
      case False
      then have r: "?ks ! i = next_slot (kEndSentinel c) ?ks i" using o i k(2) by (auto simp: gap_rule_def)
      moreover have "\<not> (i + 1 = s \<and> s < pos)"
      proof
        assume "i + 1 = s \<and> s < pos"
        then show False using r s pos i(1) by (auto simp: next_slot_def)
      qed
      ultimately show ?thesis using False k(1) [of i] k(1) [of "i + 1"] i(1) by (auto simp: next_slot_def len)
    qed
  qed
  moreover have "ents bm ks ?ps 0 ?cap = ?lo @ ?hi"
  proof -
    have "ents bm ks ?ps 0 ?cap = ents bm ks ?ps 0 s @ ents bm ks ?ps s pos @ ents bm ks ?ps pos ?cap"
      using ents_split [of 0 s ?cap bm ks ?ps] ents_split [of s pos ?cap bm ks ?ps] s(1) pos by simp
    moreover have "ents bm ks ?ps 0 s = ?lo" by (rule ents_cong) (use k s pos in auto)
    moreover have "ents bm ks ?ps s pos = []" by (rule ents_none) (use k pos in auto)
    moreover have "ents bm ks ?ps pos ?cap = ?hi" by (rule ents_cong) (use k in auto)
    ultimately show ?thesis by simp
  qed
  moreover have "an_entries n = ?lo @ ?mid @ ?hi" using ents_split [of 0 pos ?cap ?bm ?ks ?ps] below pos by simp
  moreover have cnt: "length (filter (an_exists n) [s..<pos]) = length ?mid" by (simp add: ents_def)
  ultimately have "an_ok c (n\<lparr>key_slots := ks, bitmap := bm, num_keys := num_keys n - length ?mid\<rparr>)"
    "an_entries (n\<lparr>key_slots := ks, bitmap := bm, num_keys := num_keys n - length ?mid\<rparr>) = ?lo @ ?hi"
    using an_ok_removed [OF ok refl len bok] by simp_all
  from contract_ok [OF fp this(1)] this(2) show ?thesis
    by (auto simp: erase_below_def Let_def nk_def [symmetric] l cnt flt)
qed

section \<open>The erase operations\<close>

lemma filter_bound_split:
  assumes "\<forall>x\<in>set xs. Q x" "\<forall>y\<in>set ys. \<not> Q y"
  shows "filter (\<lambda>x. \<not> (P x \<and> Q x)) (xs @ ys) = filter (\<lambda>x. \<not> P x) xs @ ys"
    "filter (\<lambda>x. P x \<and> Q x) (xs @ ys) = filter P xs"
proof -
  have "filter (\<lambda>x. \<not> (P x \<and> Q x)) xs = filter (\<lambda>x. \<not> P x) xs" "filter (\<lambda>x. P x \<and> Q x) xs = filter P xs"
    using assms(1) by (auto intro: filter_cong)
  moreover have "filter (\<lambda>x. \<not> (P x \<and> Q x)) ys = ys" "filter (\<lambda>x. P x \<and> Q x) ys = []"
    using assms(2) by (auto simp: filter_id_conv filter_empty_conv)
  ultimately show "filter (\<lambda>x. \<not> (P x \<and> Q x)) (xs @ ys) = filter (\<lambda>x. \<not> P x) xs @ ys"
    "filter (\<lambda>x. P x \<and> Q x) (xs @ ys) = filter P xs" by simp_all
qed

theorem an_erase_ok:
  assumes fp: "fp_ok (fp c)" and ok: "an_ok c n"
  shows "\<exists>n'. an_erase c key n = Some (n', length (filter (\<lambda>x. fst x = key) (an_entries n))) \<and> an_ok c n'
    \<and> an_entries n' = filter (\<lambda>x. fst x \<noteq> key) (an_entries n)"
proof -
  obtain k where ub: "an_upper_bound c n key = (n\<lparr>num_lookups := num_lookups n + 1, num_exp_search_iterations := k\<rparr>, rank_le key (key_slots n))"
    by (rule an_upper_bound_ok [OF ok])
  let ?n = "n\<lparr>num_lookups := num_lookups n + 1, num_exp_search_iterations := k\<rparr>" and ?p = "rank_le key (key_slots n)"
  note r = ents_rank_le [OF an_ok_arr [OF ok] refl, of key]
  show ?thesis
  proof (cases "?p = 0 \<or> key_slots n ! (?p - 1) \<noteq> key")
    case True
    have "key \<notin> fst ` set (an_entries n)"
    proof
      assume mem: "key \<in> fst ` set (an_entries n)"
      then have "key < kEndSentinel c" using ok by (auto simp: an_ok_def arr_ok_def)
      then show False using rank_le_found [OF an_ok_arr [OF ok], of key] mem True by simp
    qed
    then have "filter (\<lambda>x. fst x = key) (an_entries n) = []" "filter (\<lambda>x. fst x \<noteq> key) (an_entries n) = an_entries n"
      by (auto simp: filter_empty_conv filter_id_conv)
    then show ?thesis using True ok by (auto simp: an_erase_def ub)
  next
    case False
    have "key_slots n ! j = key" if "i \<le> j" "j < ?p" "key_slots n ! i = key" for i j
      using sorted_nth_mono [OF arr_sorted(1) [OF an_ok_arr [OF ok]], of i j] rank_le_below [of j key "key_slots n"] rank_le_le_length [of key "key_slots n"] that
      by simp
    then have "\<exists>n' k. erase_below c (\<lambda>k. akey_equal k key) ?p ?n = Some (n', k) \<and> an_ok c n'
      \<and> an_entries n' = filter (\<lambda>x. \<not> akey_equal (fst x) key) (ents (bitmap ?n) (key_slots ?n) (payload_slots ?n) 0 ?p)
        @ ents (bitmap ?n) (key_slots ?n) (payload_slots ?n) ?p (data_capacity ?n)
      \<and> k = length (filter (\<lambda>x. akey_equal (fst x) key) (ents (bitmap ?n) (key_slots ?n) (payload_slots ?n) 0 ?p))"
      by (intro erase_below_ok fp) (use ok rank_le_le_length [of key "key_slots n"] in auto)
    moreover have "filter (\<lambda>x. fst x \<noteq> key) (ents (bitmap n) (key_slots n) (payload_slots n) ?p (data_capacity n))
        = ents (bitmap n) (key_slots n) (payload_slots n) ?p (data_capacity n)"
      "filter (\<lambda>x. fst x = key) (ents (bitmap n) (key_slots n) (payload_slots n) ?p (data_capacity n)) = []"
      using r(3) by (auto simp: filter_id_conv filter_empty_conv)
    ultimately show ?thesis using False unfolding r(1) by (auto simp: an_erase_def ub)
  qed
qed

text \<open>The entries a range erase is about.\<close>

definition in_erase_range :: "'k::linorder \<Rightarrow> 'k \<Rightarrow> bool \<Rightarrow> 'k \<Rightarrow> bool" where
  "in_erase_range a b inclusive k \<longleftrightarrow> a \<le> k \<and> (if inclusive then k \<le> b else k < b)"

theorem an_erase_range_ok:
  assumes fp: "fp_ok (fp c)" and ok: "an_ok c n"
  shows "\<exists>n'. an_erase_range c a b inclusive n = Some (n', length (filter (\<lambda>x. in_erase_range a b inclusive (fst x)) (an_entries n)))
    \<and> an_ok c n' \<and> an_entries n' = filter (\<lambda>x. \<not> in_erase_range a b inclusive (fst x)) (an_entries n)"
proof -
  define p where "p = (if inclusive then rank_le b (key_slots n) else rank_less b (key_slots n))"
  obtain k where ub: "(if inclusive then an_upper_bound c n b else an_lower_bound c n b)
      = (n\<lparr>num_lookups := num_lookups n + 1, num_exp_search_iterations := k\<rparr>, p)"
  proof (cases inclusive)
    case True
    show thesis by (rule an_upper_bound_ok [OF ok, of b]) (rule that, simp add: True p_def)
  next
    case False
    show thesis by (rule an_lower_bound_ok [OF ok, of b]) (rule that, simp add: False p_def)
  qed
  let ?n = "n\<lparr>num_lookups := num_lookups n + 1, num_exp_search_iterations := k\<rparr>"
  let ?lo = "ents (bitmap n) (key_slots n) (payload_slots n) 0 p" and ?hi = "ents (bitmap n) (key_slots n) (payload_slots n) p (data_capacity n)"
  let ?Q = "\<lambda>x. if inclusive then fst x \<le> b else fst x < b"
  have p: "p \<le> data_capacity n" using rank_le_le_length [of b "key_slots n"] rank_less_le_length [of b "key_slots n"] by (simp add: p_def)
  have sp: "an_entries n = ?lo @ ?hi" by (rule ents_split) (use p in auto)
  have q: "\<forall>x\<in>set ?lo. ?Q x" "\<forall>x\<in>set ?hi. \<not> ?Q x"
    using ents_rank_le [OF an_ok_arr [OF ok] refl, of b] ents_rank_less [OF an_ok_arr [OF ok] refl, of b] by (auto simp: p_def not_le not_less)
  have rng: "in_erase_range a b inclusive (fst x) \<longleftrightarrow> a \<le> fst x \<and> ?Q x" for x by (simp add: in_erase_range_def)
  note f = filter_bound_split [OF q, of "\<lambda>x. a \<le> fst x"]
  have "\<exists>n' k. erase_below c (\<lambda>k. akey_greaterequal k a) p ?n = Some (n', k) \<and> an_ok c n'
    \<and> an_entries n' = filter (\<lambda>x. \<not> akey_greaterequal (fst x) a) (ents (bitmap ?n) (key_slots ?n) (payload_slots ?n) 0 p)
      @ ents (bitmap ?n) (key_slots ?n) (payload_slots ?n) p (data_capacity ?n)
    \<and> k = length (filter (\<lambda>x. akey_greaterequal (fst x) a) (ents (bitmap ?n) (key_slots ?n) (payload_slots ?n) 0 p))"
    by (intro erase_below_ok fp) (use ok p sorted_nth_mono [OF arr_sorted(1) [OF an_ok_arr [OF ok]]] in \<open>auto intro: order.trans\<close>)
  then show ?thesis
  proof (cases "p = 0")
    case True
    then have "?lo = []" by (simp add: ents_def)
    then have "length (filter (\<lambda>x. in_erase_range a b inclusive (fst x)) (an_entries n)) = 0"
      "filter (\<lambda>x. \<not> in_erase_range a b inclusive (fst x)) (an_entries n) = an_entries n"
      unfolding rng sp f by simp_all
    then show ?thesis using ok True unfolding an_erase_range_def ub by auto
  qed (use f in \<open>auto simp: an_erase_range_def ub sp rng\<close>)
qed

section \<open>Erasing the first entry of a key\<close>

text \<open>
  The lower bound is behind the array only if the last slot is filled with a smaller key; the
  read of its flag is outside the bitmap if the capacity is a multiple of the word size.
\<close>

definition reads_behind :: "('k::linorder, 'v, 'd) anode \<Rightarrow> 'k \<Rightarrow> bool" where
  "reads_behind n key \<longleftrightarrow> 64 dvd data_capacity n \<and> key_slots n ! (data_capacity n - 1) < key"

lemma rank_less_full:
  assumes "sorted ks" "0 < length ks"
  shows "rank_less key ks = length ks \<longleftrightarrow> ks ! (length ks - 1) < key"
proof
  assume "rank_less key ks = length ks"
  then show "ks ! (length ks - 1) < key" using rank_less_below [of "length ks - 1" key ks] assms(2) by simp
next
  assume "ks ! (length ks - 1) < key"
  moreover have "ks ! i \<le> ks ! (length ks - 1)" if "i < length ks" for i
    using sorted_nth_mono [OF assms(1), of i "length ks - 1"] that by simp
  ultimately have "\<forall>i<length ks. ks ! i < key" by (blast intro: le_less_trans)
  then show "rank_less key ks = length ks" by (intro rank_less_eqI) auto
qed

lemma words_room: "k < 64 * ((k + 63) div 64) \<longleftrightarrow> \<not> 64 dvd (k::nat)"
proof -
  obtain a b where k: "k = 64 * a + b" "b < 64" using split64 [of k] by metis
  have "(64 * a + b + 63) div 64 = a + (b + 63) div 64" by simp
  moreover have "(b + 63) div 64 = (if b = 0 then 0 else 1)" using k(2) by auto
  moreover have "64 dvd 64 * a + b \<longleftrightarrow> b = 0" using k(2) by (metis dvd_add_right_iff dvd_triv_left nat_dvd_not_less neq0_conv dvd_0_right)
  ultimately show ?thesis using k by (cases "b = 0") simp_all
qed

lemma an_find_lower_ok:
  assumes ok: "an_ok c n"
  obtains (behind) "reads_behind n key" "an_find_lower c n key = None"
  | (found) k q where "\<not> reads_behind n key"
      "an_find_lower c n key = Some (n\<lparr>num_lookups := num_lookups n + 1, num_exp_search_iterations := k\<rparr>, q)"
      "next_flag (an_exists n) (data_capacity n) (rank_less key (key_slots n)) q"
proof -
  let ?p = "rank_less key (key_slots n)" and ?cap = "data_capacity n" and ?bm = "bitmap n"
  obtain k where lb: "an_lower_bound c n key = (n\<lparr>num_lookups := num_lookups n + 1, num_exp_search_iterations := k\<rparr>, ?p)"
    by (rule an_lower_bound_ok [OF ok])
  note arr = an_ok_arr [OF ok]
  have bok: "bitmap_ok ?bm ?cap" using arr by (simp add: arr_ok_def)
  then have len: "length ?bm = (?cap + 63) div 64" by (simp add: bitmap_ok_def)
  have ple: "?p \<le> ?cap" by (rule rank_less_le_length)
  have full: "?p = ?cap \<longleftrightarrow> key_slots n ! (?cap - 1) < key" by (rule rank_less_full [OF arr_sorted(1) [OF arr] an_ok_cap [OF ok]])
  have fits: "?p < 64 * length ?bm \<longleftrightarrow> \<not> reads_behind n key"
  proof (cases "?p = ?cap")
    case True
    have "?cap < 64 * ((?cap + 63) div 64) \<longleftrightarrow> \<not> 64 dvd ?cap" by (rule words_room)
    then show ?thesis using True full by (simp add: len reads_behind_def)
  next
    case False
    then show ?thesis using ple full bitmap_ok_fits [OF bok, of ?p] by (simp add: reads_behind_def)
  qed
  show thesis
  proof (cases "reads_behind n key")
    case True
    then have "length ?bm \<le> ?p div 64" using fits by (simp add: div64_less)
    then have "an_find_lower c n key = None" by (simp add: an_find_lower_def lb get_next_filled_position_def Let_def)
    then show thesis using behind True by blast
  next
    case False
    then obtain q where "get_next_filled_position ?bm ?cap ?p False = Some q" "next_flag (an_exists n) ?cap ?p q"
      using get_next_filled_spec [OF bok _ ple] fits by blast
    then show thesis using found [OF False] by (simp add: an_find_lower_def lb)
  qed
qed

theorem an_erase_one_ok:
  assumes fp: "fp_ok (fp c)" and ok: "an_ok c n" and "key < kEndSentinel c"
  shows "if reads_behind n key then an_erase_one c key n = None
    else if key \<in> fst ` set (an_entries n)
    then \<exists>n' xs v ys. an_erase_one c key n = Some (n', 1) \<and> an_ok c n' \<and> an_entries n = xs @ (key, v) # ys
      \<and> (\<forall>x\<in>set xs. fst x < key) \<and> an_entries n' = xs @ ys
    else \<exists>n'. an_erase_one c key n = Some (n', 0) \<and> an_ok c n' \<and> an_entries n' = an_entries n"
proof (cases rule: an_find_lower_ok [OF ok, of key])
  case 1
  then show ?thesis by (simp add: an_erase_one_def)
next
  case (2 k q)
  let ?p = "rank_less key (key_slots n)" and ?cap = "data_capacity n"
  let ?n = "n\<lparr>num_lookups := num_lookups n + 1, num_exp_search_iterations := k\<rparr>"
  note r = ents_rank_less [OF an_ok_arr [OF ok] refl, of key] and arr = an_ok_arr [OF ok]
  have q: "?p \<le> q" "q \<le> ?cap" "\<forall>j. ?p \<le> j \<longrightarrow> j < q \<longrightarrow> \<not> an_exists n j" "q < ?cap \<Longrightarrow> an_exists n q"
    using 2(3) by (auto simp: next_flag_def)
  have hi: "ents (bitmap n) (key_slots n) (payload_slots n) ?p ?cap = ents (bitmap n) (key_slots n) (payload_slots n) q ?cap"
    "ents (bitmap n) (key_slots n) (payload_slots n) 0 ?p = ents (bitmap n) (key_slots n) (payload_slots n) 0 q"
    using ents_split [OF q(1,2), of "bitmap n" "key_slots n" "payload_slots n"] ents_none [OF q(3), of "key_slots n" "payload_slots n"]
      ents_split [OF _ q(1), of 0 "bitmap n" "key_slots n" "payload_slots n"] by simp_all
  have sp: "an_entries n = ents (bitmap n) (key_slots n) (payload_slots n) 0 q @ ents (bitmap n) (key_slots n) (payload_slots n) q ?cap"
    using r(1) hi by simp
  have lo: "\<forall>x\<in>set (ents (bitmap n) (key_slots n) (payload_slots n) 0 q). fst x < key" using r(2) hi by simp
  show ?thesis
  proof (cases "q < ?cap \<and> key_slots n ! q = key")
    case True
    obtain n' where e: "erase_one_at c q ?n = Some n'" "an_ok c n'"
      "an_entries n' = ents (bitmap n) (key_slots n) (payload_slots n) 0 q @ ents (bitmap n) (key_slots n) (payload_slots n) (q + 1) ?cap"
      using erase_one_at_ok [OF fp, of ?n q] ok True q(4) by auto
    have "ents (bitmap n) (key_slots n) (payload_slots n) q ?cap = (key, payload_slots n ! q) # ents (bitmap n) (key_slots n) (payload_slots n) (q + 1) ?cap"
      using ents_hd [of q ?cap "bitmap n" "key_slots n" "payload_slots n"] True q(4) by simp
    then show ?thesis using sp lo e True 2(1,2) by (auto simp: an_erase_one_def)
  next
    case False
    have "key \<notin> fst ` set (an_entries n)"
    proof
      assume "key \<in> fst ` set (an_entries n)"
      then have "key \<in> fst ` set (ents (bitmap n) (key_slots n) (payload_slots n) q ?cap)" using sp lo by auto
      then obtain i where i: "q \<le> i" "i < ?cap" "key_slots n ! i = key" by (auto simp: set_ents)
      have "key_slots n ! q \<le> key" using sorted_nth_mono [OF arr_sorted(1) [OF arr], of q i] i by simp
      moreover have "key \<le> key_slots n ! q" using rank_less_above [OF arr_sorted(1) [OF arr] q(1)] i by simp
      ultimately show False using False i by simp
    qed
    then show ?thesis using False 2(1,2) ok q(2) by (auto simp: an_erase_one_def)
  qed
qed

section \<open>The self-check\<close>

lemma ones_count:
  assumes "bitmap_ok bm cap"
  shows "sum_list (map count_ones bm) = length (filter (check_exists bm) [0..<cap])"
proof -
  have le: "cap \<le> 64 * length bm" using assms unfolding bitmap_ok_def by linarith
  have "map (\<lambda>i. mm_popcnt_u64 (bm ! i)) [0..<length bm] = map count_ones bm"
    by (rule nth_equalityI) (simp_all add: count_ones_def)
  then have "length (filter (check_exists bm) [0..<64 * length bm]) = sum_list (map count_ones bm)"
    using popcnt_words [of bm 0 "length bm"] by simp
  moreover have "filter (check_exists bm) [cap..<64 * length bm] = []" using assms by (auto simp: bitmap_ok_def filter_empty_conv)
  ultimately show ?thesis using upt_split [OF le0 le] by simp
qed

definition cost_valid :: "('k, 'v, 'd) acfg \<Rightarrow> ('k, 'v, 'd) anode \<Rightarrow> bool" where
  "cost_valid c n \<longleftrightarrow> \<not> flt (fp c) (an_cost n) (of_i (fp c) 0) \<and> fle (fp c) (an_cost n) (an_cost n)"

text \<open>
  On arrays of the right shape whose keys are below the sentinel, the self-check accepts exactly the
  nodes that satisfy the invariant of the arrays and count their keys.
\<close>

theorem validate_structure_iff:
  assumes "0 < data_capacity n" "length (payload_slots n) = data_capacity n" "bitmap_ok (bitmap n) (data_capacity n)"
    and "\<forall>x\<in>set (an_entries n). fst x < kEndSentinel c"
  shows "validate_structure c n \<longleftrightarrow> cost_valid c n \<and> arr_ok (kEndSentinel c) (bitmap n) (key_slots n) (payload_slots n)
    \<and> num_keys n = length (an_entries n)"
proof -
  let ?ks = "key_slots n" and ?cap = "data_capacity n" and ?s = "kEndSentinel c"
  have cnt: "sum_list (map count_ones (bitmap n)) = length (an_entries n)" using ones_count [OF assms(3)] by (simp add: ents_def)
  have gaps: "(\<forall>i < ?cap - 1. \<not> ?ks ! (i + 1) < ?ks ! i \<and> \<not> (?ks ! i < ?ks ! (i + 1) \<and> \<not> an_exists n i))
      \<and> \<not> (?ks ! (?cap - 1) = ?s \<and> an_exists n (?cap - 1)) \<and> \<not> (?ks ! (?cap - 1) \<noteq> ?s \<and> \<not> an_exists n (?cap - 1))
    \<longleftrightarrow> arr_ok ?s (bitmap n) ?ks (payload_slots n)" (is "?L \<longleftrightarrow> ?R")
  proof
    assume L: ?L
    have "?ks ! i = next_slot ?s ?ks i" if "i < ?cap" "\<not> an_exists n i" for i
    proof (cases "i + 1 < ?cap")
      case True
      then have "i < ?cap - 1" by simp
      then have "\<not> ?ks ! (i + 1) < ?ks ! i" "\<not> ?ks ! i < ?ks ! (i + 1)" using L that(2) by blast+
      then show ?thesis using True by (simp add: next_slot_def)
    next
      case False
      then have "i = ?cap - 1" using that by simp
      then show ?thesis using L that False by (auto simp: next_slot_def)
    qed
    then have "gap_rule ?s (bitmap n) ?ks" by (simp add: gap_rule_def)
    moreover have "sorted ?ks" using L by (auto simp: sorted_iff_nth_Suc not_less)
    then have "sorted (map fst (an_entries n))"
      by (auto simp: ents_def comp_def sorted_map intro!: sorted_wrt_filter sorted_wrt_mono_rel [OF _ sorted_wrt_upt] intro: sorted_nth_mono less_imp_le)
    ultimately show ?R using assms by (simp add: arr_ok_def)
  next
    assume R: ?R
    then have "gap_rule ?s (bitmap n) ?ks" by (simp add: arr_ok_def)
    then have g: "?ks ! i = next_slot ?s ?ks i" if "i < ?cap" "\<not> an_exists n i" for i using that by (auto simp: gap_rule_def)
    have "?ks ! (?cap - 1) \<noteq> ?s" if "an_exists n (?cap - 1)"
    proof -
      have "(?ks ! (?cap - 1), payload_slots n ! (?cap - 1)) \<in> set (an_entries n)" using assms(1) that by (auto simp: set_ents)
      then show ?thesis using assms(4) by fastforce
    qed
    moreover have "\<not> ?ks ! (i + 1) < ?ks ! i" if "i < ?cap - 1" for i
      using sorted_nth_mono [OF arr_sorted(1) [OF R], of i "i + 1"] that by (simp add: not_less)
    moreover have "an_exists n i" if "i < ?cap - 1" "?ks ! i < ?ks ! (i + 1)" for i
    proof (rule ccontr)
      have i: "i < ?cap" "i + 1 < ?cap" using that(1) by simp_all
      assume "\<not> an_exists n i"
      then show False using g [OF i(1)] i(2) that(2) by (simp add: next_slot_def)
    qed
    moreover have "?ks ! (?cap - 1) = ?s" if "\<not> an_exists n (?cap - 1)" using g [OF _ that] assms(1) by (simp add: next_slot_def)
    ultimately show ?L by blast
  qed
  show ?thesis unfolding validate_structure_def Let_def akey_simps cnt using gaps by (auto simp: cost_valid_def)
qed

end
