(* ===== verification/Alex_Cost.thy ===== *)
theory Alex_Cost
  imports Alex_Insert
begin

text \<open>
  The cost model of an ALEX data node: the accumulators of \<open>alex_base.h\<close> and the expected costs of
  \<open>alex_nodes.h\<close>, for a node that exists, for one that would be built from an array and for one that
  would be built from a part of another node. The cost of a node that would be built is the cost
  the built node has: the code that only simulates the placement agrees with the bulk load,
  although it clamps the predicted positions and the bulk load does not.
\<close>

section \<open>Accumulators\<close>

record 'd siacc =
  si_log_error :: 'd
  si_count :: nat

definition si_new :: "('k, 'd) fpops \<Rightarrow> 'd siacc" where
  "si_new f = \<lparr>si_log_error = of_i f 0, si_count = 0\<rparr>"

definition si_accumulate :: "('k, 'd) fpops \<Rightarrow> 'd siacc \<Rightarrow> nat \<Rightarrow> nat \<Rightarrow> 'd siacc" where
  "si_accumulate f acc actual_position predicted_position =
     acc\<lparr>si_log_error := fadd (dbl f) (si_log_error acc) (flog2 f (\<bar>int predicted_position - int actual_position\<bar> + 1)),
         si_count := si_count acc + 1\<rparr>"

definition si_get_stat :: "('k, 'd) fpops \<Rightarrow> 'd siacc \<Rightarrow> 'd" where
  "si_get_stat f acc = (if si_count acc = 0 then of_i f 0 else fdiv (dbl f) (si_log_error acc) (of_i f (int (si_count acc))))"

definition si_reset :: "('k, 'd) fpops \<Rightarrow> 'd siacc \<Rightarrow> 'd siacc" where
  "si_reset f acc = acc\<lparr>si_log_error := of_i f 0, si_count := 0\<rparr>"

record esacc =
  es_last_position :: int
  es_dense_start :: int
  es_num_shifts :: int
  es_count :: nat

definition es_new :: esacc where
  "es_new = \<lparr>es_last_position = -1, es_dense_start = 0, es_num_shifts = 0, es_count = 0\<rparr>"

definition es_accumulate :: "esacc \<Rightarrow> nat \<Rightarrow> nat \<Rightarrow> esacc" where
  "es_accumulate acc actual_position predicted_position = (let
     acc = (if es_last_position acc + 1 < int actual_position then
        let dense_region_length = es_last_position acc - es_dense_start acc + 1 in
        acc\<lparr>es_num_shifts := es_num_shifts acc + (dense_region_length * dense_region_length) div 4,
            es_dense_start := int actual_position\<rparr> else acc)
   in acc\<lparr>es_last_position := int actual_position, es_count := es_count acc + 1\<rparr>)"

definition es_get_stat :: "('k, 'd) fpops \<Rightarrow> esacc \<Rightarrow> 'd" where
  "es_get_stat f acc = (if es_count acc = 0 then of_i f 0 else
     let dense_region_length = es_last_position acc - es_dense_start acc + 1;
         cur_num_expected_shifts = es_num_shifts acc + (dense_region_length * dense_region_length) div 4
     in fdiv (dbl f) (of_i f cur_num_expected_shifts) (of_i f (int (es_count acc))))"

definition es_reset :: "esacc \<Rightarrow> esacc" where
  "es_reset acc = acc\<lparr>es_last_position := -1, es_dense_start := 0, es_num_shifts := 0, es_count := 0\<rparr>"

text \<open>The two accumulators combined.\<close>

record 'd isacc =
  is_log_error :: 'd
  is_last_position :: int
  is_dense_start :: int
  is_num_shifts :: int
  is_count :: nat

definition is_new :: "('k, 'd) fpops \<Rightarrow> 'd isacc" where
  "is_new f = \<lparr>is_log_error = of_i f 0, is_last_position = -1, is_dense_start = 0, is_num_shifts = 0, is_count = 0\<rparr>"

definition is_accumulate :: "('k, 'd) fpops \<Rightarrow> 'd isacc \<Rightarrow> nat \<Rightarrow> nat \<Rightarrow> 'd isacc" where
  "is_accumulate f acc actual_position predicted_position = (let
     acc = acc\<lparr>is_log_error := fadd (dbl f) (is_log_error acc) (flog2 f (\<bar>int predicted_position - int actual_position\<bar> + 1))\<rparr>;
     acc = (if is_last_position acc + 1 < int actual_position then
        let dense_region_length = is_last_position acc - is_dense_start acc + 1 in
        acc\<lparr>is_num_shifts := is_num_shifts acc + (dense_region_length * dense_region_length) div 4,
            is_dense_start := int actual_position\<rparr> else acc)
   in acc\<lparr>is_last_position := int actual_position, is_count := is_count acc + 1\<rparr>)"

definition get_expected_num_search_iterations :: "('k, 'd) fpops \<Rightarrow> 'd isacc \<Rightarrow> 'd" where
  "get_expected_num_search_iterations f acc =
     (if is_count acc = 0 then of_i f 0 else fdiv (dbl f) (is_log_error acc) (of_i f (int (is_count acc))))"

definition get_expected_num_shifts :: "('k, 'd) fpops \<Rightarrow> 'd isacc \<Rightarrow> 'd" where
  "get_expected_num_shifts f acc = (if is_count acc = 0 then of_i f 0 else
     let dense_region_length = is_last_position acc - is_dense_start acc + 1;
         cur_num_expected_shifts = is_num_shifts acc + (dense_region_length * dense_region_length) div 4
     in fdiv (dbl f) (of_i f cur_num_expected_shifts) (of_i f (int (is_count acc))))"

definition is_reset :: "('k, 'd) fpops \<Rightarrow> 'd isacc \<Rightarrow> 'd isacc" where
  "is_reset f acc = acc\<lparr>is_log_error := of_i f 0, is_last_position := -1, is_dense_start := 0, is_num_shifts := 0, is_count := 0\<rparr>"

section \<open>Expected costs\<close>

text \<open>The weights, and the cost they give to search iterations and shifts.\<close>

definition expected_cost :: "('k, 'd) fpops \<Rightarrow> 'd \<Rightarrow> 'd \<Rightarrow> 'd \<Rightarrow> 'd" where
  "expected_cost f iterations shifts frac = (let d = dbl f in
     fadd d (fmul d (flit f 20 1) iterations) (fmul d (fmul d (flit f 5 10) shifts) frac))"

text \<open>The predicted position, kept inside the array.\<close>

definition clamp_predict :: "('k, 'd) fpops \<Rightarrow> 'd lmodel \<Rightarrow> nat \<Rightarrow> 'k \<Rightarrow> nat" where
  "clamp_predict f m cap key = nat (max 0 (min (int cap - 1) (lm_predict f m key)))"

definition compute_expected_cost :: "('k::linorder, 'v, 'd) acfg \<Rightarrow> 'd \<Rightarrow> ('k, 'v, 'd) anode \<Rightarrow> (('k, 'v, 'd) anode \<times> 'd) option" where
  "compute_expected_cost c frac n = (let f = fp c in
     if num_keys n = 0 then Some (n, of_i f 0)
     else (case an_items n 0 of
         None \<Rightarrow> None
       | Some items \<Rightarrow> (let
           pr = clamp_predict f (an_model n) (data_capacity n);
           search_iters_accumulator = fold (\<lambda>(i, k, v) acc. si_accumulate f acc i (pr k)) items (si_new f);
           shifts_accumulator = fold (\<lambda>(i, k, v) acc. es_accumulate acc i (pr k)) items es_new;
           n = n\<lparr>expected_avg_exp_search_iterations := si_get_stat f search_iters_accumulator,
                 expected_avg_shifts := es_get_stat f shifts_accumulator\<rparr>
         in Some (n, expected_cost f (expected_avg_exp_search_iterations n) (expected_avg_shifts n) frac))))"

text \<open>
  The simulation of a bulk load; the accumulator is given by its \<open>accumulate\<close> function. \<open>nxt\<close> is
  \<open>last_position + 1\<close> and \<open>kr\<close> is \<open>keys_remaining\<close>.
\<close>

fun implicit_tail :: "('k \<Rightarrow> nat) \<Rightarrow> ('a \<Rightarrow> nat \<Rightarrow> nat \<Rightarrow> 'a) \<Rightarrow> nat \<Rightarrow> 'k list \<Rightarrow> 'a \<Rightarrow> 'a" where
  "implicit_tail pr accumulate pos [] acc = acc"
| "implicit_tail pr accumulate pos (k # ks) acc = implicit_tail pr accumulate (pos + 1) ks (accumulate acc pos (pr k))"

fun implicit_loop :: "('k \<Rightarrow> nat) \<Rightarrow> ('a \<Rightarrow> nat \<Rightarrow> nat \<Rightarrow> 'a) \<Rightarrow> nat \<Rightarrow> nat \<Rightarrow> nat \<Rightarrow> 'k list \<Rightarrow> 'a \<Rightarrow> 'a" where
  "implicit_loop pr accumulate cap kr nxt [] acc = acc"
| "implicit_loop pr accumulate cap kr nxt (k # ks) acc = (let actual_position = max (pr k) nxt in
     if int cap - int actual_position < int kr then implicit_tail pr accumulate (cap - kr) (k # ks) acc
     else implicit_loop pr accumulate cap (kr - 1) (actual_position + 1) ks (accumulate acc actual_position (pr k)))"

definition build_node_implicit :: "('k, 'd) fpops \<Rightarrow> 'd lmodel \<Rightarrow> nat \<Rightarrow> ('a \<Rightarrow> nat \<Rightarrow> nat \<Rightarrow> 'a) \<Rightarrow> ('k, 'v) kvs \<Rightarrow> 'a \<Rightarrow> 'a" where
  "build_node_implicit f m cap accumulate values acc =
     implicit_loop (clamp_predict f m cap) accumulate cap (length values) 0 (map fst values) acc"

text \<open>
  The cost and what is written to the statistics, if anything; without inserts only the search
  iterations are simulated.
\<close>

definition implicit_cost :: "('k, 'd) fpops \<Rightarrow> 'd \<Rightarrow> (('d siacc \<Rightarrow> nat \<Rightarrow> nat \<Rightarrow> 'd siacc) \<Rightarrow> 'd siacc \<Rightarrow> 'd siacc) \<Rightarrow>
    (('d isacc \<Rightarrow> nat \<Rightarrow> nat \<Rightarrow> 'd isacc) \<Rightarrow> 'd isacc \<Rightarrow> 'd isacc) \<Rightarrow> 'd \<times> ('d \<times> 'd) option" where
  "implicit_cost f expected_insert_frac build_si build_is = (let zero = of_i f 0 in
     if fle f expected_insert_frac zero \<and> fle f zero expected_insert_frac then
       (let its = si_get_stat f (build_si (si_accumulate f) (si_new f)) in
        (expected_cost f its zero expected_insert_frac, Some (its, zero)))
     else
       (let acc = build_is (is_accumulate f) (is_new f);
            its = get_expected_num_search_iterations f acc; shs = get_expected_num_shifts f acc in
        (expected_cost f its shs expected_insert_frac, Some (its, shs))))"

definition compute_expected_cost_values :: "('k::linorder, 'v, 'd) acfg \<Rightarrow> ('k, 'v) kvs \<Rightarrow> 'd \<Rightarrow> 'd \<Rightarrow> 'd lmodel option \<Rightarrow> 'd \<times> ('d \<times> 'd) option" where
  "compute_expected_cost_values c values density expected_insert_frac existing_model = (let f = fp c; zero = of_i f 0 in
     if values = [] then (zero, None)
     else (let
       cap = new_capacity c (length values) density;
       m = (case existing_model of Some m \<Rightarrow> m | None \<Rightarrow> train c (map fst values));
       m = lm_expand f (fdiv (dbl f) (of_i f (int cap)) (of_i f (int (length values)))) m
     in implicit_cost f expected_insert_frac (\<lambda>a. build_node_implicit f m cap a values) (\<lambda>a. build_node_implicit f m cap a values)))"

text \<open>
  The simulation over the items of an existing node. The tail reads the iterator until the array is
  full; \<open>None\<close> is a read of an iterator at its end.
\<close>

fun implicit_from_loop :: "('k \<Rightarrow> nat) \<Rightarrow> ('a \<Rightarrow> nat \<Rightarrow> nat \<Rightarrow> 'a) \<Rightarrow> nat \<Rightarrow> nat \<Rightarrow> nat \<Rightarrow> nat \<Rightarrow> (nat \<times> 'k \<times> 'v) list \<Rightarrow> 'a \<Rightarrow> 'a option" where
  "implicit_from_loop pr accumulate cap right kr nxt [] acc = Some acc"
| "implicit_from_loop pr accumulate cap right kr nxt ((i, k, v) # xs) acc =
     (if \<not> i < right then Some acc
      else (let actual_position = max (pr k) nxt in
        if int cap - int actual_position < int kr then
          (if length ((i, k, v) # xs) < kr then None
           else Some (implicit_tail pr accumulate (cap - kr) (map (\<lambda>x. fst (snd x)) (take kr ((i, k, v) # xs))) acc))
        else implicit_from_loop pr accumulate cap right (kr - 1) (actual_position + 1) xs (accumulate acc actual_position (pr k))))"

definition build_node_implicit_from_existing :: "('k, 'd) fpops \<Rightarrow> ('k, 'v, 'd) anode \<Rightarrow> nat \<Rightarrow> nat \<Rightarrow> nat \<Rightarrow> nat \<Rightarrow>
    ('a \<Rightarrow> nat \<Rightarrow> nat \<Rightarrow> 'a) \<Rightarrow> 'd lmodel \<Rightarrow> 'a \<Rightarrow> 'a option" where
  "build_node_implicit_from_existing f node left right num_actual_keys cap accumulate m acc =
     (case an_items node left of
        None \<Rightarrow> None
      | Some items \<Rightarrow> implicit_from_loop (clamp_predict f m cap) accumulate cap right num_actual_keys 0 items acc)"

definition compute_expected_cost_from_existing :: "('k::linorder, 'v, 'd) acfg \<Rightarrow> ('k, 'v, 'd) anode \<Rightarrow> nat \<Rightarrow> nat \<Rightarrow> 'd \<Rightarrow> 'd \<Rightarrow>
    'd lmodel option \<Rightarrow> ('d \<times> ('d \<times> 'd) option) option" where
  "compute_expected_cost_from_existing c node left right density expected_insert_frac existing_model = (let f = fp c; zero = of_i f 0 in
     case (case existing_model of
        None \<Rightarrow> map_option (\<lambda>items. let inside = takeWhile (\<lambda>x. fst x < right) items in
            (train c (map (\<lambda>x. fst (snd x)) inside), length inside)) (an_items node left)
      | Some m \<Rightarrow> map_option (Pair m) (num_keys_in_range (bitmap node) left right)) of
       None \<Rightarrow> None
     | Some (m, num_actual_keys) \<Rightarrow>
       if num_actual_keys = 0 then Some (zero, None)
       else (let
         cap = new_capacity c num_actual_keys density;
         m = lm_expand f (fdiv (dbl f) (of_i f (int cap)) (of_i f (int num_actual_keys))) m
       in case (build_node_implicit_from_existing f node left right num_actual_keys cap (si_accumulate f) m (si_new f),
                build_node_implicit_from_existing f node left right num_actual_keys cap (is_accumulate f) m (is_new f)) of
            (Some si, Some is) \<Rightarrow> Some (implicit_cost f expected_insert_frac (\<lambda>a b. si) (\<lambda>a b. is))
          | _ \<Rightarrow> None))"

section \<open>The simulation visits the positions of the bulk load\<close>

abbreviation acc_fold :: "('k \<Rightarrow> nat) \<Rightarrow> ('a \<Rightarrow> nat \<Rightarrow> nat \<Rightarrow> 'a) \<Rightarrow> (nat \<times> 'k) list \<Rightarrow> 'a \<Rightarrow> 'a" where
  "acc_fold pr accumulate \<equiv> fold (\<lambda>(p, k) acc. accumulate acc p (pr k))"

lemma implicit_tail_fold:
  "implicit_tail pr accumulate pos ks acc = acc_fold pr accumulate (zip [pos..<pos + length ks] ks) acc"
proof (induction ks arbitrary: pos acc)
  case (Cons k ks)
  have "[pos..<pos + length (k # ks)] = pos # [pos + 1..<pos + 1 + length ks]" by (simp add: upt_conv_Cons del: upt_Suc)
  then show ?case using Cons.IH [of "pos + 1"] by (simp del: upt_Suc)
qed simp

text \<open>Clamping the prediction makes no difference to where the keys go.\<close>

lemma implicit_loop_placed:
  "nxt + length ks \<le> cap \<Longrightarrow> implicit_loop (clamp_predict f m cap) accumulate cap (length ks) nxt ks acc
    = acc_fold (clamp_predict f m cap) accumulate (zip (placed (lm_predict f m) cap nxt ks) ks) acc"
proof (induction ks arbitrary: nxt acc)
  case (Cons k ks)
  let ?pr = "clamp_predict f m cap" and ?p = "max (lm_predict f m k) (int nxt)"
  define a where "a = max (?pr k) nxt"
  have tail: "implicit_tail ?pr accumulate (cap - length (k # ks)) (k # ks) acc
      = acc_fold ?pr accumulate (zip [cap - length (k # ks)..<cap] (k # ks)) acc"
  proof -
    have "cap - length (k # ks) + length (k # ks) = cap" using Cons.prems by simp
    then show ?thesis using implicit_tail_fold [of ?pr accumulate "cap - length (k # ks)" "k # ks" acc] by (simp only:)
  qed
  have step: "implicit_loop ?pr accumulate cap (length (k # ks)) nxt (k # ks) acc =
      (if int cap - int a < int (length (k # ks)) then implicit_tail ?pr accumulate (cap - length (k # ks)) (k # ks) acc
       else implicit_loop ?pr accumulate cap (length ks) (a + 1) ks (accumulate acc a (?pr k)))"
    by (simp add: a_def Let_def)
  consider (over) "int cap \<le> lm_predict f m k" | (inside) "lm_predict f m k < int cap" by linarith
  then show ?case
  proof cases
    case over
    then have a: "a = cap - 1" using Cons.prems by (auto simp: a_def clamp_predict_def)
    have pl: "placed (lm_predict f m) cap nxt (k # ks) = [cap - length (k # ks)..<cap]"
      using over by (auto simp: Let_def)
    show ?thesis
    proof (cases "ks = []")
      case True
      then show ?thesis using pl Cons.prems a step by (simp add: upt_conv_Cons)
    next
      case False
      then have "int cap - int a < int (length (k # ks))" using a Cons.prems by (cases ks) auto
      then show ?thesis using step tail pl by simp
    qed
  next
    case inside
    then have a: "int a = ?p" using Cons.prems by (auto simp: a_def clamp_predict_def)
    show ?thesis
    proof (cases "int cap - int a < int (length (k # ks))")
      case True
      have "placed (lm_predict f m) cap nxt (k # ks) = [cap - length (k # ks)..<cap]"
        using True unfolding a by (simp add: Let_def)
      then show ?thesis using step tail True by simp
    next
      case False
      have "placed (lm_predict f m) cap nxt (k # ks) = a # placed (lm_predict f m) cap (a + 1) ks"
        unfolding placed.simps Let_def a [symmetric] using False by simp
      moreover have "a + 1 + length ks \<le> cap" using False by auto
      ultimately show ?thesis using step False Cons.IH [of "a + 1" "accumulate acc a (?pr k)"] by simp
    qed
  qed
qed simp

lemma implicit_from_loop_inside:
  "nxt + length (takeWhile (\<lambda>x. fst x < right) items) \<le> cap \<Longrightarrow>
    implicit_from_loop pr accumulate cap right (length (takeWhile (\<lambda>x. fst x < right) items)) nxt items acc
    = Some (implicit_loop pr accumulate cap (length (takeWhile (\<lambda>x. fst x < right) items)) nxt
        (map (\<lambda>x. fst (snd x)) (takeWhile (\<lambda>x. fst x < right) items)) acc)"
proof (induction items arbitrary: nxt acc)
  case (Cons x xs)
  obtain i k v where x: "x = (i, k, v)" by (cases x)
  let ?in = "takeWhile (\<lambda>x. fst x < right) xs"
  show ?case
  proof (cases "i < right")
    case True
    define a where "a = max (pr k) nxt"
    show ?thesis
    proof (cases "int cap - int a < int (length ?in + 1)")
      case tail: True
      have "take (length ?in + 1) (x # xs) = x # ?in" by (simp add: takeWhile_eq_take [symmetric])
      moreover have "\<not> length (x # xs) < length ?in + 1" using length_takeWhile_le [of "\<lambda>x. fst x < right" xs] by simp
      ultimately show ?thesis using True tail by (simp add: x Let_def a_def [symmetric])
    next
      case False
      then have "a + 1 + length ?in \<le> cap" by auto
      then show ?thesis using Cons.IH [of "a + 1" "accumulate acc a (pr k)"] True False by (simp add: x Let_def a_def [symmetric])
    qed
  qed (simp add: x)
qed simp

section \<open>The combined accumulator\<close>

definition is_pair :: "'d isacc \<Rightarrow> 'd siacc \<Rightarrow> esacc \<Rightarrow> bool" where
  "is_pair a b d \<longleftrightarrow> is_log_error a = si_log_error b \<and> is_count a = si_count b \<and> is_count a = es_count d
     \<and> is_last_position a = es_last_position d \<and> is_dense_start a = es_dense_start d \<and> is_num_shifts a = es_num_shifts d"

lemma is_pair_new: "is_pair (is_new f) (si_new f) es_new"
  by (simp add: is_pair_def is_new_def si_new_def es_new_def)

lemma is_pair_accumulate:
  "is_pair a b d \<Longrightarrow> is_pair (is_accumulate f a p q) (si_accumulate f b p q) (es_accumulate d p q)"
  by (simp add: is_pair_def is_accumulate_def si_accumulate_def es_accumulate_def Let_def)

lemma is_pair_fold:
  "is_pair a b d \<Longrightarrow> is_pair (acc_fold pr (is_accumulate f) xs a) (acc_fold pr (si_accumulate f) xs b) (acc_fold pr es_accumulate xs d)"
proof (induction xs arbitrary: a b d)
  case (Cons x xs)
  obtain p k where x: "x = (p, k)" by (cases x)
  show ?case using Cons.IH [OF is_pair_accumulate [OF Cons.prems, of f p "pr k"]] by (simp add: x)
qed simp

lemma is_pair_stats:
  "is_pair a b d \<Longrightarrow> get_expected_num_search_iterations f a = si_get_stat f b \<and> get_expected_num_shifts f a = es_get_stat f d"
  by (auto simp: is_pair_def get_expected_num_search_iterations_def get_expected_num_shifts_def si_get_stat_def es_get_stat_def Let_def)

section \<open>The cost of a node before and after it is built\<close>

definition is_zero :: "('k, 'd) fpops \<Rightarrow> 'd \<Rightarrow> bool" where
  "is_zero f x \<longleftrightarrow> fle f x (of_i f 0) \<and> fle f (of_i f 0) x"

lemma node_cost:
  assumes ok: "an_ok c n" and "num_keys n \<noteq> 0"
  defines "f \<equiv> fp c" and "xs \<equiv> zip (filter (an_exists n) [0..<data_capacity n]) (map fst (an_entries n))"
    and "pr \<equiv> clamp_predict (fp c) (an_model n) (data_capacity n)"
  shows "\<exists>n'. compute_expected_cost c frac n = Some (n', expected_cost f (expected_avg_exp_search_iterations n') (expected_avg_shifts n') frac)
    \<and> expected_avg_exp_search_iterations n' = si_get_stat f (acc_fold pr (si_accumulate f) xs (si_new f))
    \<and> expected_avg_shifts n' = es_get_stat f (acc_fold pr es_accumulate xs es_new)"
proof -
  let ?L = "filter (an_exists n) [0..<data_capacity n]"
  let ?items = "map (\<lambda>i. (i, key_slots n ! i, payload_slots n ! i)) ?L"
  have it: "an_items n 0 = Some ?items" using an_items_ok [OF ok an_ok_cap [OF ok]] .
  have xs: "xs = map (\<lambda>i. (i, key_slots n ! i)) ?L"
    unfolding xs_def by (simp add: ents_def comp_def zip_map2 zip_same_conv_map)
  have fi: "fold (\<lambda>(i, k, v) acc. g acc i (pr k)) ?items = acc_fold pr g xs" for g :: "'x \<Rightarrow> nat \<Rightarrow> nat \<Rightarrow> 'x"
    unfolding xs by (simp add: fold_map comp_def)
  show ?thesis using assms(2) unfolding compute_expected_cost_def it Let_def option.case pr_def [symmetric] fi
    by (simp add: f_def)
qed

theorem cost_of_built_node:
  assumes fp: "fp_ok (fp c)" and ld: "loadable c xs" and "xs \<noteq> []"
  shows "\<exists>n' n'' its shs. an_bulk_load c xs m n = Some n'
    \<and> compute_expected_cost c frac n' = Some (n'', expected_cost (fp c) its shs frac)
    \<and> its = expected_avg_exp_search_iterations n'' \<and> shs = expected_avg_shifts n''
    \<and> compute_expected_cost_values c xs (kInitDensity c) frac m =
        (if is_zero (fp c) frac then (expected_cost (fp c) its (of_i (fp c) 0) frac, Some (its, of_i (fp c) 0))
         else (expected_cost (fp c) its shs frac, Some (its, shs)))"
proof -
  let ?f = "fp c"
  obtain n' where n': "an_bulk_load c xs m n = Some n'" "an_ok c n'" "an_entries n' = xs" "length xs < data_capacity n'"
    "data_capacity n' = new_capacity c (length xs) (kInitDensity c)"
    "an_model n' = lm_expand ?f (fdiv (dbl ?f) (of_i ?f (int (data_capacity n'))) (of_i ?f (int (length xs))))
           (case m of Some m \<Rightarrow> m | None \<Rightarrow> train c (map fst xs))"
    "filter (an_exists n') [0..<data_capacity n'] = placed (lm_predict ?f (an_model n')) (data_capacity n') 0 (map fst xs)"
    using an_bulk_load_ok [OF fp ld, of m n] assms(3) by blast
  have "num_keys n' \<noteq> 0" using n'(2,3) assms(3) by (simp add: an_ok_def)
  define pr where "pr = clamp_predict ?f (an_model n') (data_capacity n')"
  define ps where "ps = zip (placed (lm_predict ?f (an_model n')) (data_capacity n') 0 (map fst xs)) (map fst xs)"
  obtain n'' where n'': "compute_expected_cost c frac n' = Some (n'', expected_cost ?f (expected_avg_exp_search_iterations n'') (expected_avg_shifts n'') frac)"
    "expected_avg_exp_search_iterations n'' = si_get_stat ?f (acc_fold pr (si_accumulate ?f) ps (si_new ?f))"
    "expected_avg_shifts n'' = es_get_stat ?f (acc_fold pr es_accumulate ps es_new)"
    using node_cost [OF n'(2) \<open>num_keys n' \<noteq> 0\<close>, of frac] unfolding n'(3,7) pr_def ps_def by blast
  have b: "build_node_implicit ?f (an_model n') (data_capacity n') g xs a = acc_fold pr g ps a" for g :: "'x \<Rightarrow> nat \<Rightarrow> nat \<Rightarrow> 'x" and a
    using implicit_loop_placed [of 0 "map fst xs" "data_capacity n'" ?f "an_model n'" g a] n'(4)
    by (simp add: build_node_implicit_def pr_def ps_def)
  note st = is_pair_stats [OF is_pair_fold [OF is_pair_new [of ?f], where pr = pr and xs = ps and f = ?f], where f = ?f]
  have "compute_expected_cost_values c xs (kInitDensity c) frac m
      = implicit_cost ?f frac (\<lambda>a. build_node_implicit ?f (an_model n') (data_capacity n') a xs) (\<lambda>a. build_node_implicit ?f (an_model n') (data_capacity n') a xs)"
    using assms(3) unfolding compute_expected_cost_values_def Let_def n'(5) [symmetric] n'(6) [symmetric] by simp
  also have "\<dots> = (if is_zero ?f frac then (expected_cost ?f (expected_avg_exp_search_iterations n'') (of_i ?f 0) frac, Some (expected_avg_exp_search_iterations n'', of_i ?f 0))
      else (expected_cost ?f (expected_avg_exp_search_iterations n'') (expected_avg_shifts n'') frac, Some (expected_avg_exp_search_iterations n'', expected_avg_shifts n'')))"
    unfolding implicit_cost_def Let_def b n''(2,3) is_zero_def using st by simp
  finally show ?thesis using n'(1) n''(1) by blast
qed

theorem cost_from_existing:
  assumes ok: "an_ok c node" and "left < data_capacity node" "left \<le> right" "right \<le> data_capacity node"
    and es: "es = ents (bitmap node) (key_slots node) (payload_slots node) left right"
  shows "compute_expected_cost_from_existing c node left right density frac m = Some (compute_expected_cost_values c es density frac m)"
proof -
  let ?f = "fp c"
  let ?items = "map (\<lambda>i. (i, key_slots node ! i, payload_slots node ! i)) (filter (an_exists node) [left..<data_capacity node])"
  have it: "an_items node left = Some ?items" by (rule an_items_ok [OF ok assms(2)])
  have tw: "map (\<lambda>x. fst (snd x)) (takeWhile (\<lambda>x. fst x < right) ?items) = map fst es" "length (takeWhile (\<lambda>x. fst x < right) ?items) = length es"
    unfolding takeWhile_slots [OF assms(4)] es by (simp_all add: ents_def)
  have bok: "bitmap_ok (bitmap node) (data_capacity node)" using ok by (simp add: an_ok_def arr_ok_def)
  then have "data_capacity node \<le> 64 * length (bitmap node)" unfolding bitmap_ok_def by linarith
  then have cnt: "num_keys_in_range (bitmap node) left right = Some (length es)"
    using num_keys_in_range_spec [OF assms(3), of "bitmap node"] assms(2,4) by (simp add: es ents_def)
  obtain mm where mm: "(case m of None \<Rightarrow> map_option (\<lambda>items.
            (train c (map (\<lambda>x. fst (snd x)) (takeWhile (\<lambda>x. fst x < right) items)), length (takeWhile (\<lambda>x. fst x < right) items)))
            (an_items node left)
      | Some m \<Rightarrow> map_option (Pair m) (num_keys_in_range (bitmap node) left right)) = Some (mm, length es)"
    "mm = (case m of Some m \<Rightarrow> m | None \<Rightarrow> train c (map fst es))"
    by (cases m) (simp_all add: it tw cnt)
  show ?thesis
  proof (cases "es = []")
    case True
    then show ?thesis unfolding compute_expected_cost_from_existing_def Let_def mm(1) by (simp add: compute_expected_cost_values_def Let_def)
  next
    case False
    let ?cap = "new_capacity c (length es) density"
    define m' where "m' = lm_expand ?f (fdiv (dbl ?f) (of_i ?f (int ?cap)) (of_i ?f (int (length es)))) mm"
    have b: "build_node_implicit_from_existing ?f node left right (length es) ?cap g m' a = Some (build_node_implicit ?f m' ?cap g es a)"
      for g :: "'x \<Rightarrow> nat \<Rightarrow> nat \<Rightarrow> 'x" and a
      using implicit_from_loop_inside [of 0 right ?items ?cap "clamp_predict ?f m' ?cap" g a] new_capacity_gt [of "length es" c density]
      unfolding tw by (simp add: build_node_implicit_from_existing_def build_node_implicit_def it)
    show ?thesis using False
      unfolding compute_expected_cost_from_existing_def Let_def mm(1) option.case prod.case m'_def [symmetric] b
        compute_expected_cost_values_def mm(2) [symmetric] by (simp add: implicit_cost_def Let_def)
  qed
qed

end
