(* ===== verification/Alex_Model.thy ===== *)
theory Alex_Model
  imports Alex_Search
begin

text \<open>
  The model nodes of ALEX, \<open>AlexModelNode\<close> of \<open>src/src/competitor/alex/src/alex_nodes.h\<close>: an array of
  pointers to children in which a child with duplication factor \<open>d\<close> stands in \<open>2 ^ d\<close> adjacent slots,
  with the choice of a child, the expansion by a power of two and the self-check. The children are
  identities of any type; their duplication factors, which the expansion changes, are a map.
\<close>

section \<open>The node and its operations\<close>

record ('p, 'd) mnode =
  mn_children :: "'p list"
  mn_model :: "'d lmodel"

text \<open>\<open>None\<close> is a read at the index -1 of a node without children.\<close>

definition get_child_node :: "('k, 'd) fpops \<Rightarrow> ('p, 'd) mnode \<Rightarrow> 'k \<Rightarrow> 'p option" where
  "get_child_node f n key = (let bucketID = min (max (lm_predict f (mn_model n) key) 0) (int (length (mn_children n)) - 1) in
     if bucketID < 0 then None else Some (mn_children n ! nat bucketID))"

text \<open>
  The loop of the expansion: the children from \<open>cur\<close> on are written to the new array and their
  duplication factors, numbers of eight bits, are raised. \<open>None\<close> is a write behind the new array.
\<close>

function expand_loop :: "'p list \<Rightarrow> nat \<Rightarrow> nat \<Rightarrow> ('p \<Rightarrow> nat) \<Rightarrow> 'p list \<Rightarrow> (('p \<Rightarrow> nat) \<times> 'p list) option" where
  "expand_loop ch lg cur dup new =
     (if cur < length ch then
        let cur_child = ch ! cur; cur_child_repeats = 2 ^ dup cur_child; ef = 2 ^ lg in
        if length new < ef * (cur + cur_child_repeats) then None
        else expand_loop ch lg (cur + cur_child_repeats) (dup(cur_child := (dup cur_child + lg) mod 256))
               (fill_keys (ef * cur) (ef * (cur + cur_child_repeats)) cur_child new)
      else Some (dup, new))"
  by auto
termination by (relation "measure (\<lambda>(ch, lg, cur, dup, new). length ch - cur)") (auto intro: diff_less_mono2)

declare expand_loop.simps [simp del]

definition mn_expand :: "('k, 'd) fpops \<Rightarrow> 'p \<Rightarrow> nat \<Rightarrow> ('p \<Rightarrow> nat) \<Rightarrow> ('p, 'd) mnode \<Rightarrow> (('p \<Rightarrow> nat) \<times> ('p, 'd) mnode \<times> nat) option" where
  "mn_expand f junk lg dup n = (let expansion_factor = 2 ^ lg; num_new_children = length (mn_children n) * expansion_factor in
     case expand_loop (mn_children n) lg 0 dup (replicate num_new_children junk) of
       None \<Rightarrow> None
     | Some (dup, new_children) \<Rightarrow>
         Some (dup, n\<lparr>mn_children := new_children, mn_model := lm_expand f (of_i f (int expansion_factor)) (mn_model n)\<rparr>, expansion_factor))"

text \<open>\<open>ceil(log2(n)) == floor(log2(n))\<close> for a positive number.\<close>

fun is_pow2 :: "nat \<Rightarrow> bool" where
  "is_pow2 n = (if n \<le> 1 then n = 1 else even n \<and> is_pow2 (n div 2))"

declare is_pow2.simps [simp del]

definition run_check :: "('p \<Rightarrow> nat) \<Rightarrow> 'p \<Rightarrow> nat \<Rightarrow> nat \<Rightarrow> bool" where
  "run_check dup cur_child cur_repeats i \<longleftrightarrow> cur_repeats = 2 ^ dup cur_child \<and> is_pow2 cur_repeats \<and> i mod cur_repeats = 0"

text \<open>The loop of the self-check over the rest of the children, with the last number of repeats.\<close>

fun mn_check_loop :: "('p \<Rightarrow> nat) \<Rightarrow> 'p \<Rightarrow> nat \<Rightarrow> nat \<Rightarrow> 'p list \<Rightarrow> nat option" where
  "mn_check_loop dup cur_child cur_repeats i [] = (if run_check dup cur_child cur_repeats i then Some cur_repeats else None)"
| "mn_check_loop dup cur_child cur_repeats i (x # xs) =
     (if x = cur_child then mn_check_loop dup cur_child (cur_repeats + 1) (i + 1) xs
      else if run_check dup cur_child cur_repeats i then mn_check_loop dup x 1 (i + 1) xs else None)"

definition mn_validate_structure :: "('k, 'd) fpops \<Rightarrow> ('p \<Rightarrow> nat) \<Rightarrow> ('p, 'd) mnode \<Rightarrow> bool" where
  "mn_validate_structure f dup n = (let ch = mn_children n; zero = of_i f 0; a = lm_a (mn_model n) in
     length ch \<noteq> 0 \<and> length ch \<noteq> 1 \<and> is_pow2 (length ch) \<and> \<not> (fle f a zero \<and> fle f zero a)
     \<and> (case mn_check_loop dup (ch ! 0) 1 1 (drop 1 ch) of None \<Rightarrow> False | Some cur_repeats \<Rightarrow> cur_repeats \<noteq> length ch))"

section \<open>Runs of equal children\<close>

fun rle :: "'p list \<Rightarrow> ('p \<times> nat) list" where
  "rle [] = []"
| "rle (x # xs) = (case rle xs of
     [] \<Rightarrow> [(x, 1)]
   | (y, k) # rs \<Rightarrow> if x = y then (y, k + 1) # rs else (x, 1) # (y, k) # rs)"

abbreviation unrle :: "('p \<times> nat) list \<Rightarrow> 'p list" where
  "unrle rs \<equiv> concat (map (\<lambda>(c, k). replicate k c) rs)"

text \<open>Runs that are not empty and differ from their neighbours.\<close>

fun proper_runs :: "('p \<times> nat) list \<Rightarrow> bool" where
  "proper_runs [] \<longleftrightarrow> True"
| "proper_runs [(c, k)] \<longleftrightarrow> 0 < k"
| "proper_runs ((c, k) # (c', k') # rs) \<longleftrightarrow> 0 < k \<and> c \<noteq> c' \<and> proper_runs ((c', k') # rs)"

lemma unrle_rle: "unrle (rle xs) = xs"
  by (induction xs) (auto split: list.splits)

lemma rle_hd: "\<exists>k rs. rle (x # xs) = (x, k) # rs"
  by (cases "rle xs") auto

lemma proper_rle: "proper_runs (rle xs)"
proof (induction xs)
  case (Cons x xs)
  then show ?case
  proof (cases "rle xs")
    case (Cons r rs)
    then show ?thesis using \<open>proper_runs (rle xs)\<close> by (cases r; cases rs) auto
  qed simp
qed simp

lemma set_unrle: "proper_runs rs \<Longrightarrow> fst ` set rs = set (unrle rs)"
  by (induction rs rule: proper_runs.induct) auto

lemma rle_run: "proper_runs ((c, k) # rs) \<Longrightarrow> rle (unrle rs) = rs \<Longrightarrow> rle (replicate k c @ unrle rs) = (c, k) # rs"
proof (induction k)
  case (Suc k)
  show ?case
  proof (cases "k = 0")
    case True
    then show ?thesis using Suc.prems by (cases rs) auto
  next
    case False
    then have "rle (replicate k c @ unrle rs) = (c, k) # rs" using Suc by (cases rs) auto
    then show ?thesis by simp
  qed
next
  case 0
  then show ?case by (cases rs) auto
qed

lemma rle_unrle: "proper_runs rs \<Longrightarrow> rle (unrle rs) = rs"
proof (induction rs)
  case (Cons r rs)
  obtain c k where r: "r = (c, k)" by (cases r)
  have "proper_runs rs" using Cons.prems by (cases rs) (auto simp: r)
  then show ?case using rle_run [of c k rs] Cons by (simp add: r)
qed simp

text \<open>Scaling every run.\<close>

abbreviation scale :: "nat \<Rightarrow> ('p \<times> nat) list \<Rightarrow> ('p \<times> nat) list" where
  "scale ef rs \<equiv> map (\<lambda>(c, k). (c, ef * k)) rs"

lemma proper_scale: "0 < ef \<Longrightarrow> proper_runs rs \<Longrightarrow> proper_runs (scale ef rs)"
  by (induction rs rule: proper_runs.induct) auto

lemma length_unrle_scale: "length (unrle (scale ef rs)) = ef * length (unrle rs)"
  by (induction rs) (auto simp: distrib_left)

lemma nth_unrle_scale:
  assumes "0 < ef"
  shows "i < length (unrle (scale ef rs)) \<Longrightarrow> unrle (scale ef rs) ! i = unrle rs ! (i div ef)"
proof (induction rs arbitrary: i)
  case (Cons r rs)
  obtain c k where r: "r = (c, k)" by (cases r)
  show ?case
  proof (cases "i < ef * k")
    case True
    then have "i div ef < k" using assms by (simp add: div_less_iff_less_mult mult.commute)
    then show ?thesis using True by (simp add: r nth_append)
  next
    case False
    then obtain j where j: "i = ef * k + j" by (metis le_Suc_ex not_less)
    then have "i div ef = k + j div ef" using assms by simp
    then show ?thesis using Cons.IH [of j] Cons.prems j by (simp add: r nth_append)
  qed
qed simp

section \<open>The self-check in terms of runs\<close>

fun runs_check :: "('p \<Rightarrow> nat) \<Rightarrow> nat \<Rightarrow> ('p \<times> nat) list \<Rightarrow> bool" where
  "runs_check dup i [] \<longleftrightarrow> True"
| "runs_check dup i ((c, k) # rs) \<longleftrightarrow> run_check dup c k (i + k) \<and> runs_check dup (i + k) rs"

lemma runs_check_dup: "runs_check dup i rs \<Longrightarrow> (c, k) \<in> set rs \<Longrightarrow> k = 2 ^ dup c"
  by (induction dup i rs rule: runs_check.induct) (auto simp: run_check_def)

lemma check_loop_repeat: "mn_check_loop dup c k i (replicate j c @ xs) = mn_check_loop dup c (k + j) (i + j) xs"
  by (induction j arbitrary: k i) auto

lemma check_loop_runs:
  "proper_runs ((c, k) # rs) \<Longrightarrow> mn_check_loop dup c k (i + k) (unrle rs)
    = (if runs_check dup i ((c, k) # rs) then Some (snd (last ((c, k) # rs))) else None)"
proof (induction rs arbitrary: c k i)
  case (Cons r rs)
  obtain c' k' where r: "r = (c', k')" by (cases r)
  have p: "0 < k'" "c' \<noteq> c" "proper_runs ((c', k') # rs)" using Cons.prems by (cases rs; auto simp: r)+
  have "unrle (r # rs) = c' # replicate (k' - 1) c' @ unrle rs" using p(1) by (cases k') (auto simp: r)
  then have "mn_check_loop dup c k (i + k) (unrle (r # rs))
      = (if run_check dup c k (i + k) then mn_check_loop dup c' k' (i + k + k') (unrle rs) else None)"
    using p(1,2) by (simp add: check_loop_repeat)
  then show ?case using Cons.IH [OF p(3), of "i + k"] by (simp add: r add.assoc)
qed simp

lemma mn_validate_runs:
  assumes "mn_children n \<noteq> []"
  shows "mn_validate_structure f dup n \<longleftrightarrow> length (mn_children n) \<noteq> 1 \<and> is_pow2 (length (mn_children n))
    \<and> \<not> (fle f (lm_a (mn_model n)) (of_i f 0) \<and> fle f (of_i f 0) (lm_a (mn_model n)))
    \<and> runs_check dup 0 (rle (mn_children n)) \<and> snd (last (rle (mn_children n))) \<noteq> length (mn_children n)"
proof -
  obtain x xs where ch: "mn_children n = x # xs" using assms by (cases "mn_children n") auto
  obtain k rs where r: "rle (x # xs) = (x, k) # rs" using rle_hd [of x xs] by blast
  have p: "proper_runs ((x, k) # rs)" using proper_rle [of "x # xs"] r by simp
  then have k: "0 < k" by (cases rs) auto
  have "x # xs = replicate k x @ unrle rs" using unrle_rle [of "x # xs"] r by simp
  then have "xs = replicate (k - 1) x @ unrle rs" using k by (cases k) auto
  then have "mn_check_loop dup x 1 1 xs = (if runs_check dup 0 ((x, k) # rs) then Some (snd (last ((x, k) # rs))) else None)"
    using check_loop_runs [OF p, of dup 0] k check_loop_repeat [of dup x 1 1 "k - 1" "unrle rs"] by simp
  then show ?thesis unfolding mn_validate_structure_def Let_def ch r by (auto split: if_splits)
qed

lemma is_pow2_double: "0 < n \<Longrightarrow> is_pow2 (2 * n) = is_pow2 n"
  by (subst is_pow2.simps) auto

lemma is_pow2_scale: "0 < n \<Longrightarrow> is_pow2 (2 ^ lg * n) = is_pow2 n"
  by (induction lg) (simp_all add: is_pow2_double mult.assoc)

lemma runs_check_scale:
  "runs_check dup i rs \<Longrightarrow> proper_runs rs \<Longrightarrow> \<forall>c\<in>fst ` set rs. dup' c = dup c + lg \<Longrightarrow> runs_check dup' (2 ^ lg * i) (scale (2 ^ lg) rs)"
proof (induction rs arbitrary: i)
  case (Cons r rs)
  obtain c k where r: "r = (c, k)" by (cases r)
  have pr: "proper_runs rs" "0 < k" using Cons.prems(2) by (cases rs; auto simp: r)+
  have "run_check dup c k (i + k)" "dup' c = dup c + lg" using Cons.prems(1,3) by (simp_all add: r)
  then have "run_check dup' c (2 ^ lg * k) (2 ^ lg * i + 2 ^ lg * k)"
    using pr(2) by (auto simp: run_check_def is_pow2_scale power_add mult.commute simp flip: distrib_left)
  then show ?case using Cons.IH [of "i + k"] Cons.prems pr(1) by (simp add: r distrib_left)
qed simp

section \<open>The expansion\<close>

lemma expand_loop_runs:
  assumes "\<forall>(c, k)\<in>set rs. k = 2 ^ dup c \<and> dup c + lg < 256" "distinct (map fst rs)" "length new = 2 ^ lg * length (ys @ unrle rs)"
  shows "\<exists>dup' new'. expand_loop (ys @ unrle rs) lg (length ys) dup new = Some (dup', new') \<and> length new' = length new
    \<and> (\<forall>c. dup' c = (if c \<in> fst ` set rs then dup c + lg else dup c))
    \<and> take (2 ^ lg * length ys) new' = take (2 ^ lg * length ys) new \<and> drop (2 ^ lg * length ys) new' = unrle (scale (2 ^ lg) rs)"
  using assms
proof (induction rs arbitrary: ys dup new)
  case Nil
  then show ?case by (simp add: expand_loop.simps)
next
  case (Cons r rs)
  obtain c k where r: "r = (c, k)" by (cases r)
  let ?ef = "2 ^ lg :: nat" and ?ch = "ys @ unrle (r # rs)"
  have k: "k = 2 ^ dup c" "dup c + lg < 256" "0 < k" using Cons.prems(1) by (auto simp: r)
  have ch: "?ch = (ys @ replicate k c) @ unrle rs" by (simp add: r)
  have nth: "?ch ! length ys = c" "length ys < length ?ch" using k(3) by (auto simp: r nth_append)
  define dup1 where "dup1 = dup(c := dup c + lg)"
  define new1 where "new1 = fill_keys (?ef * length ys) (?ef * (length ys + k)) c new"
  have len: "length new = ?ef * length ys + ?ef * k + ?ef * length (unrle rs)" using Cons.prems(3) by (simp add: r distrib_left)
  have step: "expand_loop ?ch lg (length ys) dup new = expand_loop ((ys @ replicate k c) @ unrle rs) lg (length (ys @ replicate k c)) dup1 new1"
    using nth k len by (subst expand_loop.simps) (simp add: dup1_def new1_def Let_def r distrib_left)
  have d1: "\<forall>(c, k)\<in>set rs. k = 2 ^ dup1 c \<and> dup1 c + lg < 256" using Cons.prems(1,2) by (force simp: dup1_def r)
  have l1: "length new1 = length new" by (simp add: new1_def)
  have "length new1 = ?ef * length ((ys @ replicate k c) @ unrle rs)" using len by (simp add: l1 distrib_left)
  from Cons.IH [OF d1 _ this] Cons.prems(2) obtain dup' new' where res:
    "expand_loop ((ys @ replicate k c) @ unrle rs) lg (length (ys @ replicate k c)) dup1 new1 = Some (dup', new')" "length new' = length new1"
    "\<forall>c. dup' c = (if c \<in> fst ` set rs then dup1 c + lg else dup1 c)"
    "take (?ef * length (ys @ replicate k c)) new' = take (?ef * length (ys @ replicate k c)) new1"
    "drop (?ef * length (ys @ replicate k c)) new' = unrle (scale ?ef rs)" by (auto simp: r)
  let ?a = "?ef * length ys" and ?b = "?ef * k"
  have t: "take (?a + ?b) new1 = take ?a new @ replicate ?b c"
    by (rule nth_equalityI) (use len in \<open>auto simp: new1_def nth_append distrib_left\<close>)
  have ta: "take (?a + ?b) new' = take ?a new @ replicate ?b c" using res(4) t by (simp add: distrib_left)
  have la: "length (take ?a new) = ?a" using len by simp
  have "take ?a new' = take ?a (take (?a + ?b) new')" by simp
  then have "take ?a new' = take ?a new" unfolding ta using la by simp
  moreover have "new' = (take ?a new @ replicate ?b c) @ unrle (scale ?ef rs)"
    using append_take_drop_id [of "?a + ?b" new'] ta res(5) by (simp add: distrib_left)
  then have "drop ?a new' = replicate ?b c @ unrle (scale ?ef rs)" using la by simp
  moreover have "dup' x = (if x \<in> fst ` set (r # rs) then dup x + lg else dup x)" for x
    using res(3) Cons.prems(2) by (auto simp: dup1_def r)
  ultimately show ?case using step res(1,2) l1 by (auto simp: r)
qed

text \<open>
  A node in which every child forms one run of its duplication factor is expanded by copying every
  slot; the duplication factors grow accordingly and a valid node stays valid.
\<close>

theorem mn_expand_ok:
  assumes "mn_validate_structure f dup n" and "distinct (map fst (rle (mn_children n)))" and "\<forall>c\<in>set (mn_children n). dup c + lg < 256"
  shows "\<exists>dup' n'. mn_expand f junk lg dup n = Some (dup', n', 2 ^ lg)
    \<and> length (mn_children n') = length (mn_children n) * 2 ^ lg
    \<and> (\<forall>i<length (mn_children n'). mn_children n' ! i = mn_children n ! (i div 2 ^ lg))
    \<and> (\<forall>c. dup' c = (if c \<in> set (mn_children n) then dup c + lg else dup c))
    \<and> mn_model n' = lm_expand f (of_i f (2 ^ lg)) (mn_model n)
    \<and> (\<not> (fle f (lm_a (mn_model n')) (of_i f 0) \<and> fle f (of_i f 0) (lm_a (mn_model n'))) \<longrightarrow> mn_validate_structure f dup' n')"
proof -
  let ?ch = "mn_children n" and ?rs = "rle (mn_children n)" and ?ef = "2 ^ lg :: nat"
  have ne: "?ch \<noteq> []" using assms(1) by (auto simp: mn_validate_structure_def Let_def)
  note v = assms(1) [unfolded mn_validate_runs [OF ne]]
  have mem: "fst ` set ?rs = set ?ch" using set_unrle [OF proper_rle [of ?ch]] by (simp add: unrle_rle)
  have runs: "\<forall>(c, k)\<in>set ?rs. k = 2 ^ dup c \<and> dup c + lg < 256"
    using assms(3) mem runs_check_dup [of dup 0 ?rs] v by force
  obtain dup' new' where e: "expand_loop ?ch lg 0 dup (replicate (length ?ch * ?ef) junk) = Some (dup', new')"
    "\<forall>c. dup' c = (if c \<in> set ?ch then dup c + lg else dup c)" "new' = unrle (scale ?ef ?rs)"
    using expand_loop_runs [OF runs assms(2), of "replicate (length ?ch * ?ef) junk" "[]"] by (auto simp: unrle_rle mem mult.commute)
  define n' where "n' = n\<lparr>mn_children := new', mn_model := lm_expand f (of_i f (int ?ef)) (mn_model n)\<rparr>"
  have len: "length new' = length ?ch * ?ef" unfolding e(3) length_unrle_scale unrle_rle by simp
  have rle': "rle new' = scale ?ef ?rs" unfolding e(3) by (rule rle_unrle [OF proper_scale [OF _ proper_rle]]) simp
  have "runs_check dup' (?ef * 0) (scale ?ef ?rs)"
    by (rule runs_check_scale) (use v proper_rle [of ?ch] e(2) mem in auto)
  moreover have "snd (last (scale ?ef ?rs)) = ?ef * snd (last ?rs)" using ne by (cases ?ch) (auto simp: last_map split: prod.splits list.splits)
  moreover have "is_pow2 (length new')" using v ne is_pow2_scale [of "length ?ch" lg] unfolding len by (simp add: mult.commute)
  moreover have "length new' \<noteq> 1" "new' \<noteq> []" using v ne len by auto
  ultimately have "\<not> (fle f (lm_a (mn_model n')) (of_i f 0) \<and> fle f (of_i f 0) (lm_a (mn_model n'))) \<longrightarrow> mn_validate_structure f dup' n'"
    using v by (simp add: mn_validate_runs n'_def rle' len mult.commute)
  moreover have "mn_expand f junk lg dup n = Some (dup', n', ?ef)" by (simp add: mn_expand_def Let_def e(1) n'_def)
  moreover have "new' ! i = ?ch ! (i div ?ef)" if "i < length new'" for i
    using nth_unrle_scale [of ?ef i ?rs] that unfolding e(3) [symmetric] unrle_rle by simp
  ultimately show ?thesis using e(2) len by (auto simp: n'_def)
qed

lemma get_child_nonempty:
  assumes "mn_children n \<noteq> []"
  shows "get_child_node f n key = Some (mn_children n ! min (nat (max (lm_predict f (mn_model n) key) 0)) (length (mn_children n) - 1))"
proof -
  have "0 < length (mn_children n)" using assms by simp
  then show ?thesis by (auto simp: get_child_node_def Let_def nat_diff_distrib' min_def nat_le_eq_zle)
qed

text \<open>A prediction that scales with the expansion leads to the same child.\<close>

lemma get_child_expanded:
  assumes "mn_children n \<noteq> []" "0 < ef" "length (mn_children n') = length (mn_children n) * ef"
    "\<forall>i<length (mn_children n'). mn_children n' ! i = mn_children n ! (i div ef)"
    and scaled: "max (lm_predict f (mn_model n') key) 0 div int ef = max (lm_predict f (mn_model n) key) 0"
  shows "get_child_node f n' key = get_child_node f n key"
proof -
  define p p' where "p = nat (max (lm_predict f (mn_model n) key) 0)" and "p' = nat (max (lm_predict f (mn_model n') key) 0)"
  let ?l = "length (mn_children n)"
  have "int p' div int ef = int p" using scaled by (simp add: p_def p'_def)
  then have p: "p' div ef = p" by (simp flip: of_nat_div)
  have l: "0 < ?l" using assms(1) by simp
  have "mn_children n' \<noteq> []" using assms(1-3) by auto
  then have "get_child_node f n key = Some (mn_children n ! min p (?l - 1))"
    "get_child_node f n' key = Some (mn_children n' ! min p' (?l * ef - 1))"
    using get_child_nonempty [OF assms(1), of f key] get_child_nonempty [of n' f key] by (simp_all add: p_def p'_def assms(3))
  moreover have "min p' (?l * ef - 1) div ef = min p (?l - 1)"
  proof (cases "p' \<le> ?l * ef - 1")
    case True
    moreover have "0 < ?l * ef" using l assms(2) by simp
    ultimately have "p' < ?l * ef" by linarith
    then have "p < ?l" using p div_less_iff_less_mult [OF assms(2), of p' ?l] by simp
    then show ?thesis using True p by simp
  next
    case False
    then have "?l * ef \<le> p'" by simp
    then have "?l \<le> p" using p less_eq_div_iff_mult_less_eq [OF assms(2), of ?l p'] by simp
    moreover have "(?l * ef - 1) div ef = ?l - 1"
    proof -
      have "?l * ef - 1 = (?l - 1) * ef + (ef - 1)" using l assms(2) by (cases ?l) auto
      also have "\<dots> div ef = ?l - 1 + (ef - 1) div ef" using assms(2) by (intro div_mult_self3) simp
      finally show ?thesis using assms(2) by simp
    qed
    ultimately show ?thesis using False by simp
  qed
  moreover have "0 < ?l * ef" using l assms(2) by simp
  then have "min p' (?l * ef - 1) < length (mn_children n')" unfolding assms(3) by linarith
  ultimately show ?thesis using assms(4) by simp
qed

end
