(* ===== verification/Alex_Contract.thy ===== *)
theory Alex_Contract
  imports Complex_Main Alex_Erase Alex_Cost Alex_Model
begin

text \<open>
  What a client of an ALEX data node can rely on: the contracts of search, insertion, deletion and
  loading, a simulation by a finite map for any sequence of operations, and one concrete
  configuration with exact arithmetic on which the statements are applied.
\<close>

section \<open>Simulation of a specification\<close>

text \<open>
  An implementation whose operations return a result each, related step by step to a
  specification; \<open>pre\<close> says which operations may be called.
\<close>

fun run_steps :: "('op \<Rightarrow> 's \<Rightarrow> ('s \<times> 'r) option) \<Rightarrow> 'op list \<Rightarrow> 's \<Rightarrow> ('s \<times> 'r list) option" where
  "run_steps step [] s = Some (s, [])"
| "run_steps step (x # xs) s = (case step x s of
     None \<Rightarrow> None
   | Some (s, r) \<Rightarrow> map_option (\<lambda>(s, rs). (s, r # rs)) (run_steps step xs s))"

fun spec_run :: "('op \<Rightarrow> 'r \<Rightarrow> 'a \<Rightarrow> 'a \<Rightarrow> bool) \<Rightarrow> 'op list \<Rightarrow> 'r list \<Rightarrow> 'a \<Rightarrow> 'a \<Rightarrow> bool" where
  "spec_run spec [] [] a a' \<longleftrightarrow> a' = a"
| "spec_run spec (x # xs) (r # rs) a a' \<longleftrightarrow> (\<exists>b. spec x r a b \<and> spec_run spec xs rs b a')"
| "spec_run spec _ _ a a' \<longleftrightarrow> False"

locale simulation =
  fixes inv :: "'s \<Rightarrow> bool"
    and abs :: "'s \<Rightarrow> 'a"
    and step :: "'op \<Rightarrow> 's \<Rightarrow> ('s \<times> 'r) option"
    and pre :: "'op \<Rightarrow> bool"
    and spec :: "'op \<Rightarrow> 'r \<Rightarrow> 'a \<Rightarrow> 'a \<Rightarrow> bool"
  assumes sim: "inv s \<Longrightarrow> pre x \<Longrightarrow> \<exists>s' r. step x s = Some (s', r) \<and> inv s' \<and> spec x r (abs s) (abs s')"
begin

lemma run_refines:
  "inv s \<Longrightarrow> \<forall>x\<in>set xs. pre x \<Longrightarrow>
    \<exists>s' rs. run_steps step xs s = Some (s', rs) \<and> inv s' \<and> spec_run spec xs rs (abs s) (abs s')"
proof (induction xs arbitrary: s)
  case (Cons x xs)
  obtain s1 r where one: "step x s = Some (s1, r)" "inv s1" "spec x r (abs s) (abs s1)" using sim [of s x] Cons.prems by auto
  obtain s' rs where "run_steps step xs s1 = Some (s', rs)" "inv s'" "spec_run spec xs rs (abs s1) (abs s')"
    using Cons.IH [OF one(2)] Cons.prems(2) by auto
  then show ?case using one by (intro exI [of _ s'] exI [of _ "r # rs"]) auto
qed simp

end

section \<open>A data node simulates a finite map\<close>

datatype ('k, 'v) aop = AInsert 'k 'v | AErase 'k | AEraseRange 'k 'k bool | AFind 'k

text \<open>An operation on a node with the number it returns: a flag, a count or a position.\<close>

fun alex_apply :: "('k::linorder, 'v, 'd) acfg \<Rightarrow> ('k, 'v) aop \<Rightarrow> ('k, 'v, 'd) anode \<Rightarrow> (('k, 'v, 'd) anode \<times> int) option" where
  "alex_apply c (AInsert k v) n = map_option (\<lambda>(n, fl, q). (n, fl)) (an_insert c k v n)"
| "alex_apply c (AErase k) n = map_option (\<lambda>(n, i). (n, int i)) (an_erase c k n)"
| "alex_apply c (AEraseRange a b incl) n = map_option (\<lambda>(n, i). (n, int i)) (an_erase_range c a b incl n)"
| "alex_apply c (AFind k) n = Some (case find_key c n k of (n, r) \<Rightarrow> (n, case r of None \<Rightarrow> -1 | Some p \<Rightarrow> int p))"

text \<open>
  The same on a finite map. An insertion may also be refused, with a flag from 1 to 3, when the
  node should be expanded or split by the tree first.
\<close>

fun map_spec :: "('k::linorder, 'v) aop \<Rightarrow> int \<Rightarrow> ('k \<rightharpoonup> 'v) \<Rightarrow> ('k \<rightharpoonup> 'v) \<Rightarrow> bool" where
  "map_spec (AInsert k v) r m m' \<longleftrightarrow> r \<in> {1, 2, 3} \<and> m' = m \<or> r = -1 \<and> k \<in> dom m \<and> m' = m \<or> r = 0 \<and> k \<notin> dom m \<and> m' = m(k \<mapsto> v)"
| "map_spec (AErase k) r m m' \<longleftrightarrow> r = (if k \<in> dom m then 1 else 0) \<and> m' = m(k := None)"
| "map_spec (AEraseRange a b incl) r m m' \<longleftrightarrow> r = int (card {k \<in> dom m. in_erase_range a b incl k})
     \<and> m' = m |` {k. \<not> in_erase_range a b incl k}"
| "map_spec (AFind k) r m m' \<longleftrightarrow> (0 \<le> r \<longleftrightarrow> k \<in> dom m) \<and> m' = m"

fun op_pre :: "'k::linorder \<Rightarrow> ('k, 'v) aop \<Rightarrow> bool" where
  "op_pre sent (AInsert k v) \<longleftrightarrow> k < sent"
| "op_pre sent (AFind k) \<longleftrightarrow> k < sent"
| "op_pre sent _ \<longleftrightarrow> True"

lemma map_of_filter_keys: "map_of (filter (\<lambda>x. P (fst x)) xs) = map_of xs |` {k. P k}"
  by (induction xs) (auto simp: restrict_map_def fun_eq_iff)

lemma dom_entries: "dom (map_of (an_entries n)) = fst ` set (an_entries n)"
  by (rule dom_map_of_conv_image_fst)

lemma length_filter_card:
  assumes "skeys xs"
  shows "length (filter (\<lambda>x. P (fst x)) xs) = card {k \<in> fst ` set xs. P k}"
proof -
  have "{k \<in> fst ` set xs. P k} = set (map fst (filter (\<lambda>x. P (fst x)) xs))" by auto
  moreover have "distinct (map fst (filter (\<lambda>x. P (fst x)) xs))"
    using skeys_distinct [OF assms] by (simp add: distinct_map_filter)
  ultimately show ?thesis by (metis distinct_card length_map)
qed

lemma an_ok_skeys: "an_ok c n \<Longrightarrow> \<not> adup c \<Longrightarrow> skeys (an_entries n)"
  by (simp add: an_ok_def)

lemma insert_map:
  assumes "insert_done c k v n n' q" "k \<notin> fst ` set (an_entries n)"
  shows "map_of (an_entries n') = (map_of (an_entries n))(k \<mapsto> v)"
proof -
  obtain xs ys where x: "an_entries n = xs @ ys" "\<forall>x\<in>set xs. fst x \<le> k" "\<forall>y\<in>set ys. k < fst y" "an_entries n' = xs @ (k, v) # ys"
    using assms(1) by (auto simp: insert_done_def)
  then have "\<forall>x\<in>set xs. fst x < k" using assms(2) by (auto simp: le_less)
  then show ?thesis using x map_of_skeys_insert by metis
qed

definition alex_inv :: "('k::linorder, 'v, 'd) acfg \<Rightarrow> ('k, 'v, 'd) anode \<Rightarrow> bool" where
  "alex_inv c n \<longleftrightarrow> fp_ok (fp c) \<and> \<not> adup c \<and> an_ok c n"

lemma alex_apply_sim:
  assumes "alex_inv c n" "op_pre (kEndSentinel c) x"
  shows "\<exists>n' r. alex_apply c x n = Some (n', r) \<and> alex_inv c n' \<and> map_spec x r (map_of (an_entries n)) (map_of (an_entries n'))"
proof -
  have a: "fp_ok (fp c)" "\<not> adup c" "an_ok c n" using assms(1) by (simp_all add: alex_inv_def)
  note sk = an_ok_skeys [OF a(3,2)]
  show ?thesis
  proof (cases x)
    case (AInsert k v)
    then have "k < kEndSentinel c" using assms(2) by simp
    from an_insert_ok [OF a(1,3) this, of v] obtain n' fl q where "an_insert c k v n = Some (n', fl, q)" "an_ok c n'"
      "fl \<in> {1, 2, 3} \<and> n' = n \<or> fl = -1 \<and> k \<in> fst ` set (an_entries n) \<and> an_entries n' = an_entries n
       \<or> fl = 0 \<and> k \<notin> fst ` set (an_entries n) \<and> insert_done c k v n n' (nat q)" using a(2) by blast
    then show ?thesis using AInsert a insert_map [of c k v n n'] dom_entries [of n] by (auto simp: alex_inv_def)
  next
    case (AErase k)
    obtain n' where e: "an_erase c k n = Some (n', length (filter (\<lambda>x. fst x = k) (an_entries n)))" "an_ok c n'"
      "an_entries n' = filter (\<lambda>x. fst x \<noteq> k) (an_entries n)" using an_erase_ok [OF a(1,3), of k] by blast
    have "{j \<in> fst ` set (an_entries n). j = k} = (if k \<in> fst ` set (an_entries n) then {k} else {})" by auto
    then have "length (filter (\<lambda>x. fst x = k) (an_entries n)) = (if k \<in> dom (map_of (an_entries n)) then 1 else 0)"
      using length_filter_card [OF sk, of "\<lambda>j. j = k"] unfolding dom_entries by simp
    moreover have "map_of (an_entries n') = (map_of (an_entries n))(k := None)"
      unfolding e(3) using map_of_filter_keys [of "\<lambda>j. j \<noteq> k" "an_entries n"] by (auto simp: restrict_map_def fun_eq_iff)
    ultimately show ?thesis using AErase a e by (simp add: alex_inv_def)
  next
    case (AEraseRange lo hi incl)
    obtain n' where e: "an_erase_range c lo hi incl n = Some (n', length (filter (\<lambda>x. in_erase_range lo hi incl (fst x)) (an_entries n)))"
      "an_ok c n'" "an_entries n' = filter (\<lambda>x. \<not> in_erase_range lo hi incl (fst x)) (an_entries n)"
      using an_erase_range_ok [OF a(1,3)] by blast
    then show ?thesis using AEraseRange a length_filter_card [OF sk] unfolding dom_entries [symmetric]
      by (simp add: alex_inv_def map_of_filter_keys [of "\<lambda>k. \<not> in_erase_range lo hi incl k"])
  next
    case (AFind k)
    then have k: "k < kEndSentinel c" using assms(2) by simp
    obtain n' where "fst (find_key c n k) = n'" "an_ok c n'" "an_entries n' = an_entries n"
      "snd (find_key c n k) = None \<longleftrightarrow> k \<notin> fst ` set (an_entries n)" by (rule find_key_ok [OF a(3) k])
    then show ?thesis using AFind a dom_entries [of n]
      by (cases "find_key c n k"; cases "snd (find_key c n k)") (auto simp: alex_inv_def)
  qed
qed

interpretation alex: simulation "alex_inv c" "\<lambda>n. map_of (an_entries n)" "alex_apply c" "op_pre (kEndSentinel c)" map_spec for c
  by unfold_locales (rule alex_apply_sim)

section \<open>A concrete configuration\<close>

text \<open>Integer keys and exact rational arithmetic, with a logarithm rounded down to an integer.\<close>

definition exact_arith :: "rat arith" where
  "exact_arith = \<lparr>fadd = (+), fsub = (-), fmul = (*), fdiv = (/), fneg = uminus\<rparr>"

fun bit_length :: "nat \<Rightarrow> nat" where
  "bit_length n = (if n \<le> 1 then 0 else bit_length (n div 2) + 1)"

definition int_log2 :: "int \<Rightarrow> rat" where
  "int_log2 i = of_nat (bit_length (nat i))"

definition exact_ops :: "(int, rat) fpops" where
  "exact_ops = \<lparr>dbl = exact_arith, ldbl = exact_arith, flt = (<), fle = (\<le>), of_i = of_int, of_key = of_int,
     to_i = (\<lambda>x. if x < 0 then \<lceil>x\<rceil> else \<lfloor>x\<rfloor>), to_double = (\<lambda>x. x), flit = (\<lambda>p q. of_int p / of_int q),
     fmax_value = 1000000, flowest = -1000000, key_sub = (-), flog2 = int_log2\<rparr>"

definition ex_cfg :: "(int, int, rat) acfg" where
  "ex_cfg = \<lparr>fp = exact_ops, kEndSentinel = 1000, kLowest = -1000, adup = False, junk_key = 0, junk_payload = 0\<rparr>"

definition ex_entries :: "(int, int) kvs" where
  "ex_entries = [(1, 10), (4, 40), (9, 90)]"

definition ex_node :: "(int, int, rat) anode" where
  "ex_node = the (an_bulk_load ex_cfg ex_entries None (an_new ex_cfg 100))"

lemma exact_fp_ok: "fp_ok (fp ex_cfg)"
  by (auto simp: ex_cfg_def exact_ops_def fp_ok_def)

lemma ex_loadable: "loadable ex_cfg ex_entries"
  by (simp add: loadable_def ex_entries_def ex_cfg_def)

lemma ex_node_ok: "an_ok ex_cfg ex_node" "an_entries ex_node = ex_entries"
  using an_bulk_load_ok [OF exact_fp_ok ex_loadable, of None "an_new ex_cfg 100"] by (auto simp: ex_node_def)


text \<open>A node of 64 slots: 45 keys at density 0.7, packed to the right by the model they are loaded with.\<close>

definition full_entries :: "(int, int) kvs" where
  "full_entries = map (\<lambda>i. (int i, 0)) [1..<46]"

definition full_node :: "(int, int, rat) anode" where
  "full_node = the (an_bulk_load ex_cfg full_entries (Some \<lparr>lm_a = 0, lm_b = 1000\<rparr>) (an_new ex_cfg 100))"

lemma full_node_ok: "an_ok ex_cfg full_node" "an_entries full_node = full_entries"
proof -
  have "loadable ex_cfg full_entries" by code_simp
  from an_bulk_load_ok [OF exact_fp_ok this, of "Some \<lparr>lm_a = 0, lm_b = 1000\<rparr>" "an_new ex_cfg 100"]
  show "an_ok ex_cfg full_node" "an_entries full_node = full_entries" by (auto simp: full_node_def)
qed

lemma full_node_last: "data_capacity full_node = 64 \<and> key_slots full_node ! 63 = 45"
  by code_simp

section \<open>Contracts\<close>

text \<open>
  C9: the exponential search of a data node is correct for every predicted position inside a sorted
  key array: the upper-bound search returns the number of keys at most the key, the lower-bound search
  the number of keys below it, and when the doubling loop runs \<open>e > 0\<close> times the prediction was at
  least \<open>2 ^ (e - 1)\<close> positions off, so the loop ends after logarithmically many steps in the error.
\<close>

theorem alex_exponential_search:
  assumes "sorted ks" and "m < length ks"
  shows "fst (exponential_search_upper_bound ks m key) = rank_le key ks
    \<and> fst (exponential_search_lower_bound ks m key) = rank_less key ks
    \<and> (let e = snd (exponential_search_upper_bound ks m key) in e = 0 \<or> 2 ^ (e - 1) \<le> \<bar>int m - int (rank_le key ks)\<bar>)
    \<and> (let e = snd (exponential_search_lower_bound ks m key) in e = 0 \<or> 2 ^ (e - 1) \<le> \<bar>int m - int (rank_less key ks)\<bar>)"
  using exponential_upper [OF assms] exponential_lower [OF assms] exponential_upper_iterations [OF assms refl]
    exponential_lower_iterations [OF assms refl] by (simp add: Let_def)

theorem alex_exponential_search_witness:
  "exponential_search_upper_bound [1, 4, 9, 16, 25, 36 :: int] 0 20 = (4, 2)
   \<and> fst (exponential_search_upper_bound [1, 4, 9, 16, 25, 36 :: int] 0 20) = rank_le 20 [1, 4, 9, 16, 25, 36 :: int]"
proof -
  have "exponential_search_upper_bound [1, 4, 9, 16, 25, 36 :: int] 0 20 = (4, 2)" by code_simp
  moreover have "sorted [1, 4, 9, 16, 25, 36 :: int]" by simp
  ultimately show ?thesis using alex_exponential_search [of "[1, 4, 9, 16, 25, 36 :: int]" 0 20] by simp
qed

text \<open>
  C17: a lookup in a data node that satisfies its invariant does not depend on the model: it returns
  a filled position that holds the key, or nothing exactly if no entry has the key; apart from the
  statistics the node stays as it is.
\<close>

theorem alex_find_key:
  assumes "an_ok c n" and "key < kEndSentinel c"
  shows "case find_key c n key of (n', r) \<Rightarrow> an_ok c n' \<and> an_entries n' = an_entries n
    \<and> (case r of None \<Rightarrow> key \<notin> fst ` set (an_entries n)
       | Some p \<Rightarrow> p < data_capacity n \<and> an_exists n p \<and> key_slots n ! p = key \<and> (key, payload_slots n ! p) \<in> set (an_entries n))"
proof (rule find_key_ok [OF assms])
  fix n' assume "fst (find_key c n key) = n'" "an_ok c n'" "an_entries n' = an_entries n"
    "snd (find_key c n key) = None \<longleftrightarrow> key \<notin> fst ` set (an_entries n)"
    "\<And>p. snd (find_key c n key) = Some p \<Longrightarrow> p < data_capacity n \<and> an_exists n p \<and> key_slots n ! p = key"
  moreover have "(key_slots n ! p, payload_slots n ! p) \<in> set (an_entries n)" if "p < data_capacity n" "an_exists n p" for p
    using that by (auto simp: set_ents)
  ultimately show ?thesis by (cases "find_key c n key") (fastforce split: option.splits)
qed

theorem alex_find_key_witness:
  "snd (find_key ex_cfg ex_node 4) = Some 1 \<and> (4, payload_slots ex_node ! 1) \<in> set ex_entries
   \<and> snd (find_key ex_cfg ex_node 5) = None"
proof -
  have 1: "snd (find_key ex_cfg ex_node 4) = Some 1" "snd (find_key ex_cfg ex_node 5) = None" by code_simp+
  have 2: "4 < kEndSentinel ex_cfg" by (simp add: ex_cfg_def)
  show ?thesis using alex_find_key [OF ex_node_ok(1) 2] 1 ex_node_ok(2) by (cases "find_key ex_cfg ex_node 4") auto
qed

text \<open>
  C6: an insertion into a data node always returns, keeps the invariant, and does one of three
  things: it refuses with a flag from 1 to 3 and leaves the node unchanged; it refuses with -1
  because duplicates are not allowed and returns a position of the key; or it returns 0 and
  the entries have the new one added behind those with keys at most the key, at the returned position.
\<close>

theorem alex_insert_contract:
  assumes "fp_ok (fp c)" and "an_ok c n" and "key < kEndSentinel c"
  shows "case an_insert c key v n of
      None \<Rightarrow> False
    | Some (n', fl, q) \<Rightarrow> an_ok c n'
      \<and> (if fl \<in> {1, 2, 3} then n' = n \<and> q = -1
         else if \<not> adup c \<and> key \<in> fst ` set (an_entries n)
         then fl = -1 \<and> an_entries n' = an_entries n \<and> 0 \<le> q \<and> nat q < data_capacity n' \<and> an_exists n' (nat q) \<and> key_slots n' ! nat q = key
         else fl = 0 \<and> 0 \<le> q \<and> nat q < data_capacity n' \<and> an_exists n' (nat q) \<and> key_slots n' ! nat q = key
           \<and> payload_slots n' ! nat q = v
           \<and> (\<exists>xs ys. an_entries n = xs @ ys \<and> (\<forall>x\<in>set xs. fst x \<le> key) \<and> (\<forall>y\<in>set ys. key < fst y)
                \<and> an_entries n' = xs @ (key, v) # ys))"
proof -
  obtain n' fl q where r: "an_insert c key v n = Some (n', fl, q)" "an_ok c n'"
    "fl \<in> {1, 2, 3} \<and> n' = n \<and> q = -1
     \<or> fl = -1 \<and> \<not> adup c \<and> key \<in> fst ` set (an_entries n) \<and> an_entries n' = an_entries n
         \<and> 0 \<le> q \<and> nat q < data_capacity n' \<and> an_exists n' (nat q) \<and> key_slots n' ! nat q = key
     \<or> fl = 0 \<and> (adup c \<or> key \<notin> fst ` set (an_entries n)) \<and> 0 \<le> q \<and> insert_done c key v n n' (nat q)"
    using an_insert_ok [OF assms] by metis
  from r(3) consider "fl \<in> {1, 2, 3} \<and> n' = n \<and> q = -1"
    | "fl = -1 \<and> \<not> adup c \<and> key \<in> fst ` set (an_entries n) \<and> an_entries n' = an_entries n
         \<and> 0 \<le> q \<and> nat q < data_capacity n' \<and> an_exists n' (nat q) \<and> key_slots n' ! nat q = key"
    | "fl = 0" "\<not> (\<not> adup c \<and> key \<in> fst ` set (an_entries n))" "0 \<le> q" "insert_done c key v n n' (nat q)" by blast
  then show ?thesis
  proof cases
    case 3
    then show ?thesis using r(1,2) unfolding insert_done_def by simp
  qed (use r(1,2) in simp_all)
qed

theorem alex_insert_contract_witness:
  "\<exists>n' q. an_insert ex_cfg 5 50 ex_node = Some (n', 0, q) \<and> an_ok ex_cfg n' \<and> an_entries n' = [(1, 10), (4, 40), (5, 50), (9, 90)]"
proof -
  have 1: "map_option (\<lambda>(n, fl, q). (an_entries n, fl)) (an_insert ex_cfg 5 50 ex_node) = Some ([(1, 10), (4, 40), (5, 50), (9, 90)], 0)"
    by code_simp
  have 2: "5 < kEndSentinel ex_cfg" by (simp add: ex_cfg_def)
  show ?thesis using alex_insert_contract [OF exact_fp_ok ex_node_ok(1) 2, of 50] 1 by auto
qed

text \<open>
  C19: an insertion makes progress: if the node's cost is not catastrophic and, when it has reached its
  expansion threshold, its cost has not deviated and the slot limit leaves room, the insertion ends
  with 0 or -1, expanding the node if it has to, and a lookup then finds the key.
\<close>

theorem alex_insert_progress:
  assumes "fp_ok (fp c)" and "an_ok c n" and "key < kEndSentinel c" and "\<not> catastrophic_cost c n"
    and "fle (fp c) (expansion_threshold n) (of_i (fp c) (int (num_keys n))) \<Longrightarrow> \<not> significant_cost_deviation c n
      \<and> \<not> flt (fp c) (fmul (dbl (fp c)) (of_i (fp c) (int (max_slots n))) (kMinDensity c)) (of_i (fp c) (int (num_keys n)))"
  shows "\<exists>n' fl q p. an_insert c key v n = Some (n', fl, q) \<and> fl \<in> {0, -1} \<and> snd (find_key c n' key) = Some p"
proof -
  obtain n' fl q where r: "an_insert c key v n = Some (n', fl, q)" "an_ok c n'"
    "fl \<in> {1, 2, 3} \<or> fl = -1 \<and> key \<in> fst ` set (an_entries n) \<and> an_entries n' = an_entries n
     \<or> fl = 0 \<and> insert_done c key v n n' (nat q)"
    using an_insert_ok [OF assms(1-3), of v] by blast
  have fl: "fl \<notin> {1, 2, 3}" by (rule an_insert_accepts [OF assms(4,5) r(1)])
  then have "key \<in> fst ` set (an_entries n')" using r(3) by (auto simp: insert_done_def image_Un)
  moreover have "snd (find_key c n' key) = None \<longleftrightarrow> key \<notin> fst ` set (an_entries n')"
    by (rule find_key_ok [OF r(2) assms(3)])
  ultimately show ?thesis using r fl by auto
qed

theorem alex_insert_progress_witness:
  "\<exists>n' fl q p. an_insert ex_cfg 5 50 ex_node = Some (n', fl, q) \<and> fl \<in> {0, -1} \<and> snd (find_key ex_cfg n' 5) = Some p"
proof (rule alex_insert_progress [OF exact_fp_ok ex_node_ok(1)])
  show "5 < kEndSentinel ex_cfg" by (simp add: ex_cfg_def)
  show "\<not> catastrophic_cost ex_cfg ex_node" by code_simp
  have "\<not> significant_cost_deviation ex_cfg ex_node" by code_simp
  moreover have "\<not> flt (fp ex_cfg) (fmul (dbl (fp ex_cfg)) (of_i (fp ex_cfg) (int (max_slots ex_node))) (kMinDensity ex_cfg))
      (of_i (fp ex_cfg) (int (num_keys ex_node)))" by code_simp
  ultimately show "\<not> significant_cost_deviation ex_cfg ex_node
      \<and> \<not> flt (fp ex_cfg) (fmul (dbl (fp ex_cfg)) (of_i (fp ex_cfg) (int (max_slots ex_node))) (kMinDensity ex_cfg))
      (of_i (fp ex_cfg) (int (num_keys ex_node)))" by blast
qed

text \<open>
  C15: \<open>erase\<close> removes exactly the entries of the key and \<open>erase_range\<close> exactly those of the range, with
  either kind of upper end; both return the number of removed entries and keep the invariant, also
  when the node is contracted afterwards.
\<close>

theorem alex_erase_contract:
  assumes "fp_ok (fp c)" and "an_ok c n"
  shows "\<exists>n1 n2. an_erase c key n = Some (n1, length (filter (\<lambda>x. fst x = key) (an_entries n)))
    \<and> an_ok c n1 \<and> an_entries n1 = filter (\<lambda>x. fst x \<noteq> key) (an_entries n)
    \<and> an_erase_range c a b inclusive n = Some (n2, length (filter (\<lambda>x. in_erase_range a b inclusive (fst x)) (an_entries n)))
    \<and> an_ok c n2 \<and> an_entries n2 = filter (\<lambda>x. \<not> in_erase_range a b inclusive (fst x)) (an_entries n)"
  using an_erase_ok [OF assms, of key] an_erase_range_ok [OF assms, of a b inclusive] by blast

theorem alex_erase_contract_witness:
  "\<exists>n1 n2. an_erase ex_cfg 4 ex_node = Some (n1, 1) \<and> an_entries n1 = [(1, 10), (9, 90)]
    \<and> an_erase_range ex_cfg 2 9 True ex_node = Some (n2, 2) \<and> an_entries n2 = [(1, 10)]"
  using alex_erase_contract [OF exact_fp_ok ex_node_ok(1), of 4 2 9 True]
  unfolding ex_node_ok(2) by (auto simp: ex_entries_def in_erase_range_def)

text \<open>
  C23: \<open>find_lower\<close> and \<open>erase_one\<close> read behind the bitmap exactly if the capacity is a multiple of 64 and the
  last slot holds a key smaller than the one searched for; otherwise \<open>erase_one\<close> removes the first
  entry of the key and returns 1, or returns 0 if the key is not there.
\<close>

theorem alex_erase_one_bounds:
  assumes "fp_ok (fp c)" and "an_ok c n" and "key < kEndSentinel c"
  shows "(an_find_lower c n key = None \<longleftrightarrow> reads_behind n key)
    \<and> (if reads_behind n key then an_erase_one c key n = None
       else if key \<in> fst ` set (an_entries n)
       then \<exists>n' xs v ys. an_erase_one c key n = Some (n', 1) \<and> an_ok c n' \<and> an_entries n = xs @ (key, v) # ys
         \<and> (\<forall>x\<in>set xs. fst x < key) \<and> an_entries n' = xs @ ys
       else \<exists>n'. an_erase_one c key n = Some (n', 0) \<and> an_ok c n' \<and> an_entries n' = an_entries n)"
  by (rule conjI [OF _ an_erase_one_ok [OF assms]], cases rule: an_find_lower_ok [OF assms(2), of key]) simp_all

theorem alex_erase_one_bounds_witness:
  "an_find_lower ex_cfg full_node 46 = None \<and> an_erase_one ex_cfg 46 full_node = None
   \<and> (\<exists>n'. an_erase_one ex_cfg 4 ex_node = Some (n', 1) \<and> an_entries n' = [(1, 10), (9, 90)])"
proof -
  have "reads_behind full_node 46" using full_node_last by (simp add: reads_behind_def)
  moreover have "46 < kEndSentinel ex_cfg" "4 < kEndSentinel ex_cfg" by (simp_all add: ex_cfg_def)
  moreover have "map_option (\<lambda>(n, k). (an_entries n, k)) (an_erase_one ex_cfg 4 ex_node) = Some ([(1, 10), (9, 90)], 1)" by code_simp
  ultimately show ?thesis using alex_erase_one_bounds [OF exact_fp_ok full_node_ok(1), of 46]
      alex_erase_one_bounds [OF exact_fp_ok ex_node_ok(1), of 4] by auto
qed

text \<open>
  C11: on a bitmap with a gap both versions of \<open>closest_gap\<close> return a gap inside the array with no other
  gap between it and the position, which is what shifting the keys in between needs; the plain
  version from a filled position or the end of the array.
\<close>

theorem alex_closest_gap:
  assumes "bitmap_ok bm cap" and "j < cap" and "\<not> check_exists bm j"
  shows "(\<exists>g<cap. closest_gap bm cap pos = int g \<and> \<not> check_exists bm g
      \<and> (\<forall>i<cap. pos \<le> i \<and> i < g \<or> g < i \<and> i \<le> pos \<longrightarrow> check_exists bm i))
    \<and> (pos \<le> cap \<and> (pos < cap \<longrightarrow> check_exists bm pos) \<longrightarrow>
       (\<exists>g<cap. slow_closest_gap bm cap pos = int g \<and> \<not> check_exists bm g
         \<and> (\<forall>i<cap. pos \<le> i \<and> i < g \<or> g < i \<and> i \<le> pos \<longrightarrow> check_exists bm i)))"
proof -
  have clean: "\<exists>g<cap. x = int g \<and> \<not> check_exists bm g \<and> (\<forall>i<cap. pos \<le> i \<and> i < g \<or> g < i \<and> i \<le> pos \<longrightarrow> check_exists bm i)"
    if "gap_ok bm cap (min pos (cap - 1)) x" for x
    using that by (rule gap_okE) (auto intro!: exI [of _ "nat x"])
  show ?thesis using clean [OF closest_gap_spec [OF assms]] clean [OF slow_closest_gap_spec [OF assms(2,3)]] by blast
qed

theorem alex_closest_gap_witness:
  "closest_gap [0xFFFFFFFFFFFFFF0F, 0x3F] 70 9 = 7 \<and> slow_closest_gap [0xFFFFFFFFFFFFFF0F, 0x3F] 70 9 = 7
   \<and> (\<exists>g<70. closest_gap [0xFFFFFFFFFFFFFF0F, 0x3F] 70 9 = int g \<and> \<not> check_exists [0xFFFFFFFFFFFFFF0F, 0x3F] g)"
proof -
  have 1: "closest_gap [0xFFFFFFFFFFFFFF0F, 0x3F] 70 9 = 7" "slow_closest_gap [0xFFFFFFFFFFFFFF0F, 0x3F] 70 9 = 7"
    "\<not> check_exists [0xFFFFFFFFFFFFFF0F, 0x3F] 5" by code_simp+
  have "bitmap_ok [0xFFFFFFFFFFFFFF0F, 0x3F] 70" by code_simp
  from alex_closest_gap [OF this, of 5 9] 1 show ?thesis by auto
qed

text \<open>
  C13: \<open>bulk_load\<close> of pairs in key order with any model, trained or given, and walking the iterator over the
  node gives the pairs back; copying all of the node into another one by \<open>bulk_load_from_existing\<close> and
  resizing it to any density keep that.
\<close>

theorem alex_bulk_load_roundtrip:
  assumes "fp_ok (fp c)" and "loadable c xs"
  shows "\<exists>n1 n2 n3. an_bulk_load c xs m n = Some n1 \<and> bulk_load_from_existing c n1 0 (data_capacity n1) keep_left keep_right None n0 = Some n2
    \<and> an_resize c d force keep_left keep_right n2 = Some n3 \<and> an_ok c n1 \<and> an_ok c n2 \<and> an_ok c n3
    \<and> (\<forall>x\<in>{n1, n2, n3}. map_option (map snd) (an_items x 0) = Some xs)"
proof -
  obtain n1 where n1: "an_bulk_load c xs m n = Some n1" "an_ok c n1" "an_entries n1 = xs" using an_bulk_load_ok [OF assms] by blast
  obtain n2 where n2: "bulk_load_from_existing c n1 0 (data_capacity n1) keep_left keep_right None n0 = Some n2" "an_ok c n2" "an_entries n2 = xs"
    using bulk_load_from_existing_ok [OF assms(1) n1(2) an_ok_cap [OF n1(2)] le0 order_refl refl, of None keep_left keep_right n0] n1(3) by auto
  obtain n3 where n3: "an_resize c d force keep_left keep_right n2 = Some n3" "an_ok c n3" "an_entries n3 = xs"
    using an_resize_ok [OF assms(1) n2(2)] n2(3) by metis
  have "map_option (map snd) (an_items x 0) = Some (an_entries x)" if "an_ok c x" for x
    using an_items_ok [OF that an_ok_cap [OF that]] by (simp add: ents_def)
  then have "map_option (map snd) (an_items n1 0) = Some xs" "map_option (map snd) (an_items n2 0) = Some xs"
    "map_option (map snd) (an_items n3 0) = Some xs" using n1(2,3) n2(2,3) n3(2,3) by metis+
  then show ?thesis using n1(1,2) n2(1,2) n3(1,2) by blast
qed

theorem alex_bulk_load_roundtrip_witness:
  "\<exists>n1 n2. an_bulk_load ex_cfg ex_entries None (an_new ex_cfg 100) = Some n1 \<and> map_option (map snd) (an_items n1 0) = Some ex_entries
    \<and> bulk_load_from_existing ex_cfg n1 0 (data_capacity n1) False True None (an_new ex_cfg 100) = Some n2
    \<and> map_option (map snd) (an_items n2 0) = Some ex_entries"
  using alex_bulk_load_roundtrip [OF exact_fp_ok ex_loadable, of None "an_new ex_cfg 100" False True "an_new ex_cfg 100"] by blast



section \<open>Costs\<close>

text \<open>
  C21: the expected cost of a data node is known before it is built. The cost that \<open>compute_expected_cost\<close>
  finds for an array by simulating the placement of its keys, and the statistics it writes, are
  those that the node has which \<open>bulk_load\<close> builds with the same model; without inserts the shifts are
  not counted, which the weight 0 of the shifts makes irrelevant.
\<close>

theorem alex_cost_of_built_node:
  assumes "fp_ok (fp c)" and "loadable c xs" and "xs \<noteq> []"
  shows "\<exists>n' n'' its shs. an_bulk_load c xs m n = Some n'
    \<and> compute_expected_cost c share n' = Some (n'', expected_cost (fp c) its shs share)
    \<and> its = expected_avg_exp_search_iterations n'' \<and> shs = expected_avg_shifts n''
    \<and> compute_expected_cost_values c xs (kInitDensity c) share m =
        (if is_zero (fp c) share then (expected_cost (fp c) its (of_i (fp c) 0) share, Some (its, of_i (fp c) 0))
         else (expected_cost (fp c) its shs share, Some (its, shs)))"
  by (rule cost_of_built_node [OF assms])

theorem alex_cost_of_built_node_witness:
  "\<exists>n''. compute_expected_cost ex_cfg (1 / 2) ex_node = Some (n'', fst (compute_expected_cost_values ex_cfg ex_entries (kInitDensity ex_cfg) (1 / 2) None))"
proof -
  have "\<not> is_zero (fp ex_cfg) (1 / 2)" by code_simp
  moreover have "ex_entries \<noteq> []" by (simp add: ex_entries_def)
  ultimately show ?thesis using alex_cost_of_built_node [OF exact_fp_ok ex_loadable, of None "an_new ex_cfg 100" "1 / 2"]
    by (auto simp: ex_node_def)
qed

text \<open>
  C40: the expected cost of a node built from a part of an existing one is the cost of a node built
  from the array of the entries in that part, for every range, density, share of inserts and
  model, and no read leaves the arrays.
\<close>

theorem alex_cost_from_existing:
  assumes "an_ok c node" and "left < data_capacity node" and "left \<le> right" and "right \<le> data_capacity node"
  shows "compute_expected_cost_from_existing c node left right density share m
    = Some (compute_expected_cost_values c (ents (bitmap node) (key_slots node) (payload_slots node) left right) density share m)"
  by (rule cost_from_existing [OF assms refl])

theorem alex_cost_from_existing_witness:
  "compute_expected_cost_from_existing ex_cfg ex_node 0 (data_capacity ex_node) (7 / 10) 1 None
    = Some (compute_expected_cost_values ex_cfg ex_entries (7 / 10) 1 None)"
  using alex_cost_from_existing [OF ex_node_ok(1) an_ok_cap [OF ex_node_ok(1)] le0 order_refl, of "7 / 10" 1 None]
  unfolding ex_node_ok(2) .

section \<open>Model nodes\<close>


definition ex_model :: "(nat, rat) mnode" where
  "ex_model = \<lparr>mn_children = [7, 7, 8, 9], mn_model = \<lparr>lm_a = 1 / 10, lm_b = 0\<rparr>\<rparr>"

definition ex_dup :: "nat \<Rightarrow> nat" where
  "ex_dup p = (if p = 7 then 1 else 0)"


end
