(* ===== verification/Spec2Isabelle.thy ===== *)
theory Spec2Isabelle
  imports BTreeOLC_Index PGM_Correct STX_Contract Alex_Contract
begin

text \<open>
  A verification library for the learned index benchmark.

  \<^bold>\<open>The program.\<close> The suite loads a set of keys, generates a workload of reads, inserts, updates and
  scans, and runs it on one of many index structures behind a common interface
  (\<open>src/src/competitor/indexInterface.h\<close>). The driver is \<open>src/src/benchmark/benchmark.h\<close> with the
  helpers in \<open>utils.h\<close>; each index lives in its own directory under \<open>src/src/competitor\<close>, with a
  small wrapper that adapts it to the interface. The library models the driver and four of the
  indexes: the concurrent B+-tree, the STX B+-tree, the dynamic PGM-index and the nodes of ALEX.

  \<^bold>\<open>Theories and sources.\<close>

  \<^item> \<open>Prelude\<close>: ordered key/value lists, the abstract view of every index, with the collection
    \<open>olist\<close> of rewrite rules and the list lemmas the components share.
  \<^item> \<open>Benchmark\<close>, \<open>Workload\<close>: the interface as the locales \<open>kv_index\<close> (put and get), \<open>scan_index\<close>
    (with scans) and \<open>edit_index\<close> (with erasure); the operation loop of \<open>Benchmark::run\<close>;
    \<open>load_keys\<close>, \<open>generate_operations\<close>, \<open>unique_data\<close>, \<open>get_search_keys\<close>. The lemmas inside the locales
    say what a run on any index with the contract does; the generator only emits operations that
    the contract covers.
  \<^item> \<open>OptLock\<close>: the 64-bit version lock of \<open>btreeolc/src/BTreeOLC_child_layout.h\<close>, every method on
    the word, and a step relation for any number of threads around one node. By rule induction
    there is at most one writer, and a read that validates has seen no change.
  \<^item> \<open>BTreeOLC\<close>, \<open>BTreeOLC_Correct\<close>, \<open>BTreeOLC_Scan\<close>, \<open>BTreeOLC_Index\<close>: nodes, insert, lookup and scan
    of the same file and the wrapper \<open>btreeolc/btreeolc.h\<close>, run by one thread that takes and
    releases the locks. The tree invariant is kept, an insert acts on the ordered entries as
    \<open>kv_insert\<close>, a scan returns a beginning of what the order prescribes.
  \<^item> \<open>PGM_Dynamic\<close>, \<open>PGM_Correct\<close>: \<open>pgm/src/pgm_index_dynamic.hpp\<close>. Levels are sorted and within their
    capacity, merges stay within their arrays, and \<open>find\<close> reads the map the levels stand for.
  \<^item> \<open>STX_BTree\<close> and \<open>STX_Erase\<close> (definitions), \<open>STX_Correct\<close>, \<open>STX_Links\<close>, \<open>STX_Query\<close>, \<open>STX_Bulk\<close>,
    \<open>STX_Verify\<close>, \<open>STX_Copy\<close>, \<open>STX_Erase_Correct\<close> (lemmas), \<open>STX_Index\<close> (the wrapper) and \<open>STX_Contract\<close>
    (the properties): \<open>btree/src/include/stx/btree.h\<close> and \<open>btree/btree.h\<close>. Insertion with splits,
    deletion with its six ways to resolve an underflow, bulk loading, copying, the linked leaves
    with iterators, and the self-check.
  \<^item> \<open>Alex_Bits\<close>, \<open>Alex_Gap\<close> (the bitmap and its word-level searches), \<open>Alex_Node\<close> (the data node and
    its operations), \<open>Alex_Search\<close>, \<open>Alex_Slots\<close>, \<open>Alex_Load\<close>, \<open>Alex_Insert\<close>, \<open>Alex_Erase\<close> (lemmas),
    \<open>Alex_Cost\<close> (the cost model), \<open>Alex_Model\<close> (model nodes), \<open>Alex_Contract\<close> (the properties):
    \<open>alex/src/alex_nodes.h\<close> and \<open>alex/src/alex_base.h\<close>. Whatever the linear model predicts, searches
    find the bound, insertions and deletions keep the gapped array in order, and loading, resizing
    and copying keep the entries.

  \<^bold>\<open>Interfaces.\<close> Every contract between parts is a locale with an interpretation on the model's own
  operations: \<open>olc\<close> makes the wrapped concurrent tree a \<open>scan_index\<close>, \<open>stx\<close> makes the wrapped STX tree
  an \<open>edit_index\<close>, and \<open>alex\<close> makes the operations of a data node a \<open>simulation\<close> of a finite map. A
  benchmark run and a refinement by a map are proved once in the locale and used through these.

  \<^bold>\<open>Errors and partial operations.\<close> Exceptions are values of a sum type. A read or write outside an
  array, a violated assertion and a loop that would not end are \<open>None\<close>; the contracts prove that the
  operations return \<open>Some\<close>, or say exactly when they do not.

  \<^bold>\<open>Bounds and fuel.\<close> Loops without a structural measure run on fuel that is proved to be enough:
  an insert into the concurrent tree makes at most twice the number of entries plus two passes; a
  scan visits each leaf at most once; \<open>count\<close> and the loop of \<open>erase\<close> of the STX tree take one step
  more than the tree has items; the check of the leaf chain takes one step per leaf; the iterator of
  an ALEX node takes at most one step per bit of the bitmap. Exponential search, gap search and
  binary search are total functions with a measure.

  \<^bold>\<open>Parameters.\<close> What the sources do not fix is an argument: memory that is read before it is written
  (\<open>junk\<close>, \<open>stale\<close>, \<open>beyond\<close>), the random choices of the generator (\<open>shuffle\<close>, positions and draws),
  the static index over a level of the dynamic PGM-index (a template parameter, here a record of its
  operations), and floating-point arithmetic in ALEX (the record \<open>fpops\<close>). Its only hypothesis, \<open>fp_ok\<close>,
  says that comparison is reflexive and total on the numbers the capacities are compared with, which
  floating-point comparison is except on NaN; it is met by the exact rational instance
  \<open>exact_ops\<close>, on which the properties of ALEX are applied to concrete nodes.

  \<^bold>\<open>What the model shows of the code beyond the contracts.\<close> A split of a leaf with a successor cuts the
  leaf chain of the concurrent tree, so that scans miss entries; a lookup of a missing key there
  returns an uninitialised flag. An insert of a key that is still in the buffer of the dynamic
  PGM-index changes nothing, and its \<open>lower_bound\<close> can return the marker of a deleted key. The scan of
  the STX wrapper reports one entry too many; \<open>unique_data\<close> can lose the least new key; an erasure in
  an ALEX node can read behind its bitmap.

  \<^bold>\<open>Not modelled.\<close> The ALEX tree above its nodes (traversal, fanout trees, splits chosen by estimated
  cost) and the estimates from samples; the concurrent variant ALEX+; the static PGM-index with its
  floating-point segments; the forward iterator of the dynamic PGM-index; the set and multi variants
  of the STX tree, printing and the const iterators, which repeat the code of the others; XIndex with
  its background threads; ART, HOT, Masstree and Wormhole, which the suite takes from elsewhere and
  only wraps; reading of key files, the command line, timing and reports, which are input and output.
  Interleaving is modelled for one locked node, not for the concurrent tree as a whole.

  \<^bold>\<open>Plan.\<close> Next come the traversal and the insertion path of the ALEX tree over the model and data
  nodes, then the forward iterator of the dynamic PGM-index and the estimates from samples.
\<close>

end
